(* ===== verification/Prelude.thy ===== *)
theory Prelude
  imports
    Main
    "HOL-Library.Word"
    "HOL-Library.Char_ord"
    "HOL-Library.List_Lexorder"
    "HOL-Library.Sublist"
    "HOL-Library.Multiset"
    "HOL-Library.Code_Target_Nat"
begin

text \<open>
  Shared vocabulary of the development: the machine-integer types of the Go code, the
  fold that stands for a \<^verbatim>\<open>for range\<close> loop with an early error return, generic facts on
  lists, maps and big-endian byte strings, and the two interfaces every rule list of the
  program obeys: a first-match scan, and the expansion of one rule list into another that
  keeps the scan's answer.
\<close>

unbundle bit_operations_syntax

section \<open>Machine integers\<close>

type_synonym byte = "8 word"
type_synonym u16 = "16 word"
type_synonym u32 = "32 word"
type_synonym u64 = "64 word"
type_synonym u128 = "128 word"

type_synonym bytes = "byte list"

text \<open>Times are nanoseconds since the epoch, durations are nanoseconds.\<close>

type_synonym time = int
type_synonym duration = int

definition Second :: duration where
  "Second = 1000000000"

definition Minute :: duration where
  "Minute = 60 * Second"

text \<open>The zero \<^verbatim>\<open>time.Time\<close>: the first day of the year 1.\<close>

definition zero_time :: time where
  "zero_time = - 62135596800 * Second"

named_theorems go_defs \<open>definitions of Go library functions, for evaluation on concrete input\<close>
named_theorems str_simps \<open>rewriting rules for the string operations\<close>
named_theorems ip_simps \<open>rewriting rules for addresses and prefixes\<close>

declare Second_def [go_defs] Minute_def [go_defs]

section \<open>Loops with early error returns\<close>

text \<open>
  A Go loop that returns on the first error is a fold into a sum: \<open>Inl\<close> is the error
  return, \<open>Inr\<close> the state after the iteration.
\<close>

fun fold_res :: "('a \<Rightarrow> 's \<Rightarrow> 'e + 's) \<Rightarrow> 'a list \<Rightarrow> 's \<Rightarrow> 'e + 's" where
  "fold_res f [] s = Inr s"
| "fold_res f (x # xs) s = (case f x s of Inl e \<Rightarrow> Inl e | Inr s' \<Rightarrow> fold_res f xs s')"

lemma fold_res_append:
  "fold_res f (xs @ ys) s =
     (case fold_res f xs s of Inl e \<Rightarrow> Inl e | Inr s' \<Rightarrow> fold_res f ys s')"
  by (induction xs arbitrary: s) (auto split: sum.splits)

lemma fold_res_inv:
  assumes "fold_res f xs s = Inr s'" and "I [] s"
    and "\<And>pre x t t'. I pre t \<Longrightarrow> x \<in> set xs \<Longrightarrow> f x t = Inr t' \<Longrightarrow> I (pre @ [x]) t'"
  shows "I xs s'"
proof -
  have "fold_res f ys t = Inr s' \<Longrightarrow> I pre t \<Longrightarrow> set ys \<subseteq> set xs \<Longrightarrow> I (pre @ ys) s'" for pre ys t
  proof (induction ys arbitrary: pre t)
    case (Cons y ys)
    then obtain t' where "f y t = Inr t'" "fold_res f ys t' = Inr s'"
      by (auto split: sum.splits)
    with Cons.IH[of t' "pre @ [y]"] Cons.prems assms(3) show ?case by auto
  qed simp
  from this[of xs s "[]"] assms show ?thesis by simp
qed

lemma fold_res_InlD:
  "fold_res f xs s = Inl e \<Longrightarrow>
     \<exists>pre x post t. xs = pre @ x # post \<and> fold_res f pre s = Inr t \<and> f x t = Inl e"
proof (induction xs arbitrary: s)
  case (Cons x xs)
  show ?case
  proof (cases "f x s")
    case (Inl e')
    with Cons.prems have "x # xs = [] @ x # xs \<and> fold_res f [] s = Inr s \<and> f x s = Inl e" by simp
    then show ?thesis by blast
  next
    case (Inr s')
    with Cons.prems Cons.IH[of s'] obtain pre y post t where
      "xs = pre @ y # post" "fold_res f pre s' = Inr t" "f y t = Inl e" by auto
    with Inr have "x # xs = (x # pre) @ y # post \<and> fold_res f (x # pre) s = Inr t \<and> f y t = Inl e"
      by simp
    then show ?thesis by blast
  qed
qed simp

lemma find_append: "find P (xs @ ys) = (case find P xs of None \<Rightarrow> find P ys | Some x \<Rightarrow> Some x)"
  by (induction xs) auto

text \<open>Traversal by a function that may fail: the loop that appends each result to a slice.\<close>

fun map_res :: "('a \<Rightarrow> 'e + 'b) \<Rightarrow> 'a list \<Rightarrow> 'e + 'b list" where
  "map_res f [] = Inr []"
| "map_res f (x # xs) =
     (case f x of Inl e \<Rightarrow> Inl e
      | Inr y \<Rightarrow> (case map_res f xs of Inl e \<Rightarrow> Inl e | Inr ys \<Rightarrow> Inr (y # ys)))"

lemma map_res_Inr_iff: "map_res f xs = Inr ys \<longleftrightarrow> list_all2 (\<lambda>x y. f x = Inr y) xs ys"
proof (induction xs arbitrary: ys)
  case (Cons x xs)
  then show ?case
    by (cases "map_res f xs") (auto simp: list_all2_Cons1 split: sum.splits)
qed auto

lemma map_res_InlD: "map_res f xs = Inl e \<Longrightarrow> \<exists>x \<in> set xs. f x = Inl e"
  by (induction xs) (auto split: sum.splits)

lemma fold_res_map_res:
  assumes "\<And>x s. f x s = (case g x of Inl e \<Rightarrow> Inl e | Inr y \<Rightarrow> Inr (app s [y]))"
    and "\<And>s. app s [] = s" and "\<And>s ys zs. app (app s ys) zs = app s (ys @ zs)"
  shows "fold_res f xs s = (case map_res g xs of Inl e \<Rightarrow> Inl e | Inr ys \<Rightarrow> Inr (app s ys))"
  by (induction xs arbitrary: s) (auto simp: assms split: sum.splits)

text \<open>The errors and the successes of a list of results, in order.\<close>

definition lefts :: "('e + 'a) list \<Rightarrow> 'e list" where
  "lefts xs = concat (map (\<lambda>x. case x of Inl e \<Rightarrow> [e] | Inr _ \<Rightarrow> []) xs)"

definition rights :: "('e + 'a) list \<Rightarrow> 'a list" where
  "rights xs = concat (map (\<lambda>x. case x of Inl _ \<Rightarrow> [] | Inr a \<Rightarrow> [a]) xs)"

lemma lefts_simps [simp]: "lefts [] = []" "lefts (Inl e # xs) = e # lefts xs"
  "lefts (Inr a # xs) = lefts xs" "lefts (xs @ ys) = lefts xs @ lefts ys"
  by (simp_all add: lefts_def)

lemma rights_simps [simp]: "rights [] = []" "rights (Inl e # xs) = rights xs"
  "rights (Inr a # xs) = a # rights xs" "rights (xs @ ys) = rights xs @ rights ys"
  by (simp_all add: rights_def)

lemma lefts_Nil_rights: "lefts xs = [] \<Longrightarrow> xs = map Inr (rights xs)"
  by (induction xs) (auto simp: lefts_def rights_def split: sum.splits)

lemma set_lefts: "set (lefts xs) = {e. Inl e \<in> set xs}"
  by (induction xs) (auto simp: lefts_def split: sum.splits)

section \<open>Lists\<close>

lemma list_all2_exI:
  assumes "list_all2 R xs ys" and "\<And>x y. R x y \<Longrightarrow> P x \<longleftrightarrow> Q y"
  shows "(\<exists>x \<in> set xs. P x) \<longleftrightarrow> (\<exists>y \<in> set ys. Q y)"
  using assms by (induction rule: list_all2_induct) auto

lemma list_all2_imp_list_all:
  "list_all2 R xs ys \<Longrightarrow> (\<And>x y. R x y \<Longrightarrow> P y) \<Longrightarrow> list_all P ys"
  by (induction rule: list_all2_induct) auto

lemma find_Some_iff_ex: "(\<exists>x. find P xs = Some x) \<longleftrightarrow> (\<exists>x \<in> set xs. P x)"
  by (induction xs) auto

lemma suffix_take: "suffix t s \<Longrightarrow> s = take (length s - length t) s @ t"
  by (auto simp: suffix_def)

lemma int_div_eq_iff:
  fixes x m q :: int
  assumes "0 < m"
  shows "x div m = q \<longleftrightarrow> q * m \<le> x \<and> x < q * m + m"
proof
  assume "x div m = q"
  then have "x = q * m + x mod m" using div_mult_mod_eq[of x m] by simp
  then show "q * m \<le> x \<and> x < q * m + m"
    using pos_mod_sign[OF assms, of x] pos_mod_bound[OF assms, of x] by simp
next
  assume "q * m \<le> x \<and> x < q * m + m"
  then show "x div m = q"
    by (intro int_div_pos_eq[of _ _ _ "x - q * m"]) (auto simp: algebra_simps)
qed

lemma enumerate_map: "enumerate n (map g xs) = map (\<lambda>(i, x). (i, g x)) (enumerate n xs)"
  by (induction xs arbitrary: n) simp_all

section \<open>Big-endian byte strings\<close>

definition be_word :: "bytes \<Rightarrow> 'a::len word" where
  "be_word bs = foldl (\<lambda>acc b. push_bit 8 acc OR ucast b) 0 bs"

definition be16 :: "u16 \<Rightarrow> bytes" where
  "be16 v = [ucast (drop_bit 8 v), ucast v]"

fun word_bytes :: "nat \<Rightarrow> 'a::len word \<Rightarrow> bytes" where
  "word_bytes 0 w = []"
| "word_bytes (Suc n) w = ucast (drop_bit (8 * n) w) # word_bytes n w"

lemma length_word_bytes [simp]: "length (word_bytes n w) = n"
  by (induction n) auto

lemma length_be16 [simp]: "length (be16 v) = 2"
  by (simp add: be16_def)

lemma be16_eq_word_bytes: "be16 v = word_bytes 2 v"
  by (simp add: be16_def eval_nat_numeral)

lemma be_word_Nil [simp]: "be_word [] = 0"
  by (simp add: be_word_def)

lemma be_word_snoc: "be_word (bs @ [b]) = push_bit 8 (be_word bs) OR ucast b"
  by (simp add: be_word_def)

lemma bit_be_word:
  fixes bs :: bytes
  shows "bit (be_word bs :: 'a::len word) k \<longleftrightarrow>
    k < LENGTH('a) \<and> k div 8 < length bs \<and> bit (bs ! (length bs - 1 - k div 8)) (k mod 8)"
proof (induction bs arbitrary: k rule: rev_induct)
  case (snoc b bs)
  show ?case
  proof (cases "k < 8")
    case True
    then show ?thesis
      by (auto simp: be_word_snoc bit_or_iff bit_push_bit_iff bit_ucast_iff nth_append)
  next
    case False
    then have k: "k div 8 = Suc ((k - 8) div 8)" "k mod 8 = (k - 8) mod 8"
      by (simp_all add: le_div_geq le_mod_geq)
    have b: "\<not> bit b k" using False by (auto dest: bit_imp_le_length)
    have n: "(k - 8) div 8 < length bs \<Longrightarrow>
        (bs @ [b]) ! (length bs - Suc ((k - 8) div 8)) = bs ! (length bs - Suc ((k - 8) div 8))"
    proof -
      assume "(k - 8) div 8 < length bs"
      then have "length bs - Suc ((k - 8) div 8) < length bs" by arith
      then show ?thesis by (simp add: nth_append)
    qed
    show ?thesis
      using False b n
      by (auto simp: be_word_snoc bit_or_iff bit_push_bit_iff bit_ucast_iff k snoc.IH)
  qed
qed simp

lemma nth_word_bytes: "i < n \<Longrightarrow> word_bytes n w ! i = ucast (drop_bit (8 * (n - 1 - i)) w)"
proof (induction n arbitrary: i)
  case (Suc n)
  then show ?case by (cases i) auto
qed simp

lemma be_word_word_bytes:
  fixes w :: "'a::len word"
  assumes "8 * n = LENGTH('a)"
  shows "be_word (word_bytes n w) = w"
proof (rule bit_word_eqI)
  fix k assume k: "k < LENGTH('a)"
  then have d: "k div 8 < n" using assms by auto
  then have "n - 1 - (n - 1 - k div 8) = k div 8" by simp
  then have "word_bytes n w ! (n - 1 - k div 8) = ucast (drop_bit (8 * (k div 8)) w)"
    using d by (simp add: nth_word_bytes)
  then show "bit (be_word (word_bytes n w) :: 'a word) k = bit w k"
    using k d by (simp add: bit_be_word bit_ucast_iff bit_drop_bit_eq)
qed

lemma word_bytes_be_word:
  fixes bs :: bytes
  assumes "8 * length bs \<le> LENGTH('a::len)"
  shows "word_bytes (length bs) (be_word bs :: 'a word) = bs"
proof (rule nth_equalityI)
  fix i assume i: "i < length (word_bytes (length bs) (be_word bs :: 'a word))"
  show "word_bytes (length bs) (be_word bs :: 'a word) ! i = bs ! i"
  proof (rule bit_word_eqI)
    fix k assume k: "k < LENGTH(8)"
    let ?j = "8 * (length bs - 1 - i) + k"
    have "?j div 8 = length bs - 1 - i" "?j mod 8 = k" "length bs - 1 - (length bs - 1 - i) = i"
      "length bs - 1 - i < length bs"
      using k i by auto
    moreover have "?j < LENGTH('a)" using assms i k by auto
    ultimately show "bit (word_bytes (length bs) (be_word bs :: 'a word) ! i) k = bit (bs ! i) k"
      using i k by (simp add: nth_word_bytes bit_ucast_iff bit_drop_bit_eq bit_be_word)
  qed
qed simp

section \<open>Masking words\<close>

lemma uint_drop_bit: "uint (drop_bit n (x :: 'a::len word)) = uint x div 2 ^ n"
  by (simp add: unsigned_drop_bit_eq take_bit_int_eq_self flip: drop_bit_eq_div)

lemma word_xor_eq_0_iff:
  fixes a :: "'a::len word"
  shows "a XOR b = 0 \<longleftrightarrow> a = b"
proof
  assume "a XOR b = 0"
  then have "(a XOR b) XOR b = b" by simp
  then show "a = b" by (simp only: xor.assoc xor_self_eq xor.right_neutral)
qed simp

lemma drop_bit_mask_out:
  fixes w :: "'a::len word"
  shows "drop_bit n (w AND NOT (mask n)) = drop_bit n w"
  by (rule bit_word_eqI) (auto simp: bit_drop_bit_eq bit_and_iff bit_not_iff bit_mask_iff dest: bit_imp_le_length)

lemma and_not_mask_eq_0_iff:
  fixes w :: "'a::len word"
  shows "w AND NOT (mask n) = 0 \<longleftrightarrow> drop_bit n w = 0"
proof
  assume "w AND NOT (mask n) = 0"
  then show "drop_bit n w = 0" using drop_bit_mask_out[of n w] by simp
next
  assume h: "drop_bit n w = 0"
  have "w AND NOT (mask n) = push_bit n (drop_bit n w)"
    by (rule bit_word_eqI)
       (auto simp: bit_push_bit_iff bit_drop_bit_eq bit_and_iff bit_not_iff bit_mask_iff)
  with h show "w AND NOT (mask n) = 0" by simp
qed

lemma xor_drop_zero_iff:
  fixes a :: "'a::len word"
  shows "drop_bit n (a XOR b) = 0 \<longleftrightarrow> drop_bit n a = drop_bit n b"
  unfolding drop_bit_xor by (rule word_xor_eq_0_iff)

lemma xor_mask_zero_iff:
  fixes a :: "'a::len word"
  shows "(a XOR b) AND NOT (mask n) = 0 \<longleftrightarrow> drop_bit n a = drop_bit n b"
  by (simp only: and_not_mask_eq_0_iff xor_drop_zero_iff)

section \<open>First-match rule lists\<close>

text \<open>
  The policy's rules and the chain's atoms are both read the same way: the first entry that
  hits decides. \<open>scan\<close> is the loop of the code, \<open>hits\<close> the test in its body and \<open>yields\<close> the
  answer of an entry that hit.
\<close>

locale first_match =
  fixes scan :: "'r list \<Rightarrow> 'd \<Rightarrow> 'v option"
    and hits :: "'r \<Rightarrow> 'd \<Rightarrow> bool"
    and yields :: "'r \<Rightarrow> 'd \<Rightarrow> 'v"
  assumes scan_Nil: "scan [] d = None"
    and scan_Cons: "scan (r # rs) d = (if hits r d then Some (yields r d) else scan rs d)"
begin

lemma scan_append:
  "scan (xs @ ys) d = (case scan xs d of None \<Rightarrow> scan ys d | Some v \<Rightarrow> Some v)"
  by (induction xs) (auto simp: scan_Nil scan_Cons)

lemma scan_None_iff: "scan rs d = None \<longleftrightarrow> (\<forall>r \<in> set rs. \<not> hits r d)"
  by (induction rs) (auto simp: scan_Nil scan_Cons)

lemma scan_SomeD:
  "scan rs d = Some v \<Longrightarrow>
     \<exists>pre r post. rs = pre @ r # post \<and> hits r d \<and> v = yields r d \<and> (\<forall>q \<in> set pre. \<not> hits q d)"
proof (induction rs)
  case (Cons r rs)
  show ?case
  proof (cases "hits r d")
    case True
    with Cons.prems have "r # rs = [] @ r # rs \<and> hits r d \<and> v = yields r d"
      by (simp add: scan_Cons)
    then show ?thesis by fastforce
  next
    case False
    with Cons obtain pre r' post where
      "rs = pre @ r' # post" "hits r' d" "v = yields r' d" "\<forall>q \<in> set pre. \<not> hits q d"
      by (auto simp: scan_Cons)
    with False have "r # rs = (r # pre) @ r' # post \<and> hits r' d \<and> v = yields r' d
        \<and> (\<forall>q \<in> set (r # pre). \<not> hits q d)"
      by simp
    then show ?thesis by blast
  qed
qed (simp add: scan_Nil)

lemma scan_first:
  "hits r d \<Longrightarrow> \<forall>q \<in> set pre. \<not> hits q d \<Longrightarrow> scan (pre @ r # post) d = Some (yields r d)"
  using scan_None_iff[of pre d] by (simp add: scan_append scan_Cons)

lemma scan_in: "scan rs d = Some v \<Longrightarrow> \<exists>r \<in> set rs. hits r d \<and> v = yields r d"
  using scan_SomeD[of rs d v] by auto

lemma scan_filter_irrelevant:
  "(\<And>r. r \<in> set rs \<Longrightarrow> hits r d \<Longrightarrow> P r) \<Longrightarrow> scan (filter P rs) d = scan rs d"
  by (induction rs) (auto simp: scan_Nil scan_Cons)

lemma scan_all_same:
  assumes "\<And>r. r \<in> set rs \<Longrightarrow> hits r d \<Longrightarrow> yields r d = v"
  shows "scan rs d = (if \<exists>r \<in> set rs. hits r d then Some v else None)"
  using assms by (induction rs) (auto simp: scan_Nil scan_Cons)

end

text \<open>
  One rule list expanded into another: every rule becomes a list of atoms, one of which hits
  exactly when the rule does, all of them with the rule's answer. Then both scans agree.
\<close>

locale match_expansion =
  R: first_match scanR hitsR yieldsR + A: first_match scanA hitsA yieldsA
  for scanR :: "'r list \<Rightarrow> 'd \<Rightarrow> 'v option"
    and hitsR :: "'r \<Rightarrow> 'd \<Rightarrow> bool"
    and yieldsR :: "'r \<Rightarrow> 'd \<Rightarrow> 'v"
    and scanA :: "'a list \<Rightarrow> 'd \<Rightarrow> 'v option"
    and hitsA :: "'a \<Rightarrow> 'd \<Rightarrow> bool"
    and yieldsA :: "'a \<Rightarrow> 'd \<Rightarrow> 'v" +
  fixes expand :: "'r \<Rightarrow> 'a list"
    and ok :: "'r \<Rightarrow> 'd \<Rightarrow> bool"
  assumes expand_hits: "ok r d \<Longrightarrow> (\<exists>a \<in> set (expand r). hitsA a d) \<longleftrightarrow> hitsR r d"
    and expand_yields: "ok r d \<Longrightarrow> a \<in> set (expand r) \<Longrightarrow> yieldsA a d = yieldsR r d"
begin

lemma scan_expand_one: "ok r d \<Longrightarrow> scanA (expand r) d = scanR [r] d"
  using A.scan_all_same[of "expand r" d "yieldsR r d"] expand_hits[of r d] expand_yields[of r d]
  by (auto simp: R.scan_Cons R.scan_Nil)

lemma scan_expand:
  "(\<And>r. r \<in> set rs \<Longrightarrow> ok r d) \<Longrightarrow> scanA (concat (map expand rs)) d = scanR rs d"
proof (induction rs)
  case (Cons r rs)
  then show ?case
    using R.scan_append[of "[r]" rs d] by (simp add: A.scan_append scan_expand_one split: option.split)
qed (simp add: A.scan_Nil R.scan_Nil)

end

end
