(* ===== verification/Go_Strings.thy ===== *)
theory Go_Strings
  imports Prelude
begin

text \<open>
  What the program uses of Go's \<^verbatim>\<open>strings\<close> and \<^verbatim>\<open>strconv\<close> packages. A Go string is a
  sequence of bytes, and so is an HOL \<open>string\<close>. White space is Unicode white space in its
  UTF-8 encoding, as \<^verbatim>\<open>unicode.IsSpace\<close> has it; case mapping and quoting are exact on ASCII
  and leave bytes from 128 on as they are (Go consults the Unicode tables there).
\<close>

section \<open>Prefixes, suffixes and searching\<close>

definition HasPrefix :: "string \<Rightarrow> string \<Rightarrow> bool" where
  "HasPrefix s p \<longleftrightarrow> take (length p) s = p"

definition HasSuffix :: "string \<Rightarrow> string \<Rightarrow> bool" where
  "HasSuffix s t \<longleftrightarrow> length t \<le> length s \<and> drop (length s - length t) s = t"

definition TrimSuffix :: "string \<Rightarrow> string \<Rightarrow> string" where
  "TrimSuffix s t = (if HasSuffix s t then take (length s - length t) s else s)"

definition CutPrefix :: "string \<Rightarrow> string \<Rightarrow> string option" where
  "CutPrefix s p = (if HasPrefix s p then Some (drop (length p) s) else None)"

text \<open>The index of the first occurrence of a substring.\<close>

fun str_Index :: "string \<Rightarrow> string \<Rightarrow> nat option" where
  "str_Index [] sub = (if sub = [] then Some 0 else None)"
| "str_Index (c # cs) sub =
     (if HasPrefix (c # cs) sub then Some 0 else map_option Suc (str_Index cs sub))"

definition str_Contains :: "string \<Rightarrow> string \<Rightarrow> bool" where
  "str_Contains s sub \<longleftrightarrow> str_Index s sub \<noteq> None"

text \<open>\<^verbatim>\<open>strings.Cut\<close>: the parts around the first separator, or \<open>None\<close> when there is none.\<close>

definition str_Cut :: "string \<Rightarrow> string \<Rightarrow> (string \<times> string) option" where
  "str_Cut s sep =
     (case str_Index s sep of None \<Rightarrow> None
      | Some i \<Rightarrow> Some (take i s, drop (i + length sep) s))"

definition LastIndexByte :: "string \<Rightarrow> char \<Rightarrow> nat option" where
  "LastIndexByte s c =
     (if c \<in> set s then Some (length s - 1 - length (takeWhile (\<lambda>x. x \<noteq> c) (rev s))) else None)"

definition str_Count :: "string \<Rightarrow> char \<Rightarrow> nat" where
  "str_Count s c = length (filter (\<lambda>x. x = c) s)"

text \<open>\<^verbatim>\<open>strings.Split\<close> at a one-character separator.\<close>

fun str_Split :: "string \<Rightarrow> char \<Rightarrow> string list" where
  "str_Split [] c = [[]]"
| "str_Split (x # xs) c =
     (if x = c then [] # str_Split xs c
      else (case str_Split xs c of [] \<Rightarrow> [[x]] | p # ps \<Rightarrow> (x # p) # ps))"

fun str_Join :: "string list \<Rightarrow> string \<Rightarrow> string" where
  "str_Join [] sep = []"
| "str_Join [x] sep = x"
| "str_Join (x # y # zs) sep = x @ sep @ str_Join (y # zs) sep"

text \<open>\<^verbatim>\<open>strings.Trim\<close> with a one-character cutset.\<close>

definition TrimChar :: "string \<Rightarrow> char \<Rightarrow> string" where
  "TrimChar s c = rev (dropWhile (\<lambda>x. x = c) (rev (dropWhile (\<lambda>x. x = c) s)))"

section \<open>Case and white space\<close>

definition ascii_lower :: "char \<Rightarrow> char" where
  "ascii_lower c =
     (let n = (of_char c :: nat) in if 65 \<le> n \<and> n \<le> 90 then char_of (n + 32) else c)"

definition ToLower :: "string \<Rightarrow> string" where
  "ToLower s = map ascii_lower s"

text \<open>The UTF-8 encodings of the characters with the property White\_Space.\<close>

definition unicode_spaces :: "string list" where
  "unicode_spaces = map (map char_of)
     ([[9], [10], [11], [12], [13], [32], [0xC2, 0x85], [0xC2, 0xA0], [0xE1, 0x9A, 0x80],
       [0xE2, 0x80, 0x80], [0xE2, 0x80, 0x81], [0xE2, 0x80, 0x82], [0xE2, 0x80, 0x83],
       [0xE2, 0x80, 0x84], [0xE2, 0x80, 0x85], [0xE2, 0x80, 0x86], [0xE2, 0x80, 0x87],
       [0xE2, 0x80, 0x88], [0xE2, 0x80, 0x89], [0xE2, 0x80, 0x8A], [0xE2, 0x80, 0xA8],
       [0xE2, 0x80, 0xA9], [0xE2, 0x80, 0xAF], [0xE2, 0x81, 0x9F], [0xE3, 0x80, 0x80]]
      :: nat list list)"

lemma unicode_spaces_nonempty: "w \<in> set unicode_spaces \<Longrightarrow> w \<noteq> []"
  by (auto simp: unicode_spaces_def)

definition lead_space :: "string \<Rightarrow> string option" where
  "lead_space s = find (\<lambda>w. HasPrefix s w) unicode_spaces"

definition tail_space :: "string \<Rightarrow> string option" where
  "tail_space s = find (\<lambda>w. HasSuffix s w) unicode_spaces"

lemma lead_space_SomeD: "lead_space s = Some w \<Longrightarrow> w \<noteq> [] \<and> HasPrefix s w"
  by (auto simp: lead_space_def find_Some_iff dest!: unicode_spaces_nonempty[rotated])
     (metis nth_mem unicode_spaces_nonempty)

lemma tail_space_SomeD: "tail_space s = Some w \<Longrightarrow> w \<noteq> [] \<and> HasSuffix s w"
  by (auto simp: tail_space_def find_Some_iff)
     (metis nth_mem unicode_spaces_nonempty)

function trim_left :: "string \<Rightarrow> string" where
  "trim_left s = (case lead_space s of None \<Rightarrow> s | Some w \<Rightarrow> trim_left (drop (length w) s))"
  by pat_completeness auto
termination
  by (relation "measure length")
     (auto dest!: lead_space_SomeD simp: HasPrefix_def intro!: diff_less)

function trim_right :: "string \<Rightarrow> string" where
  "trim_right s =
     (case tail_space s of None \<Rightarrow> s | Some w \<Rightarrow> trim_right (take (length s - length w) s))"
  by pat_completeness auto
termination
  by (relation "measure length")
     (auto dest!: tail_space_SomeD simp: HasSuffix_def intro!: diff_less)

declare trim_left.simps [simp del] trim_right.simps [simp del]

definition TrimSpace :: "string \<Rightarrow> string" where
  "TrimSpace s = trim_right (trim_left s)"

text \<open>\<^verbatim>\<open>strings.Fields\<close>: \<open>cur\<close> is the field being read, reversed.\<close>

function fields_aux :: "string \<Rightarrow> string \<Rightarrow> string list" where
  "fields_aux cur s =
     (case s of
        [] \<Rightarrow> (if cur = [] then [] else [rev cur])
      | c # cs \<Rightarrow>
          (case lead_space s of
             Some w \<Rightarrow> (if cur = [] then [] else [rev cur]) @ fields_aux [] (drop (length w) s)
           | None \<Rightarrow> fields_aux (c # cur) cs))"
  by pat_completeness auto
termination
  by (relation "measure (\<lambda>(cur, s). length s)")
     (auto dest!: lead_space_SomeD simp: HasPrefix_def intro!: diff_less)

declare fields_aux.simps [simp del]

definition str_Fields :: "string \<Rightarrow> string list" where
  "str_Fields s = fields_aux [] s"

section \<open>Numbers\<close>

fun itoa :: "nat \<Rightarrow> string" where
  "itoa n = (if n < 10 then [] else itoa (n div 10)) @ [char_of (48 + n mod 10)]"

declare itoa.simps [simp del]

definition int_string :: "int \<Rightarrow> string" where
  "int_string i = (if i < 0 then CHR ''-'' # itoa (nat (- i)) else itoa (nat i))"

definition hex_digit :: "nat \<Rightarrow> char" where
  "hex_digit d = (if d < 10 then char_of (48 + d) else char_of (87 + d))"

fun hex_string :: "nat \<Rightarrow> string" where
  "hex_string n = (if n < 16 then [] else hex_string (n div 16)) @ [hex_digit (n mod 16)]"

declare hex_string.simps [simp del]

text \<open>The value of a digit in bases up to 36.\<close>

definition digit_val :: "char \<Rightarrow> nat option" where
  "digit_val c =
     (let n = (of_char c :: nat) in
      if 48 \<le> n \<and> n \<le> 57 then Some (n - 48)
      else if 97 \<le> n \<and> n \<le> 122 then Some (n - 87)
      else if 65 \<le> n \<and> n \<le> 90 then Some (n - 55)
      else None)"

fun uint_digits :: "nat \<Rightarrow> nat \<Rightarrow> string \<Rightarrow> nat option" where
  "uint_digits base acc [] = Some acc"
| "uint_digits base acc (c # cs) =
     (case digit_val c of None \<Rightarrow> None
      | Some d \<Rightarrow> if base \<le> d then None else uint_digits base (acc * base + d) cs)"

text \<open>\<^verbatim>\<open>strconv.ParseUint\<close> with an explicit base: \<open>None\<close> on a syntax or range error.\<close>

definition ParseUint :: "string \<Rightarrow> nat \<Rightarrow> nat \<Rightarrow> nat option" where
  "ParseUint s base bits =
     (if s = [] then None
      else (case uint_digits base 0 s of None \<Rightarrow> None
            | Some v \<Rightarrow> if v < 2 ^ bits then Some v else None))"

section \<open>Quoting\<close>

definition quote_char :: "char \<Rightarrow> string" where
  "quote_char c =
     (let n = (of_char c :: nat); bs = char_of (92 :: nat); q = char_of (34 :: nat) in
      if n = 34 then [bs, q]
      else if n = 92 then [bs, bs]
      else if n = 7 then [bs, CHR ''a''] else if n = 8 then [bs, CHR ''b'']
      else if n = 12 then [bs, CHR ''f''] else if n = 10 then [bs, CHR ''n'']
      else if n = 13 then [bs, CHR ''r''] else if n = 9 then [bs, CHR ''t'']
      else if n = 11 then [bs, CHR ''v'']
      else if n < 32 \<or> n = 127 then [bs, CHR ''x'', hex_digit (n div 16), hex_digit (n mod 16)]
      else [c])"

definition Quote :: "string \<Rightarrow> string" where
  "Quote s = [char_of (34 :: nat)] @ concat (map quote_char s) @ [char_of (34 :: nat)]"

section \<open>Lemmas\<close>

lemma HasPrefix_iff: "HasPrefix s p \<longleftrightarrow> (\<exists>t. s = p @ t)"
  unfolding HasPrefix_def by (metis append_eq_conv_conj append_take_drop_id)

lemma HasSuffix_iff: "HasSuffix s t \<longleftrightarrow> (\<exists>p. s = p @ t)"
proof
  assume "HasSuffix s t"
  then have "s = take (length s - length t) s @ t"
    unfolding HasSuffix_def by (metis append_take_drop_id)
  then show "\<exists>p. s = p @ t" by blast
qed (auto simp: HasSuffix_def)

lemma HasPrefix_append [simp]: "HasPrefix (p @ t) p"
  by (auto simp: HasPrefix_iff)

lemma HasSuffix_append [simp]: "HasSuffix (p @ t) t"
  by (auto simp: HasSuffix_iff)

lemma ascii_lower_idem [simp]: "ascii_lower (ascii_lower c) = ascii_lower c"
  by (simp add: ascii_lower_def Let_def of_char_of)

lemma ToLower_idem [simp]: "ToLower (ToLower s) = ToLower s"
  by (simp add: ToLower_def)

lemma ToLower_append: "ToLower (s @ t) = ToLower s @ ToLower t"
  by (simp add: ToLower_def)

lemma ToLower_Nil_iff [simp]: "ToLower s = [] \<longleftrightarrow> s = []"
  by (simp add: ToLower_def)

subsection \<open>Splitting and joining\<close>

lemma str_Split_not_Nil [simp]: "str_Split s c \<noteq> []"
  by (induction s c rule: str_Split.induct) (auto split: list.splits)

lemma str_Join_Cons: "ps \<noteq> [] \<Longrightarrow> str_Join (p # ps) sep = p @ sep @ str_Join ps sep"
  by (cases ps) auto

lemma str_Join_Split [simp]: "str_Join (str_Split s c) [c] = s"
proof (induction s c rule: str_Split.induct)
  case (2 x xs c)
  then show ?case
    by (cases "str_Split xs c"; cases "tl (str_Split xs c)") (auto simp: str_Join_Cons)
qed simp

lemma str_Split_append: "str_Split (a @ c # b) c = str_Split a c @ str_Split b c"
proof (induction a)
  case (Cons x a)
  then show ?case by (cases "str_Split a c") auto
qed simp

lemma str_Split_no_sep: "c \<notin> set s \<Longrightarrow> str_Split s c = [s]"
  by (induction s) auto

lemma length_str_Split: "length (str_Split s c) = str_Count s c + 1"
  by (induction s c rule: str_Split.induct) (auto simp: str_Count_def split: list.splits)

lemma str_Split_inj: "str_Split s c = str_Split t c \<Longrightarrow> s = t"
  using str_Join_Split by metis

lemma str_Join_append:
  "ps \<noteq> [] \<Longrightarrow> qs \<noteq> [] \<Longrightarrow> str_Join (ps @ qs) sep = str_Join ps sep @ sep @ str_Join qs sep"
proof (induction ps)
  case (Cons p ps)
  then show ?case by (cases "ps = []") (simp_all add: str_Join_Cons)
qed simp

lemma prefix_str_Split_iff:
  "prefix (str_Split p c) (str_Split s c) \<longleftrightarrow> s = p \<or> HasPrefix s (p @ [c])"
proof
  assume "prefix (str_Split p c) (str_Split s c)"
  then obtain qs where qs: "str_Split s c = str_Split p c @ qs" by (auto elim: prefixE)
  show "s = p \<or> HasPrefix s (p @ [c])"
  proof (cases "qs = []")
    case True
    with qs show ?thesis using str_Split_inj by auto
  next
    case False
    have "s = str_Join (str_Split p c @ qs) [c]" using qs str_Join_Split[of s c] by simp
    also have "\<dots> = p @ [c] @ str_Join qs [c]" using False by (simp add: str_Join_append)
    finally show ?thesis by (auto simp: HasPrefix_iff)
  qed
next
  assume "s = p \<or> HasPrefix s (p @ [c])"
  then show "prefix (str_Split p c) (str_Split s c)"
    by (auto simp: HasPrefix_iff str_Split_append)
qed

subsection \<open>Decimal numbers\<close>

lemma digit_val_digit [simp]: "d < 10 \<Longrightarrow> digit_val (char_of (48 + d)) = Some d"
  by (simp add: digit_val_def Let_def of_char_of)

lemma uint_digits_append:
  "uint_digits base acc (s @ t) =
     (case uint_digits base acc s of None \<Rightarrow> None | Some v \<Rightarrow> uint_digits base v t)"
  by (induction s arbitrary: acc) (auto split: option.splits)

lemma uint_digits_itoa: "uint_digits 10 acc (itoa n) = Some (acc * 10 ^ length (itoa n) + n)"
proof (induction n arbitrary: acc rule: itoa.induct)
  case (1 n)
  show ?case
  proof (cases "n < 10")
    case True
    then show ?thesis by (simp add: itoa.simps[of n])
  next
    case False
    have "(acc * 10 ^ length (itoa (n div 10)) + n div 10) * 10 + n mod 10
        = acc * 10 ^ Suc (length (itoa (n div 10))) + n"
      by (simp add: add_mult_distrib)
    with False 1[of acc] show ?thesis
      by (simp add: itoa.simps[of n] uint_digits_append)
  qed
qed

lemma itoa_not_Nil [simp]: "itoa n \<noteq> []"
  by (subst itoa.simps) simp

lemma ParseUint_itoa: "n < 2 ^ bits \<Longrightarrow> ParseUint (itoa n) 10 bits = Some n"
  by (simp add: ParseUint_def uint_digits_itoa)

lemma ParseUint_bound: "ParseUint s base bits = Some v \<Longrightarrow> v < 2 ^ bits"
  by (auto simp: ParseUint_def split: if_splits option.splits)

lemma itoa_digits: "c \<in> set (itoa n) \<Longrightarrow> \<exists>d < (10 :: nat). c = char_of (48 + d)"
proof (induction n rule: itoa.induct)
  case (1 n)
  then consider "c \<in> set (itoa (n div 10))" "\<not> n < 10" | "c = char_of (48 + n mod 10)"
    by (auto simp: itoa.simps[of n] split: if_splits)
  then show ?case
  proof cases
    case 1
    with "1.IH" show ?thesis by simp
  next
    case 2
    then show ?thesis by (intro exI[of _ "n mod 10"]) simp
  qed
qed

lemma itoa_inj: "itoa m = itoa n \<Longrightarrow> m = n"
proof -
  have "uint_digits 10 0 (itoa k) = Some k" for k by (simp add: uint_digits_itoa)
  then show "itoa m = itoa n \<Longrightarrow> m = n" by (metis option.inject)
qed

lemma str_Split_parts: "part \<in> set (str_Split s c) \<Longrightarrow> c \<notin> set part"
  by (induction s c arbitrary: part rule: str_Split.induct) (auto split: list.splits if_splits)

lemma str_Split_Join:
  "ps \<noteq> [] \<Longrightarrow> (\<And>p. p \<in> set ps \<Longrightarrow> c \<notin> set p) \<Longrightarrow> str_Split (str_Join ps [c]) c = ps"
proof (induction ps)
  case (Cons p ps)
  then show ?case
    by (cases "ps = []") (simp_all add: str_Split_no_sep str_Join_Cons str_Split_append)
qed simp

subsection \<open>Printable text\<close>

definition graphic :: "char \<Rightarrow> bool" where
  "graphic c \<longleftrightarrow> 33 \<le> (of_char c :: nat) \<and> (of_char c :: nat) \<le> 126"

lemma spaces_not_graphic:
  "w \<in> set unicode_spaces \<Longrightarrow> \<not> graphic (hd w) \<and> \<not> graphic (last w)"
  by (auto simp: unicode_spaces_def graphic_def of_char_of)

lemma lead_space_graphic: "s = [] \<or> graphic (hd s) \<Longrightarrow> lead_space s = None"
  using spaces_not_graphic unicode_spaces_nonempty
  by (fastforce simp: lead_space_def find_None_iff HasPrefix_iff hd_append)

lemma tail_space_graphic: "s = [] \<or> graphic (last s) \<Longrightarrow> tail_space s = None"
  using spaces_not_graphic unicode_spaces_nonempty
  by (fastforce simp: tail_space_def find_None_iff HasSuffix_iff last_append)

lemma TrimSpace_graphic: "s = [] \<or> graphic (hd s) \<and> graphic (last s) \<Longrightarrow> TrimSpace s = s"
  by (auto simp: TrimSpace_def trim_left.simps[of s] trim_right.simps[of s]
      trim_left.simps[of "[]"] trim_right.simps[of "[]"] lead_space_graphic tail_space_graphic)

lemma graphic_itoa: "c \<in> set (itoa n) \<Longrightarrow> graphic c"
  by (auto simp: graphic_def of_char_of dest!: itoa_digits)

lemma TrimSpace_itoa [simp]: "TrimSpace (itoa n) = itoa n"
  by (rule TrimSpace_graphic) (simp add: graphic_itoa[of "hd (itoa n)" n] graphic_itoa[of "last (itoa n)" n])

lemma itoa_no_char: "c \<in> set (itoa n) \<Longrightarrow> (of_char c :: nat) < 48 \<or> 57 < (of_char c :: nat) \<Longrightarrow> False"
  by (auto simp: of_char_of dest!: itoa_digits)

lemma str_Index_char:
  "str_Index s [c] = (if c \<in> set s then Some (length (takeWhile (\<lambda>x. x \<noteq> c) s)) else None)"
  by (induction s) (auto simp: HasPrefix_def)

lemma str_Cut_char_None: "c \<notin> set s \<Longrightarrow> str_Cut s [c] = None"
  by (simp add: str_Cut_def str_Index_char)

lemma takeWhile_no: "c \<notin> set s \<Longrightarrow> takeWhile (\<lambda>x. x \<noteq> c) (s @ c # t) = s"
  by (induction s) auto

lemma str_Cut_char: "c \<notin> set s \<Longrightarrow> str_Cut (s @ c # t) [c] = Some (s, t)"
proof -
  assume "c \<notin> set s"
  then have "takeWhile (\<lambda>x. x \<noteq> c) (s @ c # t) = s" by (induction s) auto
  then show ?thesis by (simp add: str_Cut_def str_Index_char)
qed

lemma TrimChar_id: "s = [] \<or> hd s \<noteq> c \<and> last s \<noteq> c \<Longrightarrow> TrimChar s c = s"
proof -
  assume h: "s = [] \<or> hd s \<noteq> c \<and> last s \<noteq> c"
  then have "dropWhile (\<lambda>x. x = c) s = s" by (cases s) auto
  moreover have "dropWhile (\<lambda>x. x = c) (rev s) = rev s"
    using h by (cases s rule: rev_cases) auto
  ultimately show ?thesis by (simp add: TrimChar_def)
qed

end
