(* ===== verification/Netip.thy ===== *)
theory Netip
  imports Go_Strings
begin

text \<open>
  What the program uses of Go's \<^verbatim>\<open>net/netip\<close> and of \<^verbatim>\<open>net.SplitHostPort\<close>: addresses with their
  classification, order, text form and parser, and CIDR prefixes. \<open>NoAddr\<close> is the zero
  \<^verbatim>\<open>Addr\<close>; an IPv4 address in IPv6 form (\<^verbatim>\<open>::ffff:a.b.c.d\<close>) is an \<open>Addr6\<close>, as in Go, until it
  is unmapped.
\<close>

section \<open>Addresses\<close>

datatype addr = NoAddr | Addr4 u32 | Addr6 u128 string

fun IsValid :: "addr \<Rightarrow> bool" where
  "IsValid NoAddr = False"
| "IsValid _ = True"

fun Is4 :: "addr \<Rightarrow> bool" where
  "Is4 (Addr4 _) = True"
| "Is4 _ = False"

fun Is6 :: "addr \<Rightarrow> bool" where
  "Is6 (Addr6 _ _) = True"
| "Is6 _ = False"

fun Is4In6 :: "addr \<Rightarrow> bool" where
  "Is4In6 (Addr6 w _) = (drop_bit 32 w = 0xffff)"
| "Is4In6 _ = False"

fun BitLen :: "addr \<Rightarrow> nat" where
  "BitLen NoAddr = 0"
| "BitLen (Addr4 _) = 32"
| "BitLen (Addr6 _ _) = 128"

fun hasZone :: "addr \<Rightarrow> bool" where
  "hasZone (Addr6 _ z) = (z \<noteq> [])"
| "hasZone _ = False"

fun withoutZone :: "addr \<Rightarrow> addr" where
  "withoutZone (Addr6 w _) = Addr6 w []"
| "withoutZone a = a"

fun Unmap :: "addr \<Rightarrow> addr" where
  "Unmap (Addr6 w z) = (if Is4In6 (Addr6 w z) then Addr4 (ucast w) else Addr6 w z)"
| "Unmap a = a"

definition map4in6 :: "u32 \<Rightarrow> addr" where
  "map4in6 w = Addr6 (0xffff00000000 OR ucast w) []"

definition IsLoopback :: "addr \<Rightarrow> bool" where
  "IsLoopback a =
     (case Unmap a of NoAddr \<Rightarrow> False
      | Addr4 w \<Rightarrow> drop_bit 24 w = 127
      | Addr6 w _ \<Rightarrow> w = 1)"

definition IsMulticast :: "addr \<Rightarrow> bool" where
  "IsMulticast a =
     (case Unmap a of NoAddr \<Rightarrow> False
      | Addr4 w \<Rightarrow> drop_bit 28 w = 0xe
      | Addr6 w _ \<Rightarrow> drop_bit 120 w = 0xff)"

definition IsUnspecified :: "addr \<Rightarrow> bool" where
  "IsUnspecified a \<longleftrightarrow> a = Addr4 0 \<or> a = Addr6 0 []"

definition AddrFrom4 :: "bytes \<Rightarrow> addr" where
  "AddrFrom4 bs = Addr4 (be_word bs)"

definition AddrFrom16 :: "bytes \<Rightarrow> addr" where
  "AddrFrom16 bs = Addr6 (be_word bs) []"

fun AsSlice :: "addr \<Rightarrow> bytes" where
  "AsSlice NoAddr = []"
| "AsSlice (Addr4 w) = word_bytes 4 w"
| "AsSlice (Addr6 w _) = word_bytes 16 w"

text \<open>The order of \<^verbatim>\<open>Addr.Less\<close>: by bit length, then value, then zone.\<close>

instantiation addr :: linorder
begin

fun less_addr :: "addr \<Rightarrow> addr \<Rightarrow> bool" where
  "less_addr NoAddr NoAddr = False"
| "less_addr NoAddr _ = True"
| "less_addr (Addr4 a) (Addr4 b) = (a < b)"
| "less_addr (Addr4 _) (Addr6 _ _) = True"
| "less_addr (Addr6 a y) (Addr6 b z) = (a < b \<or> a = b \<and> y < z)"
| "less_addr _ _ = False"

definition less_eq_addr :: "addr \<Rightarrow> addr \<Rightarrow> bool" where
  "less_eq_addr a b \<longleftrightarrow> a = b \<or> a < b"

instance
proof
  fix a b c :: addr
  show "a < b \<longleftrightarrow> a \<le> b \<and> \<not> b \<le> a"
    by (cases a; cases b) (auto simp: less_eq_addr_def)
  show "a \<le> a" by (simp add: less_eq_addr_def)
  show "a \<le> b \<Longrightarrow> b \<le> c \<Longrightarrow> a \<le> c"
    by (cases a; cases b; cases c) (auto simp: less_eq_addr_def)
  show "a \<le> b \<Longrightarrow> b \<le> a \<Longrightarrow> a = b"
    by (cases a; cases b) (auto simp: less_eq_addr_def)
  show "a \<le> b \<or> b \<le> a"
    by (cases a; cases b) (auto simp: less_eq_addr_def)
qed

end

section \<open>Text form\<close>

definition String4 :: "u32 \<Rightarrow> string" where
  "String4 w = str_Join (map (\<lambda>b. itoa (unat b)) (word_bytes 4 w)) ''.''"

text \<open>The eight 16-bit groups of an IPv6 address, most significant first.\<close>

definition groups6 :: "u128 \<Rightarrow> nat list" where
  "groups6 w = map (\<lambda>i. unat (ucast (drop_bit (16 * (7 - i)) w) :: u16)) [0..<8]"

definition zero_run :: "nat list \<Rightarrow> nat \<Rightarrow> nat" where
  "zero_run gs i = length (takeWhile (\<lambda>g. g = 0) (drop i gs))"

text \<open>The longest run of at least two zero groups, the first one on a tie: (start, end).\<close>

definition zero_span :: "nat list \<Rightarrow> (nat \<times> nat) option" where
  "zero_span gs = foldl (\<lambda>best i.
     let l = zero_run gs i; bl = (case best of None \<Rightarrow> 0 | Some (s, e) \<Rightarrow> e - s) in
     if 2 \<le> l \<and> bl < l then Some (i, i + l) else best) None [0..<8]"

definition String6 :: "u128 \<Rightarrow> string" where
  "String6 w =
     (let gs = groups6 w; hex = (\<lambda>xs. str_Join (map hex_string xs) '':'') in
      case zero_span gs of
        None \<Rightarrow> hex gs
      | Some (s, e) \<Rightarrow> hex (take s gs) @ ''::'' @ hex (drop e gs))"

fun Addr_String :: "addr \<Rightarrow> string" where
  "Addr_String NoAddr = ''invalid IP''"
| "Addr_String (Addr4 w) = String4 w"
| "Addr_String (Addr6 w z) =
     (if drop_bit 32 w = 0xffff then ''::ffff:'' @ String4 (ucast w) else String6 w)
     @ (if z = [] then [] else ''%'' @ z)"

section \<open>Parsing addresses\<close>

definition dec_val :: "char \<Rightarrow> nat option" where
  "dec_val c = (case digit_val c of Some d \<Rightarrow> if d < 10 then Some d else None | None \<Rightarrow> None)"

definition hex_val :: "char \<Rightarrow> nat option" where
  "hex_val c = (case digit_val c of Some d \<Rightarrow> if d < 16 then Some d else None | None \<Rightarrow> None)"

text \<open>
  The loop of \<^verbatim>\<open>parseIPv4Fields\<close>: the value and the number of digits of the octet being read,
  and the octets already stored. A dot right after the start or after another dot is a dot
  with no digit before it.
\<close>

fun parse4_loop :: "string \<Rightarrow> nat \<Rightarrow> nat \<Rightarrow> bytes \<Rightarrow> bytes option" where
  "parse4_loop [] val digs fs = (if length fs < 3 then None else Some (fs @ [of_nat val]))"
| "parse4_loop (c # cs) val digs fs =
     (case dec_val c of
        Some d \<Rightarrow>
          if digs = 1 \<and> val = 0 then None
          else if 255 < val * 10 + d then None
          else parse4_loop cs (val * 10 + d) (digs + 1) fs
      | None \<Rightarrow>
          if c = CHR ''.'' then
            if digs = 0 \<or> cs = [] then None
            else if length fs = 3 then None
            else parse4_loop cs 0 0 (fs @ [of_nat val])
          else None)"

definition parseIPv4 :: "string \<Rightarrow> addr option" where
  "parseIPv4 s = map_option AddrFrom4 (parse4_loop s 0 0 [])"

fun scan_hex :: "string \<Rightarrow> nat \<Rightarrow> nat \<Rightarrow> (nat \<times> nat \<times> string) option" where
  "scan_hex [] off acc = Some (off, acc, [])"
| "scan_hex (c # cs) off acc =
     (case hex_val c of
        None \<Rightarrow> Some (off, acc, c # cs)
      | Some d \<Rightarrow>
          if 3 < off then None
          else if 65535 < acc * 16 + d then None
          else scan_hex cs (off + 1) (acc * 16 + d))"

text \<open>
  The loop of \<^verbatim>\<open>parseIPv6\<close> over the groups: the text left, where the ellipsis was seen, and
  the address bytes written so far.
\<close>

function parse6_loop ::
  "string \<Rightarrow> nat option \<Rightarrow> bytes \<Rightarrow> (string \<times> nat option \<times> bytes) option" where
  "parse6_loop s ell ip =
     (if 16 \<le> length ip then Some (s, ell, ip)
      else case scan_hex s 0 0 of
        None \<Rightarrow> None
      | Some (off, acc, rest) \<Rightarrow>
          if off = 0 then None
          else if rest \<noteq> [] \<and> hd rest = CHR ''.'' then
            if ell = None \<and> length ip \<noteq> 12 then None
            else if 16 < length ip + 4 then None
            else map_option (\<lambda>fs. ([], ell, ip @ fs)) (parse4_loop s 0 0 [])
          else case rest of
            [] \<Rightarrow> Some ([], ell, ip @ be16 (of_nat acc))
          | c # cs \<Rightarrow>
              if c \<noteq> CHR '':'' then None
              else case cs of
                [] \<Rightarrow> None
              | d # ds \<Rightarrow>
                  if d = CHR '':'' then
                    if ell \<noteq> None then None
                    else if ds = [] then
                      Some ([], Some (length ip + 2), ip @ be16 (of_nat acc))
                    else parse6_loop ds (Some (length ip + 2)) (ip @ be16 (of_nat acc))
                  else parse6_loop cs ell (ip @ be16 (of_nat acc)))"
  by pat_completeness auto
termination
  by (relation "measure (\<lambda>(s, ell, ip). 16 - length ip)") auto

declare parse6_loop.simps [simp del]

definition parse6_finish :: "string \<times> nat option \<times> bytes \<Rightarrow> bytes option" where
  "parse6_finish r =
     (case r of (s, ell, ip) \<Rightarrow>
       if s \<noteq> [] then None
       else if length ip < 16 then
         (case ell of None \<Rightarrow> None
          | Some e \<Rightarrow> Some (take e ip @ replicate (16 - length ip) 0 @ drop e ip))
       else if ell \<noteq> None then None
       else Some ip)"

definition parseIPv6 :: "string \<Rightarrow> addr option" where
  "parseIPv6 inp =
     (case (case str_Cut inp ''%'' of
              None \<Rightarrow> Some (inp, [])
            | Some (s, zone) \<Rightarrow> if zone = [] then None else Some (s, zone)) of
        None \<Rightarrow> None
      | Some (s, zone) \<Rightarrow>
          if s = ''::'' then Some (Addr6 0 zone)
          else
            case (if HasPrefix s ''::'' then parse6_loop (drop 2 s) (Some 0) []
                  else parse6_loop s None []) of
              None \<Rightarrow> None
            | Some r \<Rightarrow> map_option (\<lambda>ip. Addr6 (be_word ip) zone) (parse6_finish r))"

definition addr_mark :: "char \<Rightarrow> bool" where
  "addr_mark c \<longleftrightarrow> c = CHR ''.'' \<or> c = CHR '':'' \<or> c = CHR ''%''"

definition ParseAddr :: "string \<Rightarrow> addr option" where
  "ParseAddr s =
     (case find addr_mark s of
        None \<Rightarrow> None
      | Some c \<Rightarrow>
          if c = CHR ''.'' then parseIPv4 s
          else if c = CHR '':'' then parseIPv6 s
          else None)"

section \<open>Prefixes\<close>

text \<open>A valid \<^verbatim>\<open>netip.Prefix\<close>; the zero prefix of Go is an absent one here.\<close>

datatype ip_prefix = IpPrefix (pfx_Addr: addr) (pfx_Bits: nat)

definition mask6 :: "nat \<Rightarrow> u128" where
  "mask6 n = NOT (mask (128 - n))"

text \<open>\<^verbatim>\<open>PrefixFrom\<close> drops the zone; \<^verbatim>\<open>Masked\<close> clears the host bits.\<close>

definition PrefixFrom :: "addr \<Rightarrow> nat \<Rightarrow> ip_prefix" where
  "PrefixFrom a bits = IpPrefix (withoutZone a) bits"

fun Masked :: "ip_prefix \<Rightarrow> ip_prefix" where
  "Masked (IpPrefix (Addr4 w) b) = IpPrefix (Addr4 (w AND NOT (mask (32 - b)))) b"
| "Masked (IpPrefix (Addr6 w z) b) = IpPrefix (Addr6 (w AND mask6 b) []) b"
| "Masked (IpPrefix NoAddr b) = IpPrefix NoAddr b"

definition Prefix_Contains :: "ip_prefix \<Rightarrow> addr \<Rightarrow> bool" where
  "Prefix_Contains p ip =
     (if hasZone ip then False
      else case (pfx_Addr p, ip) of
        (Addr4 a, Addr4 b) \<Rightarrow> drop_bit (32 - pfx_Bits p) (b XOR a) = 0
      | (Addr6 a _, Addr6 b _) \<Rightarrow> (b XOR a) AND mask6 (pfx_Bits p) = 0
      | _ \<Rightarrow> False)"

definition ParsePrefix :: "string \<Rightarrow> ip_prefix option" where
  "ParsePrefix s =
     (case LastIndexByte s (CHR ''/'') of
        None \<Rightarrow> None
      | Some i \<Rightarrow>
          (case ParseAddr (take i s) of
             None \<Rightarrow> None
           | Some ip \<Rightarrow>
               if hasZone ip then None
               else
                 let bitsStr = drop (i + 1) s in
                 if 1 < length bitsStr \<and> (hd bitsStr < CHR ''1'' \<or> CHR ''9'' < hd bitsStr) then None
                 else
                   (case ParseUint bitsStr 10 63 of
                      None \<Rightarrow> None
                    | Some bits \<Rightarrow>
                        if BitLen ip < bits then None else Some (PrefixFrom ip bits))))"

definition Prefix_String :: "ip_prefix \<Rightarrow> string" where
  "Prefix_String p = Addr_String (pfx_Addr p) @ ''/'' @ itoa (pfx_Bits p)"

section \<open>Host and port\<close>

text \<open>\<^verbatim>\<open>net.SplitHostPort\<close>: \<open>None\<close> on any of its errors.\<close>

definition IndexByte :: "string \<Rightarrow> char \<Rightarrow> nat option" where
  "IndexByte s c = (if c \<in> set s then Some (length (takeWhile (\<lambda>x. x \<noteq> c) s)) else None)"

definition SplitHostPort :: "string \<Rightarrow> (string \<times> string) option" where
  "SplitHostPort hp =
     (case LastIndexByte hp (CHR '':'') of
        None \<Rightarrow> None
      | Some i \<Rightarrow>
          (case (if hd hp = CHR ''['' then
                   (case IndexByte hp (CHR '']'') of
                      None \<Rightarrow> None
                    | Some e \<Rightarrow>
                        if e + 1 = length hp then None
                        else if e + 1 \<noteq> i then None
                        else Some (drop 1 (take e hp), 1, e + 1))
                 else if CHR '':'' \<in> set (take i hp) then None
                 else Some (take i hp, 0, 0)) of
             None \<Rightarrow> None
           | Some (host, j, k) \<Rightarrow>
               if CHR ''['' \<in> set (drop j hp) then None
               else if CHR '']'' \<in> set (drop k hp) then None
               else Some (host, drop (i + 1) hp)))"

section \<open>Lemmas on addresses\<close>

lemma Unmap_not_Is4In6 [simp]: "\<not> Is4In6 (Unmap a)"
  by (cases a) auto

lemma Unmap_idem [simp]: "Unmap (Unmap a) = Unmap a"
  by (cases a) auto

lemma IsValid_Unmap [simp]: "IsValid (Unmap a) = IsValid a"
  by (cases a) auto

lemma Unmap_Is4In6: "Is4In6 a \<Longrightarrow> Is4 (Unmap a)"
  by (cases a) auto

lemma Unmap_id: "\<not> Is4In6 a \<Longrightarrow> Unmap a = a"
  by (cases a) auto

lemma be_word_AsSlice4: "be_word (AsSlice (Addr4 w)) = w"
  by (simp add: be_word_word_bytes del: word_bytes.simps)

lemma be_word_AsSlice6: "be_word (AsSlice (Addr6 w z)) = w"
  by (simp add: be_word_word_bytes del: word_bytes.simps)

lemma length_AsSlice: "length (AsSlice a) = BitLen a div 8"
  by (cases a) simp_all

lemma withoutZone_sel [simp]:
  "IsValid (withoutZone a) = IsValid a" "BitLen (withoutZone a) = BitLen a" "\<not> hasZone (withoutZone a)"
  by (cases a; simp)+

lemma ParseAddr_valid: "ParseAddr s = Some a \<Longrightarrow> IsValid a"
  by (auto simp: ParseAddr_def parseIPv4_def parseIPv6_def AddrFrom4_def
      split: option.splits if_splits)

section \<open>Lemmas on prefixes\<close>

lemma Contains_Masked4:
  "Prefix_Contains (Masked (IpPrefix (Addr4 w) b)) (Addr4 a) \<longleftrightarrow>
     drop_bit (32 - b) a = drop_bit (32 - b) w"
  by (simp only: Prefix_Contains_def Masked.simps hasZone.simps if_False ip_prefix.sel
      prod.case addr.case xor_drop_zero_iff drop_bit_mask_out)

lemma Contains_Masked6:
  "Prefix_Contains (Masked (IpPrefix (Addr6 w z) b)) (Addr6 a []) \<longleftrightarrow>
     drop_bit (128 - b) a = drop_bit (128 - b) w"
  by (simp only: Prefix_Contains_def Masked.simps hasZone.simps if_False ip_prefix.sel
      prod.case addr.case xor_mask_zero_iff drop_bit_mask_out mask6_def simp_thms)

lemma Contains_family:
  "Prefix_Contains p a \<Longrightarrow> BitLen (pfx_Addr p) = BitLen a \<and> BitLen a \<noteq> 0 \<and> \<not> hasZone a"
  by (cases "pfx_Addr p"; cases a) (auto simp: Prefix_Contains_def split: if_splits)

lemma Masked_sel [simp]:
  "pfx_Bits (Masked p) = pfx_Bits p"
  "BitLen (pfx_Addr (Masked p)) = BitLen (pfx_Addr p)"
  "Is4 (pfx_Addr (Masked p)) = Is4 (pfx_Addr p)"
  "\<not> hasZone (pfx_Addr (Masked p))"
  by (cases p; cases "pfx_Addr p"; simp)+

lemma Masked_idem [simp]: "Masked (Masked p) = Masked p"
  by (cases p; cases "pfx_Addr p") (simp_all add: mask6_def and.assoc)

lemma Contains_Masked [simp]: "Prefix_Contains (Masked p) a = Prefix_Contains p a"
proof (cases p)
  case (IpPrefix q b)
  show ?thesis
  proof (cases "hasZone a")
    case False
    then show ?thesis
      by (cases q; cases a)
         (simp_all add: IpPrefix Prefix_Contains_def mask6_def xor_drop_zero_iff drop_bit_mask_out
            xor_mask_zero_iff del: drop_bit_xor drop_bit_and)
  qed (simp add: Prefix_Contains_def)
qed

lemma IsValid_Masked [simp]: "IsValid (pfx_Addr (Masked p)) = IsValid (pfx_Addr p)"
  by (cases p; cases "pfx_Addr p"; simp)

lemma ParsePrefix_SomeD:
  "ParsePrefix s = Some p \<Longrightarrow>
     IsValid (pfx_Addr p) \<and> pfx_Bits p \<le> BitLen (pfx_Addr p) \<and> \<not> hasZone (pfx_Addr p)"
  by (auto simp: ParsePrefix_def PrefixFrom_def Let_def not_less dest: ParseAddr_valid
      split: option.splits if_splits)

text \<open>The addresses of a prefix are the interval of its host bits.\<close>

lemma drop_bit_eq_interval:
  fixes a w :: "'a::len word"
  assumes "n \<le> LENGTH('a)"
  shows "drop_bit n a = drop_bit n w \<longleftrightarrow>
    uint (w AND NOT (mask n)) \<le> uint a \<and> uint a < uint (w AND NOT (mask n)) + 2 ^ n"
proof -
  have "uint (w AND NOT (mask n)) = push_bit n (drop_bit n (uint w))"
    by (rule bit_eqI)
       (auto simp: bit_uint_iff bit_and_iff bit_not_iff bit_mask_iff bit_push_bit_iff
          bit_drop_bit_eq dest: bit_imp_le_length)
  then have lo: "uint (w AND NOT (mask n)) = uint w div 2 ^ n * 2 ^ n"
    by (simp add: push_bit_eq_mult drop_bit_eq_div)
  have "drop_bit n a = drop_bit n w \<longleftrightarrow> uint a div 2 ^ n = uint w div 2 ^ n"
    by (simp add: word_uint_eq_iff uint_drop_bit)
  also have "\<dots> \<longleftrightarrow> uint w div 2 ^ n * 2 ^ n \<le> uint a \<and> uint a < uint w div 2 ^ n * 2 ^ n + 2 ^ n"
    by (rule int_div_eq_iff) simp
  finally show ?thesis using lo by simp
qed

text \<open>The value of an address as a number.\<close>

definition addr_val :: "addr \<Rightarrow> int" where
  "addr_val a = (case a of NoAddr \<Rightarrow> 0 | Addr4 w \<Rightarrow> uint w | Addr6 w z \<Rightarrow> uint w)"

lemma Contains_block:
  assumes "pfx_Bits p \<le> BitLen (pfx_Addr p)"
  shows "Prefix_Contains (Masked p) a \<longleftrightarrow>
    BitLen (pfx_Addr p) = BitLen a \<and> IsValid a \<and> \<not> hasZone a
    \<and> addr_val (pfx_Addr (Masked p)) \<le> addr_val a
    \<and> addr_val a < addr_val (pfx_Addr (Masked p)) + 2 ^ (BitLen a - pfx_Bits p)"
proof (cases p)
  case (IpPrefix q b)
  note i4 = drop_bit_eq_interval[where 'a = 32, of "32 - b"]
  note i6 = drop_bit_eq_interval[where 'a = 128, of "128 - b"]
  have "Prefix_Contains p a \<longleftrightarrow>
    BitLen (pfx_Addr p) = BitLen a \<and> IsValid a \<and> \<not> hasZone a
    \<and> addr_val (pfx_Addr (Masked p)) \<le> addr_val a
    \<and> addr_val a < addr_val (pfx_Addr (Masked p)) + 2 ^ (BitLen a - pfx_Bits p)"
  proof (cases "hasZone a")
    case True
    then show ?thesis by (simp add: Prefix_Contains_def)
  next
    case False
    then show ?thesis
      by (cases q; cases a)
         (simp_all add: IpPrefix addr_val_def mask6_def Prefix_Contains_def xor_drop_zero_iff
            xor_mask_zero_iff i4 i6 del: drop_bit_xor drop_bit_and)
  qed
  then show ?thesis by simp
qed

lemma Contains_mapped:
  assumes "Is4In6 (pfx_Addr p)" and "96 \<le> pfx_Bits p" and "pfx_Bits p \<le> 128"
  shows "\<not> Prefix_Contains p (Unmap a)"
proof
  assume c: "Prefix_Contains p (Unmap a)"
  obtain w z where p: "pfx_Addr p = Addr6 w z" using assms(1) by (cases "pfx_Addr p") auto
  obtain u where a: "Unmap a = Addr6 u []"
    using c p by (cases "Unmap a") (auto simp: Prefix_Contains_def split: if_splits)
  have h: "drop_bit (128 - pfx_Bits p) u = drop_bit (128 - pfx_Bits p) w"
    using c unfolding Prefix_Contains_def p a
    by (simp add: mask6_def xor_mask_zero_iff del: drop_bit_xor drop_bit_and)
  have "drop_bit 32 x = drop_bit (pfx_Bits p - 96) (drop_bit (128 - pfx_Bits p) x)" for x :: u128
    using assms by simp
  then have "drop_bit 32 u = drop_bit 32 w" using h by metis
  then have "Is4In6 (Unmap a)" using assms(1) p a by simp
  then show False by simp
qed

end
