(* ===== verification/Policy.thy ===== *)
theory Policy
  imports Netip
begin

text \<open>
  \<^verbatim>\<open>internal/policy/policy.go\<close>: the file format as data, its compilation into a rule list and
  the matcher. \<open>Compile\<close> and its parts return a sum (\<open>Inl\<close> the Go error, with the message's
  variable parts), loops with an early error return are \<open>fold_res\<close>, the map of exact names is a
  set. YAML decoding (\<^verbatim>\<open>gopkg.in/yaml.v3\<close>) is an argument of \<open>policy_Parse\<close>.
\<close>

section \<open>Data\<close>

datatype verdict = Deny | Allow

fun Verdict_String :: "verdict \<Rightarrow> string" where
  "Verdict_String Allow = ''allow''"
| "Verdict_String Deny = ''deny''"

record rule =
  rl_Name :: string
  rl_Domains :: "string list"
  rl_CIDRs :: "string list"
  rl_Ports :: "string list"
  rl_Proto :: string
  rl_Cgroup :: string
  rl_Comment :: string

record policy =
  pl_Version :: int
  pl_Default :: string
  pl_Allow :: "rule list"
  pl_Deny :: "rule list"

record dest =
  d_Domain :: string
  d_IP :: addr
  d_Port :: u16
  d_Proto :: string
  d_Cgroup :: string

record decision =
  dc_Verdict :: verdict
  dc_Rule :: string
  dc_Reason :: string

text \<open>\<^verbatim>\<open>portRange\<close> and its exported twin \<^verbatim>\<open>PortRange\<close>, inclusive on both ends.\<close>

datatype port_range = PortRange (pr_lo: u16) (pr_hi: u16)

record compiled_rule =
  cr_name :: string
  cr_verdict :: verdict
  cr_exact :: "string set"
  cr_suffixes :: "string list"
  cr_prefixes :: "ip_prefix list"
  cr_ports :: "port_range list"
  cr_proto :: string
  cr_cgroup :: string
  cr_anyHost :: bool

record policy_set =
  ps_rules :: "compiled_rule list"
  ps_def :: verdict

text \<open>What the error messages carry.\<close>

datatype rule_cause =
    NotADomain string
  | WildcardUnsupported string
  | BadCidr string
  | BadPort string
  | BadPortRange string
  | BadProto string
  | CgroupEmpty
  | BadCgroupPath string

datatype rule_error = RuleError (re_pos: string) (re_cause: rule_cause)

datatype compile_error =
    UnsupportedVersion int
  | BadDefault string
  | RuleErrors "rule_error list"

section \<open>Normal forms\<close>

definition NormalizeDomain :: "string \<Rightarrow> string" where
  "NormalizeDomain d = TrimSuffix (ToLower (TrimSpace d)) ''.''"

definition NormalizeCgroup :: "string \<Rightarrow> rule_cause + string" where
  "NormalizeCgroup p =
     (let p = TrimChar (TrimSpace p) (CHR ''/'') in
      if p = [] then Inl CgroupEmpty
      else if list_ex (\<lambda>part. part = [] \<or> part = ''.'' \<or> part = ''..'') (str_Split p (CHR ''/''))
      then Inl (BadCgroupPath p)
      else Inr p)"

definition CgroupWithin :: "string \<Rightarrow> string \<Rightarrow> bool" where
  "CgroupWithin child parent \<longleftrightarrow> child = parent \<or> HasPrefix child (parent @ ''/'')"

definition parsePortRange :: "string \<Rightarrow> rule_cause + port_range" where
  "parsePortRange s =
     (let t = TrimSpace s;
          (lo, hi, found) = (case str_Cut t ''-'' of
             None \<Rightarrow> (t, [], False) | Some (x, y) \<Rightarrow> (x, y, True)) in
      case ParseUint (TrimSpace lo) 10 16 of
        None \<Rightarrow> Inl (BadPort s)
      | Some a \<Rightarrow>
          if a = 0 then Inl (BadPort s)
          else if \<not> found then Inr (PortRange (of_nat a) (of_nat a))
          else
            case ParseUint (TrimSpace hi) 10 16 of
              None \<Rightarrow> Inl (BadPortRange s)
            | Some b \<Rightarrow>
                if b = 0 \<or> b < a then Inl (BadPortRange s)
                else Inr (PortRange (of_nat a) (of_nat b)))"

section \<open>Compilation\<close>

text \<open>One iteration of each loop of \<^verbatim>\<open>compileRule\<close>.\<close>

definition compile_domain :: "string \<Rightarrow> compiled_rule \<Rightarrow> rule_cause + compiled_rule" where
  "compile_domain d c =
     (let d = NormalizeDomain d in
      if d = [] \<or> d = ''*'' then Inl (NotADomain d)
      else if HasPrefix d ''*.'' then
        if str_Contains (drop 2 d) ''*'' then Inl (WildcardUnsupported d)
        else Inr (c\<lparr>cr_suffixes := cr_suffixes c @ [drop 1 d]\<rparr>)
      else if str_Contains d ''*'' then Inl (WildcardUnsupported d)
      else Inr (c\<lparr>cr_exact := insert d (cr_exact c)\<rparr>))"

definition parse_cidr :: "string \<Rightarrow> ip_prefix option" where
  "parse_cidr cidr =
     (case ParsePrefix cidr of
        Some pfx \<Rightarrow> Some pfx
      | None \<Rightarrow> map_option (\<lambda>a. PrefixFrom a (BitLen a)) (ParseAddr cidr))"

definition compile_cidr :: "string \<Rightarrow> compiled_rule \<Rightarrow> rule_cause + compiled_rule" where
  "compile_cidr cidr c =
     (case parse_cidr cidr of
        None \<Rightarrow> Inl (BadCidr cidr)
      | Some pfx \<Rightarrow> Inr (c\<lparr>cr_prefixes := cr_prefixes c @ [Masked pfx]\<rparr>))"

definition compile_port :: "string \<Rightarrow> compiled_rule \<Rightarrow> rule_cause + compiled_rule" where
  "compile_port p c =
     (case parsePortRange p of
        Inl e \<Rightarrow> Inl e
      | Inr pr \<Rightarrow> Inr (c\<lparr>cr_ports := cr_ports c @ [pr]\<rparr>))"

definition compile_proto :: "string \<Rightarrow> compiled_rule \<Rightarrow> rule_cause + compiled_rule" where
  "compile_proto proto c =
     (let p = ToLower proto in
      if p = [] \<or> p = ''tcp'' \<or> p = ''udp'' then Inr (c\<lparr>cr_proto := p\<rparr>)
      else Inl (BadProto proto))"

definition compile_cgroup :: "string \<Rightarrow> compiled_rule \<Rightarrow> rule_cause + compiled_rule" where
  "compile_cgroup cg c =
     (if cg \<noteq> [] then
        (case NormalizeCgroup cg of Inl e \<Rightarrow> Inl e | Inr p \<Rightarrow> Inr (c\<lparr>cr_cgroup := p\<rparr>))
      else Inr c)"

definition new_rule :: "rule \<Rightarrow> verdict \<Rightarrow> string \<Rightarrow> compiled_rule" where
  "new_rule r v pos =
     \<lparr>cr_name = (if rl_Name r = [] then pos else rl_Name r), cr_verdict = v,
      cr_exact = {}, cr_suffixes = [], cr_prefixes = [], cr_ports = [],
      cr_proto = [], cr_cgroup = [], cr_anyHost = False\<rparr>"

definition compileRule :: "rule \<Rightarrow> verdict \<Rightarrow> string \<Rightarrow> rule_error + compiled_rule" where
  "compileRule r v pos =
     (case fold_res compile_domain (rl_Domains r) (new_rule r v pos) of
        Inl e \<Rightarrow> Inl (RuleError pos e)
      | Inr c1 \<Rightarrow>
      (case fold_res compile_cidr (rl_CIDRs r) c1 of
        Inl e \<Rightarrow> Inl (RuleError pos e)
      | Inr c2 \<Rightarrow>
      (case fold_res compile_port (rl_Ports r) c2 of
        Inl e \<Rightarrow> Inl (RuleError pos e)
      | Inr c3 \<Rightarrow>
      (case compile_proto (rl_Proto r) c3 of
        Inl e \<Rightarrow> Inl (RuleError pos e)
      | Inr c4 \<Rightarrow>
      (case compile_cgroup (rl_Cgroup r) c4 of
        Inl e \<Rightarrow> Inl (RuleError pos e)
      | Inr c5 \<Rightarrow>
          Inr (c5\<lparr>cr_anyHost :=
            cr_exact c5 = {} \<and> cr_suffixes c5 = [] \<and> cr_prefixes c5 = []\<rparr>))))))"

text \<open>
  The two loops of \<^verbatim>\<open>Compile\<close> collect errors and go on: the state is the errors and the rules so
  far, and the position of rule \<open>i\<close> reads \<^verbatim>\<open>deny[i]\<close> or \<^verbatim>\<open>allow[i]\<close>.
\<close>

definition rule_pos :: "verdict \<Rightarrow> nat \<Rightarrow> string" where
  "rule_pos v i = Verdict_String v @ ''['' @ itoa i @ '']''"

fun compile_list ::
  "verdict \<Rightarrow> nat \<Rightarrow> rule list \<Rightarrow> rule_error list \<times> compiled_rule list \<Rightarrow>
     rule_error list \<times> compiled_rule list" where
  "compile_list v i [] st = st"
| "compile_list v i (r # rs) (errs, cs) =
     (case compileRule r v (rule_pos v i) of
        Inl e \<Rightarrow> compile_list v (i + 1) rs (errs @ [e], cs)
      | Inr c \<Rightarrow> compile_list v (i + 1) rs (errs, cs @ [c]))"

definition Compile :: "policy \<Rightarrow> compile_error + policy_set" where
  "Compile p =
     (if pl_Version p \<noteq> 1 then Inl (UnsupportedVersion (pl_Version p))
      else
        case (if pl_Default p = ''deny'' then Some Deny
              else if pl_Default p = ''allow'' then Some Allow else None) of
          None \<Rightarrow> Inl (BadDefault (pl_Default p))
        | Some def \<Rightarrow>
            let (errs, cs) =
                  compile_list Allow 0 (pl_Allow p) (compile_list Deny 0 (pl_Deny p) ([], [])) in
            if errs \<noteq> [] then Inl (RuleErrors errs)
            else Inr \<lparr>ps_rules = cs, ps_def = def\<rparr>)"

text \<open>\<^verbatim>\<open>Parse\<close>, with the YAML decoder (known fields only) as its argument.\<close>

definition policy_Parse ::
  "(string \<Rightarrow> 'y + policy) \<Rightarrow> string \<Rightarrow> ('y + compile_error) + policy_set" where
  "policy_Parse yaml raw =
     (case yaml raw of
        Inl e \<Rightarrow> Inl (Inl e)
      | Inr p \<Rightarrow> (case Compile p of Inl e \<Rightarrow> Inl (Inr e) | Inr s \<Rightarrow> Inr s))"

section \<open>Evaluation\<close>

definition port_hit :: "port_range list \<Rightarrow> u16 \<Rightarrow> bool" where
  "port_hit prs port \<longleftrightarrow> list_ex (\<lambda>pr. pr_lo pr \<le> port \<and> port \<le> pr_hi pr) prs"

text \<open>\<^verbatim>\<open>compiledRule.match\<close>: \<open>Some\<close> the reason when the rule matches.\<close>

definition rule_match ::
  "compiled_rule \<Rightarrow> string \<Rightarrow> addr \<Rightarrow> u16 \<Rightarrow> string \<Rightarrow> string option" where
  "rule_match r domain ip port proto =
     (if cr_proto r \<noteq> [] \<and> proto \<noteq> [] \<and> cr_proto r \<noteq> proto then None
      else if cr_ports r \<noteq> [] \<and> \<not> port_hit (cr_ports r) port then None
      else if cr_anyHost r then Some ''any host''
      else
        let by_ip =
          (if IsValid ip then
             map_option (\<lambda>pfx. ''ip '' @ Addr_String (Unmap ip) @ '' in '' @ Prefix_String pfx)
               (find (\<lambda>pfx. Prefix_Contains pfx (Unmap ip)) (cr_prefixes r))
           else None) in
        if domain \<noteq> [] then
          if domain \<in> cr_exact r then Some (''domain '' @ domain)
          else
            case find (HasSuffix domain) (cr_suffixes r) of
              Some suf \<Rightarrow> Some (''domain '' @ domain @ '' matches *'' @ suf)
            | None \<Rightarrow> by_ip
        else by_ip)"

text \<open>The loop of \<^verbatim>\<open>Evaluate\<close>, over a destination already normalised.\<close>

fun eval_rules :: "compiled_rule list \<Rightarrow> dest \<Rightarrow> decision option" where
  "eval_rules [] q = None"
| "eval_rules (r # rs) q =
     (if cr_cgroup r \<noteq> [] \<and> \<not> CgroupWithin (d_Cgroup q) (cr_cgroup r) then eval_rules rs q
      else
        case rule_match r (d_Domain q) (d_IP q) (d_Port q) (d_Proto q) of
          None \<Rightarrow> eval_rules rs q
        | Some why \<Rightarrow>
            Some \<lparr>dc_Verdict = cr_verdict r, dc_Rule = cr_name r,
                  dc_Reason = why @ (if cr_cgroup r \<noteq> [] then '' from '' @ cr_cgroup r else [])\<rparr>)"

definition normalize_dest :: "dest \<Rightarrow> dest" where
  "normalize_dest d =
     d\<lparr>d_Domain := NormalizeDomain (d_Domain d), d_Proto := ToLower (d_Proto d),
       d_Cgroup := TrimChar (d_Cgroup d) (CHR ''/'')\<rparr>"

definition Evaluate :: "policy_set \<Rightarrow> dest \<Rightarrow> decision" where
  "Evaluate s d =
     (case eval_rules (ps_rules s) (normalize_dest d) of
        Some dc \<Rightarrow> dc
      | None \<Rightarrow> \<lparr>dc_Verdict = ps_def s, dc_Rule = [],
                 dc_Reason = ''no rule matched, default '' @ Verdict_String (ps_def s)\<rparr>)"

section \<open>Views for the ruleset generator\<close>

record rule_view =
  rv_Name :: string
  rv_Verdict :: verdict
  rv_Exact :: "string list"
  rv_Suffixes :: "string list"
  rv_Prefixes :: "ip_prefix list"
  rv_Ports :: "port_range list"
  rv_Proto :: string
  rv_Cgroup :: string
  rv_AnyHost :: bool

definition rule_view_of :: "compiled_rule \<Rightarrow> rule_view" where
  "rule_view_of r =
     \<lparr>rv_Name = cr_name r, rv_Verdict = cr_verdict r,
      rv_Exact = sorted_list_of_set (cr_exact r), rv_Suffixes = cr_suffixes r,
      rv_Prefixes = cr_prefixes r, rv_Ports = cr_ports r, rv_Proto = cr_proto r,
      rv_Cgroup = cr_cgroup r, rv_AnyHost = cr_anyHost r\<rparr>"

definition Set_Rules :: "policy_set \<Rightarrow> rule_view list" where
  "Set_Rules s = map rule_view_of (ps_rules s)"

text \<open>Does a rule have a domain pattern that covers the name?\<close>

definition covers_name :: "compiled_rule \<Rightarrow> string \<Rightarrow> bool" where
  "covers_name r name \<longleftrightarrow> name \<in> cr_exact r \<or> list_ex (HasSuffix name) (cr_suffixes r)"

fun domain_rules_from :: "nat \<Rightarrow> compiled_rule list \<Rightarrow> string \<Rightarrow> nat list" where
  "domain_rules_from i [] name = []"
| "domain_rules_from i (r # rs) name =
     (if covers_name r name then i # domain_rules_from (i + 1) rs name
      else domain_rules_from (i + 1) rs name)"

definition DomainRules :: "policy_set \<Rightarrow> string \<Rightarrow> nat list" where
  "DomainRules s name = domain_rules_from 0 (ps_rules s) (NormalizeDomain name)"

section \<open>Lemmas on compilation\<close>

definition is_wildcard :: "string \<Rightarrow> bool" where
  "is_wildcard d \<longleftrightarrow> HasPrefix (NormalizeDomain d) ''*.''"

lemma fold_compile_domain:
  "fold_res compile_domain ds c = Inr c' \<Longrightarrow>
     c' = c\<lparr>cr_exact := cr_exact c \<union> NormalizeDomain ` set (filter (\<lambda>d. \<not> is_wildcard d) ds),
            cr_suffixes := cr_suffixes c @ map (\<lambda>d. drop 1 (NormalizeDomain d)) (filter is_wildcard ds)\<rparr>
     \<and> (\<forall>d \<in> set ds. NormalizeDomain d \<noteq> [] \<and> NormalizeDomain d \<noteq> ''*'')"
proof (induction ds arbitrary: c)
  case (Cons d ds)
  from Cons.prems obtain c1 where
    c1: "compile_domain d c = Inr c1" "fold_res compile_domain ds c1 = Inr c'"
    by (auto split: sum.splits)
  from c1(1) have "c1 = (if is_wildcard d
      then c\<lparr>cr_suffixes := cr_suffixes c @ [drop 1 (NormalizeDomain d)]\<rparr>
      else c\<lparr>cr_exact := insert (NormalizeDomain d) (cr_exact c)\<rparr>)
      \<and> NormalizeDomain d \<noteq> [] \<and> NormalizeDomain d \<noteq> ''*''"
    by (auto simp: compile_domain_def is_wildcard_def Let_def split: if_splits)
  with Cons.IH[OF c1(2)] show ?case
    by (cases "is_wildcard d") simp_all
qed simp

definition cidr_result :: "string \<Rightarrow> rule_cause + ip_prefix" where
  "cidr_result s = (case parse_cidr s of None \<Rightarrow> Inl (BadCidr s) | Some p \<Rightarrow> Inr (Masked p))"

lemma fold_compile_cidr:
  "fold_res compile_cidr ss c =
     (case map_res cidr_result ss of Inl e \<Rightarrow> Inl e
      | Inr ps \<Rightarrow> Inr (c\<lparr>cr_prefixes := cr_prefixes c @ ps\<rparr>))"
  by (rule fold_res_map_res)
     (auto simp: compile_cidr_def cidr_result_def split: option.splits)

lemma fold_compile_port:
  "fold_res compile_port ss c =
     (case map_res parsePortRange ss of Inl e \<Rightarrow> Inl e
      | Inr ps \<Rightarrow> Inr (c\<lparr>cr_ports := cr_ports c @ ps\<rparr>))"
  by (rule fold_res_map_res) (auto simp: compile_port_def split: sum.splits)

text \<open>What a successful \<^verbatim>\<open>compileRule\<close> built, field by field.\<close>

lemma compileRule_InrD:
  assumes "compileRule r v pos = Inr c"
  shows "cr_name c = (if rl_Name r = [] then pos else rl_Name r)" "cr_verdict c = v"
    "cr_exact c = NormalizeDomain ` set (filter (\<lambda>d. \<not> is_wildcard d) (rl_Domains r))"
    "cr_suffixes c = map (\<lambda>d. drop 1 (NormalizeDomain d)) (filter is_wildcard (rl_Domains r))"
    "\<forall>d \<in> set (rl_Domains r). NormalizeDomain d \<noteq> [] \<and> NormalizeDomain d \<noteq> ''*''"
    "list_all2 (\<lambda>s p. cidr_result s = Inr p) (rl_CIDRs r) (cr_prefixes c)"
    "list_all2 (\<lambda>s pr. parsePortRange s = Inr pr) (rl_Ports r) (cr_ports c)"
    "cr_proto c = ToLower (rl_Proto r)" "cr_proto c = [] \<or> cr_proto c = ''tcp'' \<or> cr_proto c = ''udp''"
    "if rl_Cgroup r = [] then cr_cgroup c = [] else NormalizeCgroup (rl_Cgroup r) = Inr (cr_cgroup c)"
    "cr_anyHost c \<longleftrightarrow> cr_exact c = {} \<and> cr_suffixes c = [] \<and> cr_prefixes c = []"
proof -
  obtain c1 where c1: "fold_res compile_domain (rl_Domains r) (new_rule r v pos) = Inr c1"
    using assms by (auto simp: compileRule_def split: sum.splits)
  obtain ps where ps: "map_res cidr_result (rl_CIDRs r) = Inr ps"
    using assms c1 by (auto simp: compileRule_def fold_compile_cidr split: sum.splits)
  obtain prs where prs: "map_res parsePortRange (rl_Ports r) = Inr prs"
    using assms c1 ps
    by (auto simp: compileRule_def fold_compile_cidr fold_compile_port split: sum.splits)
  define c3 where "c3 = c1\<lparr>cr_prefixes := cr_prefixes c1 @ ps, cr_ports := cr_ports c1 @ prs\<rparr>"
  obtain c4 c5 where c4: "compile_proto (rl_Proto r) c3 = Inr c4"
      and c5: "compile_cgroup (rl_Cgroup r) c4 = Inr c5"
      and c: "c = c5\<lparr>cr_anyHost := cr_exact c5 = {} \<and> cr_suffixes c5 = [] \<and> cr_prefixes c5 = []\<rparr>"
    using assms
    by (auto simp: compileRule_def fold_compile_cidr fold_compile_port c1 ps prs c3_def
        split: sum.splits)
  note d = fold_compile_domain[OF c1]
  have p: "c4 = c3\<lparr>cr_proto := ToLower (rl_Proto r)\<rparr>"
      "ToLower (rl_Proto r) = [] \<or> ToLower (rl_Proto r) = ''tcp'' \<or> ToLower (rl_Proto r) = ''udp''"
    using c4 by (auto simp: compile_proto_def Let_def split: if_splits)
  obtain q where g: "c5 = c4\<lparr>cr_cgroup := q\<rparr>"
      and g': "if rl_Cgroup r = [] then q = cr_cgroup c4 else NormalizeCgroup (rl_Cgroup r) = Inr q"
  proof (cases "rl_Cgroup r = []")
    case True
    then have "c5 = c4\<lparr>cr_cgroup := cr_cgroup c4\<rparr>" using c5 by (simp add: compile_cgroup_def)
    with True that show ?thesis by auto
  next
    case False
    with c5 that show ?thesis by (auto simp: compile_cgroup_def split: sum.splits)
  qed
  define E where "E = NormalizeDomain ` set (filter (\<lambda>d. \<not> is_wildcard d) (rl_Domains r))"
  define S where "S = map (\<lambda>d. drop 1 (NormalizeDomain d)) (filter is_wildcard (rl_Domains r))"
  have c1': "c1 = new_rule r v pos\<lparr>cr_exact := E, cr_suffixes := S\<rparr>"
    using d by (simp add: new_rule_def E_def S_def)
  note fields = c g p(1) c3_def c1' new_rule_def
  show "cr_name c = (if rl_Name r = [] then pos else rl_Name r)" "cr_verdict c = v"
    by (simp_all add: fields)
  show "cr_exact c = NormalizeDomain ` set (filter (\<lambda>d. \<not> is_wildcard d) (rl_Domains r))"
    "cr_suffixes c = map (\<lambda>d. drop 1 (NormalizeDomain d)) (filter is_wildcard (rl_Domains r))"
    by (simp_all add: fields E_def S_def)
  show "\<forall>d \<in> set (rl_Domains r). NormalizeDomain d \<noteq> [] \<and> NormalizeDomain d \<noteq> ''*''"
    using d by blast
  show "list_all2 (\<lambda>s p. cidr_result s = Inr p) (rl_CIDRs r) (cr_prefixes c)"
    "list_all2 (\<lambda>s pr. parsePortRange s = Inr pr) (rl_Ports r) (cr_ports c)"
    using ps prs by (simp_all add: map_res_Inr_iff fields)
  show "cr_proto c = ToLower (rl_Proto r)" by (simp add: fields)
  with p(2) show "cr_proto c = [] \<or> cr_proto c = ''tcp'' \<or> cr_proto c = ''udp''" by simp
  show "if rl_Cgroup r = [] then cr_cgroup c = [] else NormalizeCgroup (rl_Cgroup r) = Inr (cr_cgroup c)"
    using g' by (simp add: fields split: if_splits)
  show "cr_anyHost c \<longleftrightarrow> cr_exact c = {} \<and> cr_suffixes c = [] \<and> cr_prefixes c = []"
    by (simp add: c)
qed

lemma compile_list_eq:
  "compile_list v i rs (errs, cs) =
     (let outs = map (\<lambda>(j, r). compileRule r v (rule_pos v j)) (enumerate i rs) in
      (errs @ lefts outs, cs @ rights outs))"
  by (induction rs arbitrary: i errs cs) (auto simp: Let_def split: sum.splits)

definition compile_outs :: "verdict \<Rightarrow> rule list \<Rightarrow> (rule_error + compiled_rule) list" where
  "compile_outs v rs = map (\<lambda>(j, r). compileRule r v (rule_pos v j)) (enumerate 0 rs)"

lemma Compile_eq:
  "Compile p =
     (if pl_Version p \<noteq> 1 then Inl (UnsupportedVersion (pl_Version p))
      else if pl_Default p \<noteq> ''deny'' \<and> pl_Default p \<noteq> ''allow'' then Inl (BadDefault (pl_Default p))
      else
        let outs = compile_outs Deny (pl_Deny p) @ compile_outs Allow (pl_Allow p) in
        if lefts outs \<noteq> [] then Inl (RuleErrors (lefts outs))
        else Inr \<lparr>ps_rules = rights outs, ps_def = (if pl_Default p = ''deny'' then Deny else Allow)\<rparr>)"
  by (simp add: Compile_def compile_list_eq compile_outs_def Let_def)

lemma compile_outs_ok:
  "lefts (compile_outs v rs) = [] \<Longrightarrow>
     list_all2 (\<lambda>r c. \<exists>pos. compileRule r v pos = Inr c) rs (rights (compile_outs v rs))"
proof -
  assume "lefts (compile_outs v rs) = []"
  then have e: "compile_outs v rs = map Inr (rights (compile_outs v rs))"
    by (rule lefts_Nil_rights)
  then have l: "length (rights (compile_outs v rs)) = length rs"
    by (metis compile_outs_def length_enumerate length_map)
  show ?thesis
  proof (rule list_all2_all_nthI)
    fix n assume n: "n < length rs"
    have "compile_outs v rs ! n = Inr (rights (compile_outs v rs) ! n)"
      using e l n by (metis nth_map)
    then show "\<exists>pos. compileRule (rs ! n) v pos = Inr (rights (compile_outs v rs) ! n)"
      using n by (auto simp: compile_outs_def nth_enumerate_eq)
  qed (simp add: l)
qed

lemma Compile_InrD:
  assumes "Compile p = Inr s"
  shows "\<exists>ds as. ps_rules s = ds @ as
      \<and> list_all2 (\<lambda>r c. \<exists>pos. compileRule r Deny pos = Inr c) (pl_Deny p) ds
      \<and> list_all2 (\<lambda>r c. \<exists>pos. compileRule r Allow pos = Inr c) (pl_Allow p) as
      \<and> ps_def s = (if pl_Default p = ''deny'' then Deny else Allow)
      \<and> pl_Version p = 1 \<and> (pl_Default p = ''deny'' \<or> pl_Default p = ''allow'')"
proof -
  let ?D = "rights (compile_outs Deny (pl_Deny p))" and ?A = "rights (compile_outs Allow (pl_Allow p))"
  have "ps_rules s = ?D @ ?A \<and> lefts (compile_outs Deny (pl_Deny p)) = []
      \<and> lefts (compile_outs Allow (pl_Allow p)) = []
      \<and> ps_def s = (if pl_Default p = ''deny'' then Deny else Allow)
      \<and> pl_Version p = 1 \<and> (pl_Default p = ''deny'' \<or> pl_Default p = ''allow'')"
    using assms by (auto simp: Compile_eq Let_def split: if_splits)
  with compile_outs_ok[of Deny "pl_Deny p"] compile_outs_ok[of Allow "pl_Allow p"] show ?thesis
    by blast
qed
section \<open>Lemmas on evaluation\<close>

text \<open>The test of the loop body of \<open>Evaluate\<close>, and the answer of a rule that passed it.\<close>

definition rule_hits :: "compiled_rule \<Rightarrow> dest \<Rightarrow> bool" where
  "rule_hits r q \<longleftrightarrow>
     (cr_cgroup r = [] \<or> CgroupWithin (d_Cgroup q) (cr_cgroup r)) \<and>
     rule_match r (d_Domain q) (d_IP q) (d_Port q) (d_Proto q) \<noteq> None"

definition rule_decision :: "compiled_rule \<Rightarrow> dest \<Rightarrow> decision" where
  "rule_decision r q =
     \<lparr>dc_Verdict = cr_verdict r, dc_Rule = cr_name r,
      dc_Reason = the (rule_match r (d_Domain q) (d_IP q) (d_Port q) (d_Proto q))
        @ (if cr_cgroup r \<noteq> [] then '' from '' @ cr_cgroup r else [])\<rparr>"

interpretation policy_scan: first_match eval_rules rule_hits rule_decision
  by unfold_locales (auto simp: rule_hits_def rule_decision_def)

lemma rule_match_iff:
  "rule_match r nm ip port proto \<noteq> None \<longleftrightarrow>
     (cr_proto r = [] \<or> proto = [] \<or> cr_proto r = proto)
     \<and> (cr_ports r = [] \<or> port_hit (cr_ports r) port)
     \<and> (cr_anyHost r
        \<or> nm \<noteq> [] \<and> covers_name r nm
        \<or> IsValid ip \<and> (\<exists>pfx \<in> set (cr_prefixes r). Prefix_Contains pfx (Unmap ip)))"
proof -
  have f: "find P xs \<noteq> None \<longleftrightarrow> (\<exists>x \<in> set xs. P x)" for P :: "'x \<Rightarrow> bool" and xs
    by (induction xs) auto
  have f1: "(case find P xs of None \<Rightarrow> b | Some s \<Rightarrow> Some (g s)) \<noteq> None \<longleftrightarrow>
      (\<exists>x \<in> set xs. P x) \<or> b \<noteq> None" for P :: "'x \<Rightarrow> bool" and xs b and g :: "'x \<Rightarrow> string"
    using f[of P xs] by (auto split: option.splits)
  show ?thesis
    by (auto simp: rule_match_def Let_def f f1 covers_name_def list_ex_iff simp del: not_None_eq)
qed

text \<open>
  The meaning of a rule as the file states it: the destination hits one of its domains or one
  of its CIDRs (any host when it has neither), and port, protocol and cgroup fit. The
  destination is in normal form.
\<close>

definition pattern_covers :: "string \<Rightarrow> string \<Rightarrow> bool" where
  "pattern_covers pat name \<longleftrightarrow>
     (if is_wildcard pat then HasSuffix name (drop 1 (NormalizeDomain pat))
      else name = NormalizeDomain pat)"

definition Rule_applies :: "rule \<Rightarrow> dest \<Rightarrow> bool" where
  "Rule_applies r q \<longleftrightarrow>
     (ToLower (rl_Proto r) = [] \<or> d_Proto q = [] \<or> ToLower (rl_Proto r) = d_Proto q)
     \<and> (rl_Ports r = [] \<or> (\<exists>p \<in> set (rl_Ports r). case parsePortRange p of Inl _ \<Rightarrow> False
           | Inr pr \<Rightarrow> pr_lo pr \<le> d_Port q \<and> d_Port q \<le> pr_hi pr))
     \<and> (rl_Domains r = [] \<and> rl_CIDRs r = []
        \<or> d_Domain q \<noteq> [] \<and> (\<exists>pat \<in> set (rl_Domains r). pattern_covers pat (d_Domain q))
        \<or> IsValid (d_IP q) \<and> (\<exists>c \<in> set (rl_CIDRs r). case parse_cidr c of None \<Rightarrow> False
              | Some p \<Rightarrow> Prefix_Contains p (Unmap (d_IP q))))
     \<and> (rl_Cgroup r = [] \<or> (case NormalizeCgroup (rl_Cgroup r) of Inl _ \<Rightarrow> False
           | Inr cg \<Rightarrow> CgroupWithin (d_Cgroup q) cg))"

lemma not_isl_ex: "\<not> isl x \<longleftrightarrow> (\<exists>y. x = Inr y)"
  by (cases x) auto

lemma case_Some_ex: "(case x of None \<Rightarrow> False | Some y \<Rightarrow> P y) \<longleftrightarrow> (\<exists>y. x = Some y \<and> P y)"
  by (cases x) auto

lemma case_Inr_ex: "(case x of Inl _ \<Rightarrow> False | Inr y \<Rightarrow> P y) \<longleftrightarrow> (\<exists>y. x = Inr y \<and> P y)"
  by (cases x) auto

lemma NormalizeCgroup_not_Nil: "NormalizeCgroup p = Inr q \<Longrightarrow> q \<noteq> []"
  by (auto simp: NormalizeCgroup_def Let_def split: if_splits)

lemma compileRule_covers:
  assumes "compileRule r v pos = Inr c"
  shows "covers_name c name \<longleftrightarrow> (\<exists>pat \<in> set (rl_Domains r). pattern_covers pat name)"
  using compileRule_InrD(3,4)[OF assms]
  by (auto simp: covers_name_def pattern_covers_def list_ex_iff image_iff split: if_splits)

lemma compileRule_prefixes:
  assumes "compileRule r v pos = Inr c"
  shows "(\<exists>pfx \<in> set (cr_prefixes c). Prefix_Contains pfx a) \<longleftrightarrow>
    (\<exists>s \<in> set (rl_CIDRs r). \<exists>p. parse_cidr s = Some p \<and> Prefix_Contains p a)"
  using compileRule_InrD(6)[OF assms]
  by (rule list_all2_exI[symmetric])
     (auto simp: cidr_result_def split: option.splits)

lemma compileRule_ports:
  assumes "compileRule r v pos = Inr c"
  shows "port_hit (cr_ports c) port \<longleftrightarrow>
    (\<exists>p \<in> set (rl_Ports r). \<exists>pr. parsePortRange p = Inr pr \<and> pr_lo pr \<le> port \<and> port \<le> pr_hi pr)"
  unfolding port_hit_def list_ex_iff using compileRule_InrD(7)[OF assms]
  by (rule list_all2_exI[symmetric]) auto

lemma compileRule_anyHost:
  assumes "compileRule r v pos = Inr c"
  shows "cr_anyHost c \<longleftrightarrow> rl_Domains r = [] \<and> rl_CIDRs r = []"
proof -
  have "cr_exact c = {} \<and> cr_suffixes c = [] \<longleftrightarrow> rl_Domains r = []"
    using compileRule_InrD(3,4)[OF assms] by (auto simp: filter_empty_conv)
  moreover have "cr_prefixes c = [] \<longleftrightarrow> rl_CIDRs r = []"
    using compileRule_InrD(6)[OF assms] by auto
  ultimately show ?thesis using compileRule_InrD(11)[OF assms] by blast
qed

text \<open>A compiled rule hits exactly the destinations its source rule applies to.\<close>

lemma compileRule_hits:
  assumes "compileRule r v pos = Inr c"
  shows "rule_hits c q \<longleftrightarrow> Rule_applies r q"
proof -
  note cr = compileRule_InrD[OF assms]
  have "cr_ports c = [] \<longleftrightarrow> rl_Ports r = []" using cr(7) by auto
  moreover have "(cr_cgroup c = [] \<or> CgroupWithin (d_Cgroup q) (cr_cgroup c)) \<longleftrightarrow>
      (rl_Cgroup r = [] \<or> (\<exists>cg. NormalizeCgroup (rl_Cgroup r) = Inr cg \<and> CgroupWithin (d_Cgroup q) cg))"
    using cr(10) by (auto dest: NormalizeCgroup_not_Nil split: if_splits)
  ultimately show ?thesis
    unfolding rule_hits_def Rule_applies_def case_Some_ex case_Inr_ex rule_match_iff cr(8)
      compileRule_covers[OF assms] compileRule_prefixes[OF assms] compileRule_ports[OF assms]
      compileRule_anyHost[OF assms]
    by blast
qed

lemma compiled_list_ex:
  assumes "list_all2 (\<lambda>r c. \<exists>pos. compileRule r v pos = Inr c) rs cs"
  shows "(\<exists>c \<in> set cs. rule_hits c q) \<longleftrightarrow> (\<exists>r \<in> set rs. Rule_applies r q)"
  using assms by (rule list_all2_exI[symmetric]) (auto simp: compileRule_hits)

lemma compiled_list_verdict:
  "list_all2 (\<lambda>r c. \<exists>pos. compileRule r v pos = Inr c) rs cs \<Longrightarrow> c \<in> set cs \<Longrightarrow> cr_verdict c = v"
  by (induction rule: list_all2_induct) (auto dest: compileRule_InrD(2))

section \<open>What compilation guarantees\<close>

lemma parse_cidr_SomeD:
  "parse_cidr s = Some p \<Longrightarrow>
     IsValid (pfx_Addr p) \<and> pfx_Bits p \<le> BitLen (pfx_Addr p) \<and> \<not> hasZone (pfx_Addr p)"
  by (auto simp: parse_cidr_def PrefixFrom_def dest: ParseAddr_valid ParsePrefix_SomeD
      split: option.splits)

lemma parsePortRange_InrD:
  "parsePortRange s = Inr pr \<Longrightarrow> 0 < pr_lo pr \<and> pr_lo pr \<le> pr_hi pr"
  by (auto simp: parsePortRange_def Let_def word_le_nat_alt word_less_nat_alt unat_of_nat
      dest!: ParseUint_bound split: option.splits if_splits prod.splits)

lemma NormalizeCgroup_parts:
  "NormalizeCgroup p = Inr q \<Longrightarrow> q \<noteq> [] \<and>
     (\<forall>part \<in> set (str_Split q (CHR ''/'')). part \<noteq> [] \<and> part \<noteq> ''.'' \<and> part \<noteq> ''..'')"
  by (auto simp: NormalizeCgroup_def Let_def list_ex_iff split: if_splits)

text \<open>What compilation guarantees of every rule.\<close>

definition cgroup_normal :: "string \<Rightarrow> bool" where
  "cgroup_normal q \<longleftrightarrow> q \<noteq> [] \<and>
     list_all (\<lambda>part. part \<noteq> [] \<and> part \<noteq> ''.'' \<and> part \<noteq> ''..'') (str_Split q (CHR ''/''))"

definition rule_wf :: "compiled_rule \<Rightarrow> bool" where
  "rule_wf c \<longleftrightarrow> finite (cr_exact c) \<and> [] \<notin> cr_exact c
     \<and> list_all (\<lambda>s. HasPrefix s ''.'') (cr_suffixes c)
     \<and> (cr_anyHost c \<longleftrightarrow> cr_exact c = {} \<and> cr_suffixes c = [] \<and> cr_prefixes c = [])
     \<and> list_all (\<lambda>pr. 0 < pr_lo pr \<and> pr_lo pr \<le> pr_hi pr) (cr_ports c)
     \<and> (cr_proto c = [] \<or> cr_proto c = ''tcp'' \<or> cr_proto c = ''udp'')
     \<and> (cr_cgroup c = [] \<or> cgroup_normal (cr_cgroup c))
     \<and> list_all (\<lambda>p. IsValid (pfx_Addr p) \<and> pfx_Bits p \<le> BitLen (pfx_Addr p)
          \<and> \<not> hasZone (pfx_Addr p) \<and> Masked p = p) (cr_prefixes c)"

lemma compileRule_wf:
  assumes "compileRule r v pos = Inr c"
  shows "rule_wf c"
proof -
  note d = compileRule_InrD[OF assms]
  have "list_all (\<lambda>s. HasPrefix s ''.'') (cr_suffixes c)"
    by (auto simp: d(4) list_all_iff is_wildcard_def HasPrefix_iff)
  moreover have "list_all (\<lambda>pr. 0 < pr_lo pr \<and> pr_lo pr \<le> pr_hi pr) (cr_ports c)"
    using d(7) by (rule list_all2_imp_list_all) (rule parsePortRange_InrD)
  moreover have "list_all (\<lambda>p. IsValid (pfx_Addr p) \<and> pfx_Bits p \<le> BitLen (pfx_Addr p)
          \<and> \<not> hasZone (pfx_Addr p) \<and> Masked p = p) (cr_prefixes c)"
    using d(6) by (rule list_all2_imp_list_all)
      (auto simp: cidr_result_def dest: parse_cidr_SomeD split: option.splits)
  moreover have "cr_cgroup c = [] \<or> cgroup_normal (cr_cgroup c)"
    using d(10) NormalizeCgroup_parts
    by (auto simp: cgroup_normal_def list_all_iff split: if_splits)
  moreover have "finite (cr_exact c)" "[] \<notin> cr_exact c"
    using d(5) by (auto simp: d(3))
  ultimately show ?thesis unfolding rule_wf_def using d(9,11) by blast
qed

lemma Compile_wf:
  assumes "Compile p = Inr s"
  shows "\<forall>c \<in> set (ps_rules s). rule_wf c"
proof -
  obtain ds as where "ps_rules s = ds @ as"
      "list_all2 (\<lambda>r c. \<exists>pos. compileRule r Deny pos = Inr c) (pl_Deny p) ds"
      "list_all2 (\<lambda>r c. \<exists>pos. compileRule r Allow pos = Inr c) (pl_Allow p) as"
    using Compile_InrD[OF assms] by blast
  moreover from this(2) have "list_all rule_wf ds"
    by (rule list_all2_imp_list_all) (blast dest: compileRule_wf)
  moreover from calculation(3) have "list_all rule_wf as"
    by (rule list_all2_imp_list_all) (blast dest: compileRule_wf)
  ultimately show ?thesis by (auto simp: list_all_iff)
qed

section \<open>The rules of the file in order\<close>

text \<open>Every rule of the file with its list and its index there, in evaluation order.\<close>

definition file_rules :: "policy \<Rightarrow> (verdict \<times> nat \<times> rule) list" where
  "file_rules p =
     map (Pair Deny) (enumerate 0 (pl_Deny p)) @ map (Pair Allow) (enumerate 0 (pl_Allow p))"

definition file_pos :: "verdict \<times> nat \<times> rule \<Rightarrow> string" where
  "file_pos x = (case x of (v, i, r) \<Rightarrow> rule_pos v i)"

definition file_name :: "verdict \<times> nat \<times> rule \<Rightarrow> string" where
  "file_name x = (case x of (v, i, r) \<Rightarrow> if rl_Name r = [] then rule_pos v i else rl_Name r)"

definition file_compile :: "verdict \<times> nat \<times> rule \<Rightarrow> rule_error + compiled_rule" where
  "file_compile x = (case x of (v, i, r) \<Rightarrow> compileRule r v (rule_pos v i))"

lemma Compile_file_rules:
  "Compile p =
     (if pl_Version p \<noteq> 1 then Inl (UnsupportedVersion (pl_Version p))
      else if pl_Default p \<noteq> ''deny'' \<and> pl_Default p \<noteq> ''allow'' then Inl (BadDefault (pl_Default p))
      else
        let outs = map file_compile (file_rules p) in
        if lefts outs \<noteq> [] then Inl (RuleErrors (lefts outs))
        else Inr \<lparr>ps_rules = rights outs, ps_def = (if pl_Default p = ''deny'' then Deny else Allow)\<rparr>)"
  by (simp add: Compile_eq compile_outs_def file_rules_def file_compile_def comp_def)

lemma Compile_list_all2:
  assumes "Compile p = Inr s"
  shows "list_all2 (\<lambda>x c. file_compile x = Inr c) (file_rules p) (ps_rules s)"
proof -
  have "lefts (map file_compile (file_rules p)) = []"
    "ps_rules s = rights (map file_compile (file_rules p))"
    using assms by (auto simp: Compile_file_rules Let_def split: if_splits)
  then have "map file_compile (file_rules p) = map Inr (ps_rules s)"
    using lefts_Nil_rights by metis
  then show ?thesis
    by (auto simp: list_all2_conv_all_nth dest: map_eq_imp_length_eq) (metis nth_map map_eq_imp_length_eq)
qed

lemma file_compile_InrD:
  assumes "file_compile (v, i, r) = Inr c"
  shows "rule_hits c q \<longleftrightarrow> Rule_applies r q" "cr_verdict c = v" "cr_name c = file_name (v, i, r)"
  using assms compileRule_InrD(1,2)[of r v "rule_pos v i" c]
  by (auto simp: file_compile_def file_name_def compileRule_hits)

lemma eval_rules_find:
  assumes "list_all2 (\<lambda>x c. file_compile x = Inr c) xs cs"
  shows "map_option (\<lambda>dc. (dc_Verdict dc, dc_Rule dc)) (eval_rules cs q) =
    map_option (\<lambda>x. (fst x, file_name x)) (find (\<lambda>(v, i, r). Rule_applies r q) xs)"
  using assms
proof (induction rule: list_all2_induct)
  case (Cons x xs c cs)
  obtain v i r where x: "x = (v, i, r)" by (cases x)
  note c = file_compile_InrD[OF Cons(1)[unfolded x]]
  show ?case
    using Cons.IH c by (simp add: policy_scan.scan_Cons x rule_decision_def del: eval_rules.simps)
qed simp

section \<open>Which rules compile\<close>

definition domain_ok :: "string \<Rightarrow> bool" where
  "domain_ok d \<longleftrightarrow>
     (let n = NormalizeDomain d in
      n \<noteq> [] \<and> n \<noteq> ''*'' \<and> CHR ''*'' \<notin> set (if HasPrefix n ''*.'' then drop 2 n else n))"

definition cidr_ok :: "string \<Rightarrow> bool" where
  "cidr_ok c \<longleftrightarrow> ParsePrefix c \<noteq> None \<or> ParseAddr c \<noteq> None"

definition cgroup_ok :: "string \<Rightarrow> bool" where
  "cgroup_ok g \<longleftrightarrow> cgroup_normal (TrimChar (TrimSpace g) (CHR ''/''))"

definition Rule_ok :: "rule \<Rightarrow> bool" where
  "Rule_ok r \<longleftrightarrow>
     list_all domain_ok (rl_Domains r) \<and> list_all cidr_ok (rl_CIDRs r)
     \<and> list_all (\<lambda>p. \<not> isl (parsePortRange p)) (rl_Ports r)
     \<and> ToLower (rl_Proto r) \<in> {[], ''tcp'', ''udp''}
     \<and> (rl_Cgroup r = [] \<or> cgroup_ok (rl_Cgroup r))"

lemma compile_domain_ok: "(\<exists>c'. compile_domain d c = Inr c') \<longleftrightarrow> domain_ok d"
  by (auto simp: compile_domain_def domain_ok_def Let_def str_Contains_def str_Index_char)

lemma fold_domain_ok: "(\<exists>c'. fold_res compile_domain ds c = Inr c') \<longleftrightarrow> list_all domain_ok ds"
proof (induction ds arbitrary: c)
  case (Cons d ds)
  then show ?case
    using compile_domain_ok[of d c] by (cases "compile_domain d c") auto
qed simp

lemma map_res_ok: "(\<exists>ys. map_res f xs = Inr ys) \<longleftrightarrow> list_all (\<lambda>x. \<exists>y. f x = Inr y) xs"
proof (induction xs)
  case (Cons x xs)
  then show ?case by (cases "f x"; cases "map_res f xs") auto
qed simp

lemma cidr_result_ok: "(\<exists>p. cidr_result c = Inr p) \<longleftrightarrow> cidr_ok c"
  by (auto simp: cidr_result_def parse_cidr_def cidr_ok_def split: option.splits)

lemma NormalizeCgroup_ok: "(\<exists>q. NormalizeCgroup g = Inr q) \<longleftrightarrow> cgroup_ok g"
  by (auto simp: NormalizeCgroup_def Let_def cgroup_ok_def cgroup_normal_def list_ex_iff list_all_iff)

lemma compileRule_ok: "(\<exists>c. compileRule r v pos = Inr c) \<longleftrightarrow> Rule_ok r"
proof -
  have 1: "(\<exists>c'. fold_res compile_cidr ss c = Inr c') \<longleftrightarrow> list_all cidr_ok ss" for ss c
    using map_res_ok[of cidr_result ss] by (auto simp: fold_compile_cidr cidr_result_ok split: sum.splits)
  have 2: "(\<exists>c'. fold_res compile_port ss c = Inr c') \<longleftrightarrow> list_all (\<lambda>p. \<not> isl (parsePortRange p)) ss"
    for ss c
    using map_res_ok[of parsePortRange ss]
    by (auto simp: fold_compile_port not_isl_ex split: sum.splits)
  have 3: "(\<exists>c'. compile_proto p c = Inr c') \<longleftrightarrow> ToLower p \<in> {[], ''tcp'', ''udp''}" for p c
    by (auto simp: compile_proto_def Let_def)
  have 4: "(\<exists>c'. compile_cgroup g c = Inr c') \<longleftrightarrow> g = [] \<or> cgroup_ok g" for g c
    using NormalizeCgroup_ok[of g] by (auto simp: compile_cgroup_def split: sum.splits)
  have one: "(\<exists>c. (case a of Inl e \<Rightarrow> Inl (RuleError pos e) | Inr x \<Rightarrow> k x) = Inr c) \<longleftrightarrow>
      (\<exists>x. a = Inr x \<and> (\<exists>c. k x = Inr c))" for a :: "rule_cause + compiled_rule" and k
    by (cases a) auto
  have step: "(\<exists>x. a = Inr x) \<longleftrightarrow> A \<Longrightarrow> (\<And>x. K x \<longleftrightarrow> B) \<Longrightarrow> (\<exists>x. a = Inr x \<and> K x) \<longleftrightarrow> A \<and> B"
    for a :: "rule_cause + compiled_rule" and A B K
    by blast
  show ?thesis
    unfolding compileRule_def Rule_ok_def one
    apply (rule step[OF fold_domain_ok])
    apply (rule step[OF 1])
    apply (rule step[OF 2])
    apply (rule step[OF 3])
    using 4 by blast
qed

lemma compileRule_pos: "compileRule r v pos = Inl e \<Longrightarrow> re_pos e = pos"
  by (auto simp: compileRule_def split: sum.splits)

lemma lefts_map_pos:
  "map re_pos (lefts (map file_compile xs)) =
     map file_pos (filter (\<lambda>(v, i, r). \<not> Rule_ok r) xs)"
proof (induction xs)
  case (Cons x xs)
  obtain v i r where x: "x = (v, i, r)" by (cases x)
  show ?case
    using Cons.IH compileRule_ok[of r v "rule_pos v i"]
      compileRule_pos[of r v "rule_pos v i"]
    by (cases "compileRule r v (rule_pos v i)") (auto simp: x file_compile_def file_pos_def)
qed simp

lemma file_rules_rules: "map (snd \<circ> snd) (file_rules p) = pl_Deny p @ pl_Allow p"
  by (simp add: file_rules_def comp_def)

section \<open>Names\<close>

lemma domain_rules_from_filter:
  "domain_rules_from k rs name =
     map ((+) k) (filter (\<lambda>i. covers_name (rs ! i) name) [0..<length rs])"
proof (induction rs arbitrary: k)
  case (Cons r rs)
  have "filter (\<lambda>i. covers_name ((r # rs) ! i) name) (map Suc [0..<length rs]) =
      map Suc (filter (\<lambda>i. covers_name (rs ! i) name) [0..<length rs])"
    by (simp add: filter_map comp_def)
  then show ?case
    using Cons.IH[of "k + 1"] by (simp add: upt_conv_Cons map_Suc_upt[symmetric] comp_def del: upt_Suc map_Suc_upt)
qed simp

lemma NormalizeDomain_graphic:
  "\<forall>c \<in> set d. graphic c \<Longrightarrow> NormalizeDomain d = TrimSuffix (ToLower d) ''.''"
  by (cases "d = []") (simp_all add: NormalizeDomain_def TrimSpace_graphic)

lemma graphic_ascii_lower: "graphic (ascii_lower c) = graphic c"
  by (auto simp: graphic_def ascii_lower_def Let_def of_char_of)

lemma NormalizeDomain_dotted:
  assumes "\<forall>c \<in> set n. graphic c" and "ToLower m = ToLower n" and "\<not> HasSuffix n ''.''"
  shows "NormalizeDomain (m @ ''.'') = NormalizeDomain n"
proof -
  have "\<forall>c \<in> set (ToLower m). graphic c"
    using assms(1) unfolding assms(2) by (simp add: ToLower_def graphic_ascii_lower)
  then have m: "\<forall>c \<in> set (m @ ''.''). graphic c"
    by (simp add: ToLower_def graphic_ascii_lower) (simp add: graphic_def)
  have "\<not> HasSuffix (ToLower n) ''.''"
  proof
    assume "HasSuffix (ToLower n) ''.''"
    then obtain q where "ToLower n = q @ ''.''" by (auto simp: HasSuffix_iff)
    then have ne: "n \<noteq> []" and "last (ToLower n) = CHR ''.''" by (auto simp: ToLower_def)
    then have l: "ascii_lower (last n) = CHR ''.''" by (simp add: ToLower_def last_map)
    then have "last n = CHR ''.''"
      by (auto simp: ascii_lower_def Let_def char_of_eq_iff take_bit_eq_mod split: if_splits)
    with ne have "n = butlast n @ ''.''" by (metis append_butlast_last_id)
    with assms(3) show False by (metis HasSuffix_append)
  qed
  moreover have "ToLower ''.'' = ''.''" by code_simp
  ultimately show ?thesis
    using assms(2) NormalizeDomain_graphic[OF m] NormalizeDomain_graphic[OF assms(1)]
    by (simp add: TrimSuffix_def ToLower_append HasSuffix_append)
qed

section \<open>An example\<close>

definition example_policy :: policy where
  "example_policy = \<lparr>pl_Version = 1, pl_Default = ''deny'',
     pl_Allow = [\<lparr>rl_Name = ''web'', rl_Domains = [''*.Ok.io'', ''ok.io''], rl_CIDRs = [], rl_Ports = [''443''],
        rl_Proto = ''tcp'', rl_Cgroup = [], rl_Comment = []\<rparr>],
     pl_Deny = [\<lparr>rl_Name = [], rl_Domains = [], rl_CIDRs = [''9.0.0.0/8''], rl_Ports = [],
        rl_Proto = [], rl_Cgroup = ''/a.slice'', rl_Comment = []\<rparr>]\<rparr>"

definition example_set :: policy_set where
  "example_set = \<lparr>ps_rules = [\<lparr>cr_name = ''deny[0]'', cr_verdict = Deny, cr_exact = {}, cr_suffixes = [],
     cr_prefixes = [IpPrefix (Addr4 0x09000000) 8], cr_ports = [], cr_proto = [],
     cr_cgroup = ''a.slice'', cr_anyHost = False\<rparr>,
    \<lparr>cr_name = ''web'', cr_verdict = Allow, cr_exact = {''ok.io''}, cr_suffixes = [''.ok.io''],
     cr_prefixes = [], cr_ports = [PortRange 443 443], cr_proto = ''tcp'',
     cr_cgroup = [], cr_anyHost = False\<rparr>], ps_def = Deny\<rparr>"

lemma example_compiles: "Compile example_policy = Inr example_set"
  by code_simp

lemma Evaluate_by_lists:
  assumes "Compile p = Inr s"
  shows "dc_Verdict (Evaluate s d) = (let q = normalize_dest d in
      if \<exists>r \<in> set (pl_Deny p). Rule_applies r q then Deny
      else if \<exists>r \<in> set (pl_Allow p). Rule_applies r q then Allow
      else if pl_Default p = ''deny'' then Deny else Allow)"
proof -
  let ?q = "normalize_dest d"
  obtain ds as where s: "ps_rules s = ds @ as"
      "list_all2 (\<lambda>r c. \<exists>pos. compileRule r Deny pos = Inr c) (pl_Deny p) ds"
      "list_all2 (\<lambda>r c. \<exists>pos. compileRule r Allow pos = Inr c) (pl_Allow p) as"
      "ps_def s = (if pl_Default p = ''deny'' then Deny else Allow)"
    using Compile_InrD[OF assms] by blast
  note hd = compiled_list_ex[OF s(2), of ?q] and ha = compiled_list_ex[OF s(3), of ?q]
  have v: "dc_Verdict (rule_decision c ?q) = cr_verdict c" for c
    by (simp add: rule_decision_def)
  show ?thesis
  proof (cases "eval_rules ds ?q")
    case (Some dc)
    then obtain c where "c \<in> set ds" "rule_hits c ?q" "dc = rule_decision c ?q"
      using policy_scan.scan_in by blast
    then show ?thesis
      using Some hd v compiled_list_verdict[OF s(2)]
      by (auto simp: Evaluate_def s(1) policy_scan.scan_append Let_def)
  next
    case None
    then have nd: "\<not> (\<exists>r \<in> set (pl_Deny p). Rule_applies r ?q)"
      using hd policy_scan.scan_None_iff[of ds ?q] by blast
    show ?thesis
    proof (cases "eval_rules as ?q")
      case (Some dc)
      then obtain c where "c \<in> set as" "rule_hits c ?q" "dc = rule_decision c ?q"
        using policy_scan.scan_in by blast
      then show ?thesis
        using Some None nd ha v compiled_list_verdict[OF s(3)]
        by (auto simp: Evaluate_def s(1) policy_scan.scan_append Let_def)
    next
      case n: None
      then have "\<not> (\<exists>r \<in> set (pl_Allow p). Rule_applies r ?q)"
        using ha policy_scan.scan_None_iff[of as ?q] by blast
      with n None nd show ?thesis
        by (simp add: Evaluate_def s(1,4) policy_scan.scan_append Let_def)
    qed
  qed
qed

section \<open>Properties\<close>

text \<open>
  C4: for a policy that compiles, \<open>Evaluate\<close> returns the verdict the file means: \<open>Deny\<close>
  when any deny rule applies to the destination, otherwise \<open>Allow\<close> when any allow rule does,
  otherwise the default.
\<close>

theorem Evaluate_verdict:
  assumes "Compile p = Inr s"
  shows "dc_Verdict (Evaluate s d) = (let q = normalize_dest d in
      if \<exists>r \<in> set (pl_Deny p). Rule_applies r q then Deny
      else if \<exists>r \<in> set (pl_Allow p). Rule_applies r q then Allow
      else if pl_Default p = ''deny'' then Deny else Allow)"
  by (rule Evaluate_by_lists[OF assms])

lemma Evaluate_verdict_witness:
  "\<exists>s. Compile example_policy = Inr s
     \<and> dc_Verdict (Evaluate s \<lparr>d_Domain = ''A.ok.io.'', d_IP = Addr4 0x01020304, d_Port = 443,
          d_Proto = ''tcp'', d_Cgroup = []\<rparr>) = Allow
     \<and> dc_Verdict (Evaluate s \<lparr>d_Domain = ''a.ok.io'', d_IP = Addr4 0x09020304, d_Port = 443,
          d_Proto = ''tcp'', d_Cgroup = ''a.slice/x''\<rparr>) = Deny"
  unfolding example_compiles sum.inject ex_simps
  apply (simp only: ex_simps simp_thms Evaluate_verdict[OF example_compiles])
  by code_simp

text \<open>
  C19: the rule \<open>Evaluate\<close> names is the first one, deny rules before allow rules and each list in
  file order, that applies to the destination; it is named by its name, or by its position in
  the file when it has none, and no name is given exactly when the default decides.
\<close>

theorem Evaluate_first_rule:
  assumes "Compile p = Inr s"
  shows "(dc_Verdict (Evaluate s d), dc_Rule (Evaluate s d)) =
    (case find (\<lambda>(v, i, r). Rule_applies r (normalize_dest d)) (file_rules p) of
       Some x \<Rightarrow> (fst x, file_name x)
     | None \<Rightarrow> (if pl_Default p = ''deny'' then Deny else Allow, []))"
proof -
  have "ps_def s = (if pl_Default p = ''deny'' then Deny else Allow)"
    using Compile_InrD[OF assms] by blast
  then show ?thesis
    using eval_rules_find[OF Compile_list_all2[OF assms], of "normalize_dest d"]
    by (auto simp: Evaluate_def split: option.splits)
qed

lemma Evaluate_first_rule_witness:
  "\<exists>s. Compile example_policy = Inr s
     \<and> (\<lambda>dc. (dc_Verdict dc, dc_Rule dc))
         (Evaluate s \<lparr>d_Domain = ''ok.io'', d_IP = NoAddr, d_Port = 443,
          d_Proto = ''TCP'', d_Cgroup = []\<rparr>) = (Allow, ''web'')
     \<and> (\<lambda>dc. (dc_Verdict dc, dc_Rule dc))
         (Evaluate s \<lparr>d_Domain = [], d_IP = Addr4 0x09020304, d_Port = 1,
          d_Proto = [], d_Cgroup = ''/a.slice''\<rparr>) = (Deny, ''deny[0]'')"
  unfolding example_compiles sum.inject
  apply (simp only: ex_simps simp_thms Evaluate_first_rule[OF example_compiles])
  by code_simp

text \<open>
  C20: \<open>Compile\<close> reports every broken rule and no other: with a supported version and a legal
  default it returns a set with one rule per rule of the file when all of them are well
  formed, and otherwise one error per broken rule, deny rules first, each naming the
  position of its rule.
\<close>

theorem Compile_reports:
  assumes "pl_Version p = 1" and "pl_Default p = ''deny'' \<or> pl_Default p = ''allow''"
  shows "case Compile p of
      Inr s \<Rightarrow> (\<forall>r \<in> set (pl_Deny p) \<union> set (pl_Allow p). Rule_ok r)
        \<and> length (ps_rules s) = length (pl_Deny p) + length (pl_Allow p)
    | Inl (RuleErrors es) \<Rightarrow> es \<noteq> []
        \<and> map re_pos es = map file_pos (filter (\<lambda>(v, i, r). \<not> Rule_ok r) (file_rules p))
    | Inl _ \<Rightarrow> False"
proof (cases "Compile p")
  case (Inl e)
  then have "e = RuleErrors (lefts (map file_compile (file_rules p)))"
    "lefts (map file_compile (file_rules p)) \<noteq> []"
    using assms by (auto simp: Compile_file_rules Let_def split: if_splits)
  with Inl show ?thesis by (simp add: lefts_map_pos)
next
  case (Inr s)
  note l = Compile_list_all2[OF Inr]
  have "\<forall>x \<in> set (file_rules p). case x of (v, i, r) \<Rightarrow> Rule_ok r"
  proof
    fix x assume "x \<in> set (file_rules p)"
    then obtain n where "n < length (file_rules p)" "x = file_rules p ! n" by (auto simp: in_set_conv_nth)
    then have "\<exists>c. file_compile x = Inr c" using l by (auto simp: list_all2_conv_all_nth)
    then show "case x of (v, i, r) \<Rightarrow> Rule_ok r"
      using compileRule_ok by (cases x) (auto simp: file_compile_def)
  qed
  then have "\<forall>r \<in> set (pl_Deny p) \<union> set (pl_Allow p). Rule_ok r"
    using file_rules_rules[of p] by (metis (mono_tags, lifting) case_prod_beta image_iff image_set set_append comp_apply)
  moreover have "length (ps_rules s) = length (pl_Deny p) + length (pl_Allow p)"
    using list_all2_lengthD[OF l] by (simp add: file_rules_def)
  ultimately show ?thesis using Inr by simp
qed

lemma Compile_reports_witness:
  "\<exists>es. Compile (example_policy\<lparr>pl_Deny := [\<lparr>rl_Name = ''x'', rl_Domains = [''*''], rl_CIDRs = [],
        rl_Ports = [], rl_Proto = [], rl_Cgroup = [], rl_Comment = []\<rparr>]\<rparr>) = Inl (RuleErrors es)
      \<and> map re_pos es = [''deny[0]'']"
proof -
  let ?p = "example_policy\<lparr>pl_Deny := [\<lparr>rl_Name = ''x'', rl_Domains = [''*''], rl_CIDRs = [],
        rl_Ports = [], rl_Proto = [], rl_Cgroup = [], rl_Comment = []\<rparr>]\<rparr>"
  have h: "pl_Version ?p = 1" "pl_Default ?p = ''deny'' \<or> pl_Default ?p = ''allow''"
    by (simp_all add: example_policy_def)
  have f: "map file_pos (filter (\<lambda>(v, i, r). \<not> Rule_ok r) (file_rules ?p)) = [''deny[0]'']"
    by code_simp
  have "\<not> Rule_ok (hd (pl_Deny ?p))" by code_simp
  then show ?thesis
    using Compile_reports[OF h] f
    by (cases "Compile ?p") (auto split: compile_error.splits)
qed

text \<open>
  A wildcard pattern covers the names below its domain and nothing else: not the domain
  itself, and no name that merely ends with the same letters.
\<close>

theorem wildcard_scope:
  assumes "compileRule r v pos = Inr c" and "rl_Domains r = [d]" and "NormalizeDomain d = ''*.'' @ base"
  shows "(covers_name c name \<longleftrightarrow> (\<exists>label. name = label @ ''.'' @ base)) \<and> \<not> covers_name c base"
proof -
  have "covers_name c n \<longleftrightarrow> HasSuffix n (''.'' @ base)" for n
    unfolding compileRule_covers[OF assms(1)]
    by (simp add: assms(2,3) pattern_covers_def is_wildcard_def HasPrefix_def)
  then show ?thesis by (auto simp: HasSuffix_iff dest: arg_cong[of _ _ length])
qed

lemma wildcard_scope_witness:
  "\<exists>c. compileRule (hd (pl_Allow example_policy)\<lparr>rl_Domains := [''*.Ok.io'']\<rparr>) Allow ''p'' = Inr c
     \<and> covers_name c ''a.b.ok.io'' \<and> \<not> covers_name c ''ok.io'' \<and> \<not> covers_name c ''evilok.io''"
proof -
  let ?r = "hd (pl_Allow example_policy)\<lparr>rl_Domains := [''*.Ok.io'']\<rparr>"
  have "Rule_ok ?r" by code_simp
  then obtain c where c: "compileRule ?r Allow ''p'' = Inr c" using compileRule_ok by blast
  have n: "NormalizeDomain ''*.Ok.io'' = ''*.'' @ ''ok.io''" by code_simp
  have w: "(covers_name c m \<longleftrightarrow> (\<exists>label. m = label @ ''.'' @ ''ok.io'')) \<and> \<not> covers_name c ''ok.io''" for m
    by (rule wildcard_scope[OF c _ n]) simp
  have "\<not> (\<exists>label. ''evilok.io'' = label @ ''.'' @ ''ok.io'')"
    by (auto simp: append_eq_Cons_conv Cons_eq_append_conv)
  moreover have "''a.b.ok.io'' = ''a.b'' @ ''.'' @ ''ok.io''" by simp
  ultimately have "covers_name c ''a.b.ok.io''" "\<not> covers_name c ''evilok.io''" "\<not> covers_name c ''ok.io''"
    using w[of "''a.b.ok.io''"] w[of "''evilok.io''"] by blast+
  then show ?thesis using c by blast
qed

text \<open>
  A cgroup rule covers its own path and the paths below it, component by component:
  \<open>app\<close> does not cover \<open>app2\<close>.
\<close>

theorem CgroupWithin_components:
  "CgroupWithin child parent \<longleftrightarrow> prefix (str_Split parent (CHR ''/'')) (str_Split child (CHR ''/''))"
  by (simp add: prefix_str_Split_iff CgroupWithin_def)

text \<open>
  C40: a CIDR that compiled covers exactly the block of addresses of its family that starts at
  the network address and has \<open>2 ^ (length - bits)\<close> members.
\<close>

theorem cidr_block:
  assumes "cidr_result s = Inr p"
  shows "Prefix_Contains p a \<longleftrightarrow>
    BitLen (pfx_Addr p) = BitLen a \<and> \<not> hasZone a
    \<and> addr_val (pfx_Addr p) \<le> addr_val a
    \<and> addr_val a < addr_val (pfx_Addr p) + 2 ^ (BitLen a - pfx_Bits p)"
proof -
  obtain q where q: "parse_cidr s = Some q" "p = Masked q"
    using assms by (auto simp: cidr_result_def split: option.splits)
  note w = parse_cidr_SomeD[OF q(1)]
  then have "BitLen (pfx_Addr q) = BitLen a \<Longrightarrow> IsValid a"
    by (cases a; cases "pfx_Addr q") auto
  with w show ?thesis
    unfolding q(2) by (subst Contains_block) auto
qed

lemma cidr_block_witness:
  "\<exists>p. cidr_result ''10.1.2.3/8'' = Inr p
     \<and> Prefix_Contains p (Addr4 0x0affffff) \<and> \<not> Prefix_Contains p (Addr4 0x0b000000)"
proof -
  have c: "cidr_result ''10.1.2.3/8'' = Inr (IpPrefix (Addr4 0x0a000000) 8)" by code_simp
  then show ?thesis
    using cidr_block[OF c, of "Addr4 0x0affffff"] cidr_block[OF c, of "Addr4 0x0b000000"]
    by (simp add: addr_val_def)
qed

text \<open>
  The index list of a name holds, in increasing order, exactly the rules of the file with
  a domain pattern that covers it.
\<close>

theorem DomainRules_spec:
  assumes "Compile p = Inr s"
  shows "DomainRules s name =
    filter (\<lambda>i. \<exists>pat \<in> set (rl_Domains (snd (snd (file_rules p ! i)))).
        pattern_covers pat (NormalizeDomain name)) [0..<length (file_rules p)]"
proof -
  note l = Compile_list_all2[OF assms]
  have "covers_name (ps_rules s ! i) n \<longleftrightarrow>
      (\<exists>pat \<in> set (rl_Domains (snd (snd (file_rules p ! i)))). pattern_covers pat n)"
    if "i < length (ps_rules s)" for i n
  proof -
    obtain v j r where x: "file_rules p ! i = (v, j, r)" by (cases "file_rules p ! i")
    then have "compileRule r v (rule_pos v j) = Inr (ps_rules s ! i)"
      using l that by (auto simp: list_all2_conv_all_nth file_compile_def)
    then show ?thesis by (simp add: x compileRule_covers)
  qed
  moreover have "length (file_rules p) = length (ps_rules s)" using l by (rule list_all2_lengthD)
  ultimately show ?thesis
    by (auto simp: DomainRules_def domain_rules_from_filter map_idI intro!: filter_cong)
qed

lemma DomainRules_spec_witness:
  "\<exists>s. Compile example_policy = Inr s \<and> DomainRules s ''X.OK.io.'' = [1] \<and> DomainRules s ''io'' = []"
  unfolding example_compiles sum.inject
  apply (simp only: ex_simps simp_thms DomainRules_spec[OF example_compiles])
  by code_simp

text \<open>
  Letter case and the trailing dot of a DNS name never change a decision.
\<close>

theorem Evaluate_dns_form:
  assumes "\<forall>c \<in> set n. graphic c" and "ToLower m = ToLower n" and "\<not> HasSuffix n ''.''"
  shows "Evaluate s (d\<lparr>d_Domain := m @ ''.''\<rparr>) = Evaluate s (d\<lparr>d_Domain := n\<rparr>)"
  by (simp add: Evaluate_def normalize_dest_def NormalizeDomain_dotted[OF assms])

lemma Evaluate_dns_form_witness:
  "\<exists>s. Compile example_policy = Inr s
    \<and> Evaluate s \<lparr>d_Domain = ''A.Ok.IO'' @ ''.'', d_IP = NoAddr, d_Port = 443, d_Proto = ''tcp'', d_Cgroup = []\<rparr>
    = Evaluate s \<lparr>d_Domain = ''a.ok.io'', d_IP = NoAddr, d_Port = 443, d_Proto = ''tcp'', d_Cgroup = []\<rparr>"
proof -
  obtain s where s: "Compile example_policy = Inr s" using example_compiles by blast
  have "\<forall>c \<in> set ''a.ok.io''. graphic c" "ToLower ''A.Ok.IO'' = ToLower ''a.ok.io''"
    "\<not> HasSuffix ''a.ok.io'' ''.''" by code_simp+
  from Evaluate_dns_form[OF this, of s
      "\<lparr>d_Domain = [], d_IP = NoAddr, d_Port = 443, d_Proto = ''tcp'', d_Cgroup = []\<rparr>"]
  show ?thesis using s by auto
qed

text \<open>
  A CIDR written over IPv4-mapped IPv6 addresses never applies: the address is reduced to
  its IPv4 form before the test, and the prefix is not.
\<close>

theorem mapped_cidr_inert:
  assumes "Is4In6 (pfx_Addr p)" and "96 \<le> pfx_Bits p" and "pfx_Bits p \<le> 128"
  shows "\<not> Prefix_Contains (Masked p) (Unmap a)"
  using Contains_mapped[OF assms] by simp

lemma mapped_cidr_inert_witness:
  "\<not> Prefix_Contains (Masked (IpPrefix (Addr6 0xffff01020300 []) 120)) (Unmap (Addr6 0xffff01020304 []))
   \<and> \<not> Prefix_Contains (Masked (IpPrefix (Addr6 0xffff01020300 []) 120)) (Unmap (Addr4 0x01020304))"
  by (intro conjI mapped_cidr_inert) simp_all

end
