(* ===== verification/Nft_Plan.thy ===== *)
theory Nft_Plan
  imports Policy
begin

text \<open>
  \<^verbatim>\<open>internal/nft/plan.go\<close>: the plan an nftables table is built from, its construction out of a
  compiled policy, and its text form. An atom's optional prefix is \<open>None\<close> where Go has the
  zero prefix; an absent port range is the zero range, as in Go.
\<close>

section \<open>Data\<close>

datatype family = AnyFamily | V4 | V6

record atom =
  at_Family :: family
  at_Proto :: string
  at_Port :: port_range
  at_Prefix :: "ip_prefix option"
  at_Set :: string
  at_Cgroup :: string
  at_Verdict :: verdict
  at_Rule :: string

record set_def =
  sd_Name :: string
  sd_Family :: family
  sd_Rule :: nat

record plan =
  pn_Sets :: "set_def list"
  pn_Atoms :: "atom list"
  pn_DefaultDeny :: bool
  pn_Forward :: bool

record set_add =
  ad_Set :: string
  ad_IP :: addr
  ad_TTL :: duration

definition TableName :: string where "TableName = ''egresswall''"
definition ChainName :: string where "ChainName = ''output''"
definition ForwardChain :: string where "ForwardChain = ''forward''"
definition maxPrefix :: nat where "maxPrefix = 120"

text \<open>\<^verbatim>\<open>fe80::/10\<close>, \<^verbatim>\<open>ff00::/8\<close> and \<^verbatim>\<open>224.0.0.0/4\<close>.\<close>

definition housekeeping :: "ip_prefix list" where
  "housekeeping =
     [IpPrefix (Addr6 0xfe800000000000000000000000000000 []) 10,
      IpPrefix (Addr6 0xff000000000000000000000000000000 []) 8,
      IpPrefix (Addr4 0xe0000000) 4]"

definition bridgePrefixes :: "string list" where
  "bridgePrefixes = [''docker'', ''br-'']"

section \<open>Building the plan\<close>

definition setName :: "nat \<Rightarrow> family \<Rightarrow> string" where
  "setName i f = CHR ''r'' # itoa i @ (if f = V6 then ''_v6'' else ''_v4'')"

definition SetFor :: "nat \<Rightarrow> addr \<Rightarrow> string" where
  "SetFor i ip = (if Is4 (Unmap ip) then setName i V4 else setName i V6)"

definition hasDomains :: "rule_view \<Rightarrow> bool" where
  "hasDomains r \<longleftrightarrow> rv_Exact r \<noteq> [] \<or> rv_Suffixes r \<noteq> []"

definition build_sets :: "nat \<Rightarrow> rule_view \<Rightarrow> set_def list" where
  "build_sets i r =
     (if hasDomains r then
        [\<lparr>sd_Name = setName i V4, sd_Family = V4, sd_Rule = i\<rparr>,
         \<lparr>sd_Name = setName i V6, sd_Family = V6, sd_Rule = i\<rparr>]
      else [])"

text \<open>The \<^verbatim>\<open>emit\<close> closure: one atom per port range, or one with the zero range.\<close>

definition emit_atoms ::
  "rule_view \<Rightarrow> family \<Rightarrow> ip_prefix option \<Rightarrow> string \<Rightarrow> atom list" where
  "emit_atoms r f pfx st =
     map (\<lambda>port. \<lparr>at_Family = f, at_Proto = rv_Proto r, at_Port = port, at_Prefix = pfx,
                  at_Set = st, at_Cgroup = rv_Cgroup r, at_Verdict = rv_Verdict r,
                  at_Rule = rv_Name r\<rparr>)
         (if rv_Ports r = [] then [PortRange 0 0] else rv_Ports r)"

definition familyOf :: "ip_prefix \<Rightarrow> family" where
  "familyOf p = (if Is4 (pfx_Addr p) then V4 else V6)"

definition build_atoms :: "nat \<Rightarrow> rule_view \<Rightarrow> atom list" where
  "build_atoms i r =
     (if rv_AnyHost r then emit_atoms r AnyFamily None []
      else
        concat (map (\<lambda>pfx. emit_atoms r (familyOf pfx) (Some pfx) []) (rv_Prefixes r))
        @ (if hasDomains r then
             emit_atoms r V4 None (setName i V4) @ emit_atoms r V6 None (setName i V6)
           else []))"

definition Build :: "policy_set \<Rightarrow> plan" where
  "Build s =
     (let rules = enumerate 0 (Set_Rules s) in
      \<lparr>pn_Sets = concat (map (\<lambda>(i, r). build_sets i r) rules),
       pn_Atoms = concat (map (\<lambda>(i, r). build_atoms i r) rules),
       pn_DefaultDeny = (ps_def s = Deny),
       pn_Forward = False\<rparr>)"

section \<open>Text form\<close>

definition LogPrefix :: "string \<Rightarrow> string" where
  "LogPrefix rule =
     (let p = (if rule \<noteq> [] then ''egresswall deny['' @ rule @ '']: ''
               else ''egresswall default-deny: '') in
      if maxPrefix < length p then take (maxPrefix - 3) p @ ''..: '' else p)"

definition inChain :: "atom \<Rightarrow> bool \<Rightarrow> bool" where
  "inChain a forward \<longleftrightarrow> \<not> (forward \<and> at_Cgroup a \<noteq> [])"

definition CgroupLevel :: "string \<Rightarrow> nat" where
  "CgroupLevel path = str_Count path (CHR ''/'') + 1"

definition familyWord :: "family \<Rightarrow> string" where
  "familyWord f = (if f = V6 then ''ip6'' else ''ip'')"

definition prefixText :: "ip_prefix \<Rightarrow> string" where
  "prefixText p =
     (if pfx_Bits p = BitLen (pfx_Addr p) then Addr_String (pfx_Addr p) else Prefix_String p)"

definition portText :: "port_range \<Rightarrow> string" where
  "portText r =
     (if pr_lo r = pr_hi r then itoa (unat (pr_lo r))
      else itoa (unat (pr_lo r)) @ ''-'' @ itoa (unat (pr_hi r)))"

definition refuse_text :: "string \<Rightarrow> string" where
  "refuse_text rule =
     ''log prefix '' @ Quote (LogPrefix rule) @ '' reject with icmpx type admin-prohibited''"

definition atom_text :: "atom \<Rightarrow> string" where
  "atom_text a =
     str_Join
       ((if at_Cgroup a \<noteq> [] then
           [''socket cgroupv2 level '' @ itoa (CgroupLevel (at_Cgroup a)) @ '' '' @ Quote (at_Cgroup a)]
         else [])
        @ (case at_Prefix a of
             Some p \<Rightarrow> [familyWord (at_Family a) @ '' daddr '' @ prefixText p]
           | None \<Rightarrow>
               if at_Set a \<noteq> [] then [familyWord (at_Family a) @ '' daddr @'' @ at_Set a] else [])
        @ (if at_Proto a \<noteq> [] \<and> pr_hi (at_Port a) \<noteq> 0 then
             [at_Proto a @ '' dport '' @ portText (at_Port a)]
           else if at_Proto a \<noteq> [] then [''meta l4proto '' @ at_Proto a]
           else if pr_hi (at_Port a) \<noteq> 0 then
             [''meta l4proto { tcp, udp } th dport '' @ portText (at_Port a)]
           else [])
        @ (if at_Verdict a = Allow then [''accept''] else [refuse_text (at_Rule a)]))
       '' ''"

text \<open>Line feeds and tabs of the Go format strings.\<close>

definition nl :: string where "nl = [char_of (10 :: nat)]"
definition tab :: string where "tab = [char_of (9 :: nat)]"

definition rule_line :: "string \<Rightarrow> string" where
  "rule_line t = tab @ tab @ t @ nl"

definition chainBody_text :: "plan \<Rightarrow> bool \<Rightarrow> string" where
  "chainBody_text p forward =
     rule_line ''ct state established,related accept''
     @ concat (map (\<lambda>pfx. rule_line (familyWord (familyOf pfx) @ '' daddr '' @ Prefix_String pfx
         @ '' accept'')) housekeeping)
     @ concat (map (\<lambda>a. rule_line (atom_text a)) (filter (\<lambda>a. inChain a forward) (pn_Atoms p)))
     @ (if pn_DefaultDeny p then rule_line (refuse_text []) else [])
     @ tab @ ''}'' @ nl"

definition set_text :: "set_def \<Rightarrow> string" where
  "set_text s =
     tab @ ''set '' @ sd_Name s @ '' {'' @ nl
     @ rule_line (''type '' @ (if sd_Family s = V6 then ''ipv6_addr'' else ''ipv4_addr''))
     @ rule_line ''flags timeout'' @ tab @ ''}'' @ nl"

definition Text :: "plan \<Rightarrow> string" where
  "Text p =
     (let word = (if pn_DefaultDeny p then ''drop'' else ''accept'') in
      ''table inet '' @ TableName @ '' {'' @ nl
      @ concat (map set_text (pn_Sets p))
      @ tab @ ''chain '' @ ChainName @ '' {'' @ nl
      @ rule_line (''type filter hook output priority filter; policy '' @ word @ '';'')
      @ rule_line (''oif '' @ Quote ''lo'' @ '' accept'')
      @ chainBody_text p False
      @ (if pn_Forward p then
           tab @ ''chain '' @ ForwardChain @ '' {'' @ nl
           @ rule_line (''type filter hook forward priority filter; policy '' @ word @ '';'')
           @ concat (map (\<lambda>pfx. rule_line (''oifname '' @ Quote (pfx @ ''*'') @ '' accept''))
               bridgePrefixes)
           @ chainBody_text p True
         else [])
      @ ''}'' @ nl)"

section \<open>What an atom means\<close>

text \<open>
  A packet as the ruleset sees it, with the name the host's DNS answers gave its destination
  and the current contents of the timeout sets.
\<close>

record flow =
  fl_dst :: addr
  fl_l4 :: string
  fl_port :: u16
  fl_cgroup :: string
  fl_name :: string
  fl_sets :: "string \<Rightarrow> addr \<Rightarrow> bool"

text \<open>
  \<^verbatim>\<open>socket cgroupv2 level n path\<close> compares the ancestor of the socket's cgroup at depth \<open>n\<close>
  with the path; a cgroup that is not that deep has no such ancestor.
\<close>

definition cgroup_hits :: "string \<Rightarrow> string \<Rightarrow> bool" where
  "cgroup_hits path cg \<longleftrightarrow>
     (let parts = str_Split cg (CHR ''/''); n = CgroupLevel path in
      n \<le> length parts \<and> str_Join (take n parts) ''/'' = path)"

definition family_hits :: "family \<Rightarrow> addr \<Rightarrow> bool" where
  "family_hits f ip \<longleftrightarrow> (case f of AnyFamily \<Rightarrow> True | V4 \<Rightarrow> Is4 ip | V6 \<Rightarrow> Is6 ip)"

text \<open>
  The meaning the comment on \<^verbatim>\<open>Atom\<close> gives it: family, then a prefix or a set lookup, then
  the protocol (a port without a protocol means tcp or udp) and the port range.
\<close>

definition atom_hits :: "atom \<Rightarrow> flow \<Rightarrow> bool" where
  "atom_hits a f \<longleftrightarrow>
     (at_Cgroup a = [] \<or> cgroup_hits (at_Cgroup a) (fl_cgroup f))
     \<and> family_hits (at_Family a) (fl_dst f)
     \<and> (case at_Prefix a of
          Some p \<Rightarrow> Prefix_Contains p (fl_dst f)
        | None \<Rightarrow> at_Set a = [] \<or> fl_sets f (at_Set a) (fl_dst f))
     \<and> (if at_Proto a \<noteq> [] then fl_l4 f = at_Proto a
        else pr_hi (at_Port a) \<noteq> 0 \<longrightarrow> fl_l4 f = ''tcp'' \<or> fl_l4 f = ''udp'')
     \<and> (pr_hi (at_Port a) \<noteq> 0 \<longrightarrow>
          pr_lo (at_Port a) \<le> fl_port f \<and> fl_port f \<le> pr_hi (at_Port a))"

definition atom_decision :: "atom \<Rightarrow> flow \<Rightarrow> verdict \<times> string" where
  "atom_decision a f = (at_Verdict a, at_Rule a)"

fun chain_scan :: "atom list \<Rightarrow> flow \<Rightarrow> (verdict \<times> string) option" where
  "chain_scan [] f = None"
| "chain_scan (a # as) f = (if atom_hits a f then Some (atom_decision a f) else chain_scan as f)"

interpretation atom_chain: first_match chain_scan atom_hits atom_decision
  by unfold_locales simp_all

text \<open>The answer of the policy part of a chain: verdict and name of the deciding rule.\<close>

definition plan_decision :: "plan \<Rightarrow> flow \<Rightarrow> verdict \<times> string" where
  "plan_decision p f =
     (case chain_scan (pn_Atoms p) f of
        Some v \<Rightarrow> v
      | None \<Rightarrow> (if pn_DefaultDeny p then Deny else Allow, []))"

section \<open>The plan against the policy\<close>

definition dest_of :: "flow \<Rightarrow> dest" where
  "dest_of f = \<lparr>d_Domain = fl_name f, d_IP = fl_dst f, d_Port = fl_port f,
                d_Proto = fl_l4 f, d_Cgroup = fl_cgroup f\<rparr>"

lemma cgroup_hits_iff: "cgroup_hits path cg \<longleftrightarrow> CgroupWithin cg path"
proof -
  let ?s = "CHR ''/''"
  have n: "CgroupLevel path = length (str_Split path ?s)"
    by (simp add: CgroupLevel_def length_str_Split)
  have "cgroup_hits path cg \<longleftrightarrow> prefix (str_Split path ?s) (str_Split cg ?s)"
  proof
    assume h: "cgroup_hits path cg"
    let ?t = "take (length (str_Split path ?s)) (str_Split cg ?s)"
    have j: "str_Join ?t ''/'' = path" using h by (simp add: cgroup_hits_def Let_def n)
    have ne: "?t \<noteq> []" by (simp add: Suc_le_eq)
    have "str_Split (str_Join ?t ''/'') ?s = ?t"
      using ne by (rule str_Split_Join) (auto dest: in_set_takeD str_Split_parts)
    with j have "str_Split path ?s = ?t" by simp
    then show "prefix (str_Split path ?s) (str_Split cg ?s)" by (metis take_is_prefix)
  next
    assume "prefix (str_Split path ?s) (str_Split cg ?s)"
    then show "cgroup_hits path cg"
      by (auto simp: cgroup_hits_def Let_def n prefix_def)
  qed
  then show ?thesis
    by (simp add: prefix_str_Split_iff CgroupWithin_def)
qed

definition flow_ok :: "nat \<times> compiled_rule \<Rightarrow> flow \<Rightarrow> bool" where
  "flow_ok ic f \<longleftrightarrow> (case ic of (i, c) \<Rightarrow>
     rule_wf c
     \<and> IsValid (fl_dst f) \<and> \<not> Is4In6 (fl_dst f)
     \<and> (fl_l4 f = ''tcp'' \<or> fl_l4 f = ''udp'')
     \<and> (fl_sets f (SetFor i (fl_dst f)) (fl_dst f) \<longleftrightarrow>
          fl_name f \<noteq> [] \<and> covers_name c (fl_name f)))"

lemma emit_atoms_hits:
  assumes "rule_wf c" and "fl_l4 f = ''tcp'' \<or> fl_l4 f = ''udp''"
  shows "(\<exists>a \<in> set (emit_atoms (rule_view_of c) fam pfx st). atom_hits a f) \<longleftrightarrow>
    (cr_cgroup c = [] \<or> CgroupWithin (fl_cgroup f) (cr_cgroup c))
    \<and> family_hits fam (fl_dst f)
    \<and> (case pfx of Some p \<Rightarrow> Prefix_Contains p (fl_dst f)
       | None \<Rightarrow> st = [] \<or> fl_sets f st (fl_dst f))
    \<and> (cr_proto c = [] \<or> cr_proto c = fl_l4 f)
    \<and> (cr_ports c = [] \<or> port_hit (cr_ports c) (fl_port f))"
proof -
  have "pr_hi pr \<noteq> 0" if "pr \<in> set (cr_ports c)" for pr
    using assms(1) that by (auto simp: rule_wf_def list_all_iff)
  then show ?thesis
    using assms(2)
    by (cases "cr_ports c = []"; cases pfx)
       (auto simp: emit_atoms_def rule_view_of_def atom_hits_def cgroup_hits_iff port_hit_def
          list_ex_iff)
qed

lemma build_atoms_hits:
  assumes "flow_ok (i, c) f"
  shows "(\<exists>a \<in> set (build_atoms i (rule_view_of c)). atom_hits a f) \<longleftrightarrow> rule_hits c (dest_of f)"
proof -
  have wf: "rule_wf c" and l4: "fl_l4 f = ''tcp'' \<or> fl_l4 f = ''udp''"
    and ip: "IsValid (fl_dst f)" "Unmap (fl_dst f) = fl_dst f"
    and st: "fl_sets f (SetFor i (fl_dst f)) (fl_dst f) \<longleftrightarrow> fl_name f \<noteq> [] \<and> covers_name c (fl_name f)"
    using assms by (auto simp: flow_ok_def Unmap_id)
  note em = emit_atoms_hits[OF wf l4]
  let ?common = "(cr_cgroup c = [] \<or> CgroupWithin (fl_cgroup f) (cr_cgroup c))
    \<and> (cr_proto c = [] \<or> cr_proto c = fl_l4 f)
    \<and> (cr_ports c = [] \<or> port_hit (cr_ports c) (fl_port f))"
  have any: "rv_AnyHost (rule_view_of c) = cr_anyHost c"
    "rv_Prefixes (rule_view_of c) = cr_prefixes c"
    by (simp_all add: rule_view_of_def)
  have dom: "hasDomains (rule_view_of c) \<longleftrightarrow> cr_exact c \<noteq> {} \<or> cr_suffixes c \<noteq> []"
    using wf by (auto simp: hasDomains_def rule_view_of_def rule_wf_def)
  have fam: "Prefix_Contains p (fl_dst f) \<Longrightarrow> family_hits (familyOf p) (fl_dst f)" for p
    using Contains_family[of p "fl_dst f"]
    by (cases "fl_dst f"; cases "pfx_Addr p") (auto simp: familyOf_def family_hits_def)
  have sets: "family_hits V4 (fl_dst f) \<and> fl_sets f (setName i V4) (fl_dst f)
      \<or> family_hits V6 (fl_dst f) \<and> fl_sets f (setName i V6) (fl_dst f)
      \<longleftrightarrow> fl_name f \<noteq> [] \<and> covers_name c (fl_name f)"
    using st ip by (cases "fl_dst f") (auto simp: SetFor_def family_hits_def)
  have none: "\<not> (cr_exact c \<noteq> {} \<or> cr_suffixes c \<noteq> []) \<Longrightarrow> \<not> covers_name c (fl_name f)"
    by (auto simp: covers_name_def)
  have sn: "setName i fm \<noteq> []" for fm by (simp add: setName_def)
  have "(\<exists>a \<in> set (build_atoms i (rule_view_of c)). atom_hits a f) \<longleftrightarrow>
     ?common \<and> (cr_anyHost c
       \<or> (\<exists>p \<in> set (cr_prefixes c). Prefix_Contains p (fl_dst f))
       \<or> fl_name f \<noteq> [] \<and> covers_name c (fl_name f))"
  proof (cases "cr_anyHost c")
    case True
    then show ?thesis
      using em[of AnyFamily None "[]"]
      by (simp add: build_atoms_def any family_hits_def)
  next
    case False
    have "(\<exists>a \<in> set (build_atoms i (rule_view_of c)). atom_hits a f) \<longleftrightarrow>
      (\<exists>p \<in> set (cr_prefixes c). \<exists>a \<in> set (emit_atoms (rule_view_of c) (familyOf p) (Some p) []). atom_hits a f)
      \<or> hasDomains (rule_view_of c) \<and>
        ((\<exists>a \<in> set (emit_atoms (rule_view_of c) V4 None (setName i V4)). atom_hits a f)
         \<or> (\<exists>a \<in> set (emit_atoms (rule_view_of c) V6 None (setName i V6)). atom_hits a f))"
      using False by (auto simp: build_atoms_def any)
    also have "\<dots> \<longleftrightarrow> ?common \<and> ((\<exists>p \<in> set (cr_prefixes c). Prefix_Contains p (fl_dst f))
       \<or> hasDomains (rule_view_of c) \<and> fl_name f \<noteq> [] \<and> covers_name c (fl_name f))"
      unfolding em using fam sets sn by (simp only: option.case) blast
    also have "\<dots> \<longleftrightarrow> ?common \<and> ((\<exists>p \<in> set (cr_prefixes c). Prefix_Contains p (fl_dst f))
       \<or> fl_name f \<noteq> [] \<and> covers_name c (fl_name f))"
      using none dom by blast
    finally show ?thesis using False by blast
  qed
  moreover have "rule_hits c (dest_of f) \<longleftrightarrow> ?common \<and> (cr_anyHost c
       \<or> (\<exists>p \<in> set (cr_prefixes c). Prefix_Contains p (fl_dst f))
       \<or> fl_name f \<noteq> [] \<and> covers_name c (fl_name f))"
    unfolding rule_hits_def rule_match_iff using ip l4 by (auto simp: dest_of_def)
  ultimately show ?thesis by simp
qed

lemma build_atoms_decision:
  "a \<in> set (build_atoms i (rule_view_of c)) \<Longrightarrow> atom_decision a f = (cr_verdict c, cr_name c)"
  by (auto simp: build_atoms_def emit_atoms_def atom_decision_def rule_view_of_def split: if_splits)

text \<open>The policy's loop over numbered rules, reduced to verdict and rule name.\<close>

definition numbered_scan ::
  "(nat \<times> compiled_rule) list \<Rightarrow> flow \<Rightarrow> (verdict \<times> string) option" where
  "numbered_scan rs f =
     map_option (\<lambda>dc. (dc_Verdict dc, dc_Rule dc)) (eval_rules (map snd rs) (dest_of f))"

interpretation plan_expansion:
  match_expansion numbered_scan
    "\<lambda>ic f. rule_hits (snd ic) (dest_of f)" "\<lambda>ic f. (cr_verdict (snd ic), cr_name (snd ic))"
    chain_scan atom_hits atom_decision
    "\<lambda>ic. build_atoms (fst ic) (rule_view_of (snd ic))" flow_ok
proof unfold_locales
  fix f r rs
  show "numbered_scan [] f = None" by (simp add: numbered_scan_def)
  show "numbered_scan (r # rs) f =
      (if rule_hits (snd r) (dest_of f) then Some (cr_verdict (snd r), cr_name (snd r))
       else numbered_scan rs f)"
    by (simp add: numbered_scan_def policy_scan.scan_Cons rule_decision_def
        del: eval_rules.simps)
  show "flow_ok r f \<Longrightarrow> (\<exists>a \<in> set (build_atoms (fst r) (rule_view_of (snd r))). atom_hits a f)
      \<longleftrightarrow> rule_hits (snd r) (dest_of f)"
    using build_atoms_hits[of "fst r" "snd r" f] by simp
  show "a \<in> set (build_atoms (fst r) (rule_view_of (snd r))) \<Longrightarrow>
      atom_decision a f = (cr_verdict (snd r), cr_name (snd r))" for a
    by (rule build_atoms_decision)
qed

lemma Build_atoms_scan:
  assumes "\<And>i. i < length (ps_rules s) \<Longrightarrow> flow_ok (i, ps_rules s ! i) f"
  shows "chain_scan (pn_Atoms (Build s)) f = numbered_scan (enumerate 0 (ps_rules s)) f"
proof -
  have "pn_Atoms (Build s) =
      concat (map (\<lambda>ic. build_atoms (fst ic) (rule_view_of (snd ic))) (enumerate 0 (ps_rules s)))"
    by (simp add: Build_def Let_def Set_Rules_def enumerate_map case_prod_unfold comp_def)
  also have "chain_scan \<dots> f = numbered_scan (enumerate 0 (ps_rules s)) f"
    by (rule plan_expansion.scan_expand) (auto simp: in_set_enumerate_eq assms)
  finally show ?thesis .
qed

lemma chain_scan_name: "chain_scan as (f\<lparr>fl_name := n\<rparr>) = chain_scan as f"
proof (induction as)
  case (Cons a as)
  have "atom_hits a (f\<lparr>fl_name := n\<rparr>) = atom_hits a f"
    by (cases "at_Prefix a") (simp_all add: atom_hits_def)
  with Cons show ?case by (simp add: atom_decision_def)
qed simp

section \<open>Properties\<close>

lemma policy_decides_plan:
  assumes "Compile p = Inr s"
    and "IsValid (fl_dst f)" and "\<not> Is4In6 (fl_dst f)"
    and "fl_l4 f = ''tcp'' \<or> fl_l4 f = ''udp''"
    and "TrimChar (fl_cgroup f) (CHR ''/'') = fl_cgroup f"
    and "\<forall>i < length (ps_rules s).
          fl_sets f (SetFor i (fl_dst f)) (fl_dst f) \<longleftrightarrow> i \<in> set (DomainRules s (fl_name f))"
  shows "plan_decision (Build s) f =
    (dc_Verdict (Evaluate s (dest_of f)), dc_Rule (Evaluate s (dest_of f)))"
proof -
  let ?f = "f\<lparr>fl_name := NormalizeDomain (fl_name f)\<rparr>"
  have wf: "rule_wf (ps_rules s ! i)" if "i < length (ps_rules s)" for i
    using Compile_wf[OF assms(1)] that by simp
  have nn: "covers_name c n \<Longrightarrow> n \<noteq> []" if "rule_wf c" for c n
    using that by (auto simp: rule_wf_def covers_name_def list_all_iff list_ex_iff HasSuffix_iff HasPrefix_iff)
  have "flow_ok (i, ps_rules s ! i) ?f" if "i < length (ps_rules s)" for i
    using that assms(2-6) wf[OF that] nn[OF wf[OF that]]
    by (auto simp: flow_ok_def DomainRules_def domain_rules_from_filter)
  then have "chain_scan (pn_Atoms (Build s)) ?f = numbered_scan (enumerate 0 (ps_rules s)) ?f"
    by (rule Build_atoms_scan)
  moreover have "dest_of ?f = normalize_dest (dest_of f)"
    using assms(4,5) by (auto simp: dest_of_def normalize_dest_def ToLower_def ascii_lower_def of_char_of)
  ultimately show ?thesis
    by (cases "ps_def s")
       (auto simp: plan_decision_def chain_scan_name numbered_scan_def Evaluate_def Build_def Let_def
        split: option.splits)
qed

text \<open>
  C5: for a compiled policy, the atoms of the plan read in order give a packet the verdict and
  the rule name that \<open>Evaluate\<close> gives its destination, provided the timeout sets agree with
  the DNS attribution: rule \<open>i\<close>'s set of the packet's family holds the address exactly when
  \<open>DomainRules\<close> lists \<open>i\<close> for the name attributed to it.
\<close>

theorem Build_decides:
  assumes "Compile p = Inr s"
    and "IsValid (fl_dst f)" and "\<not> Is4In6 (fl_dst f)"
    and "fl_l4 f = ''tcp'' \<or> fl_l4 f = ''udp''"
    and "TrimChar (fl_cgroup f) (CHR ''/'') = fl_cgroup f"
    and "\<forall>i < length (ps_rules s).
          fl_sets f (SetFor i (fl_dst f)) (fl_dst f) \<longleftrightarrow> i \<in> set (DomainRules s (fl_name f))"
  shows "plan_decision (Build s) f =
    (dc_Verdict (Evaluate s (dest_of f)), dc_Rule (Evaluate s (dest_of f)))"
  using assms by (rule policy_decides_plan)

lemma Build_decides_witness:
  "\<exists>s f. Compile example_policy = Inr s \<and> fl_dst f = Addr4 0x05060708
     \<and> plan_decision (Build s) f = (Allow, ''web'')"
proof -
  note s = example_compiles
  let ?f = "\<lparr>fl_dst = Addr4 0x05060708, fl_l4 = ''tcp'', fl_port = 443, fl_cgroup = ''b.slice'',
    fl_name = ''Api.ok.io'', fl_sets = (\<lambda>n a. n = ''r1_v4'' \<and> a = Addr4 0x05060708)\<rparr>"
  have l: "length (ps_rules example_set) = 2" by (simp add: example_set_def)
  have d: "DomainRules example_set ''Api.ok.io'' = [1]" by code_simp
  have n: "SetFor 0 (Addr4 0x05060708) = ''r0_v4''" "SetFor 1 (Addr4 0x05060708) = ''r1_v4''" by code_simp+
  have "i = 0 \<or> i = 1" if "i < 2" for i :: nat using that by auto
  then have "\<forall>i < length (ps_rules example_set). fl_sets ?f (SetFor i (fl_dst ?f)) (fl_dst ?f)
      \<longleftrightarrow> i \<in> set (DomainRules example_set (fl_name ?f))"
    using n by (fastforce simp: l d)
  then have "plan_decision (Build example_set) ?f =
     (dc_Verdict (Evaluate example_set (dest_of ?f)), dc_Rule (Evaluate example_set (dest_of ?f)))"
    by (intro Build_decides[OF s]) (simp_all add: TrimChar_id)
  moreover have "dc_Verdict (Evaluate example_set (dest_of ?f)) = Allow"
    "dc_Rule (Evaluate example_set (dest_of ?f)) = ''web''"
    by code_simp+
  ultimately have "plan_decision (Build example_set) ?f = (Allow, ''web'')" by simp
  with s show ?thesis by (intro exI[of _ example_set] exI[of _ ?f] conjI) simp_all
qed

lemma parsePortRange_portText:
  assumes "0 < pr_lo r" and "pr_lo r \<le> pr_hi r"
  shows "parsePortRange (portText r) = Inr r"
proof -
  have no: "CHR ''-'' \<notin> set (itoa n)" for n
    using itoa_no_char[of "CHR ''-''" n] by auto
  have u: "ParseUint (itoa (unat p)) 10 16 = Some (unat p)" for p :: u16
    using unsigned_less[of p, where 'a = nat] by (simp add: ParseUint_itoa)
  have g: "TrimSpace (itoa a @ CHR ''-'' # itoa b) = itoa a @ CHR ''-'' # itoa b" for a b
    by (rule TrimSpace_graphic)
       (use graphic_itoa[of "hd (itoa a)" a] graphic_itoa[of "last (itoa b)" b] in simp)
  have nz: "unat (pr_lo r) \<noteq> 0" "unat (pr_hi r) \<noteq> 0" "\<not> unat (pr_hi r) < unat (pr_lo r)"
    using assms by (auto simp: unat_eq_0 word_le_nat_alt word_less_nat_alt)
  show ?thesis
  proof (cases "pr_lo r = pr_hi r")
    case True
    then show ?thesis
      using nz by (cases r) (simp add: portText_def parsePortRange_def str_Cut_char_None[OF no] u)
  next
    case False
    then show ?thesis
      using nz by (cases r) (simp add: portText_def parsePortRange_def g str_Cut_char[OF no] u)
  qed
qed

text \<open>
  Every port entry that compiles denotes a non-empty range of non-zero ports, and the text
  \<open>portText\<close> prints for it, in the ruleset and in a learned policy, parses back to the same range.
\<close>

theorem portText_roundtrip:
  assumes "parsePortRange s = Inr pr"
  shows "0 < pr_lo pr \<and> pr_lo pr \<le> pr_hi pr \<and> parsePortRange (portText pr) = Inr pr"
  using parsePortRange_InrD[OF assms] parsePortRange_portText by blast

lemma portText_roundtrip_witness:
  "parsePortRange '' 80 -90 '' = Inr (PortRange 80 90)
     \<and> parsePortRange (portText (PortRange 80 90)) = Inr (PortRange 80 90)"
proof -
  have "parsePortRange '' 80 -90 '' = Inr (PortRange 80 90)" by code_simp
  then show ?thesis using portText_roundtrip by blast
qed

text \<open>
  The log prefix of any rule name fits the kernel's 127 bytes: a longer one is cut, keeping
  its first 117 bytes, so that it never exceeds 121.
\<close>

theorem LogPrefix_fits:
  "length (LogPrefix rule) \<le> maxPrefix + 1 \<and> length (LogPrefix rule) < 127
   \<and> HasPrefix (LogPrefix rule) ''egresswall de''
   \<and> (rule \<noteq> [] \<longrightarrow> length rule \<le> 101 \<longrightarrow> LogPrefix rule = ''egresswall deny['' @ rule @ '']: '')"
  by (auto simp: LogPrefix_def Let_def maxPrefix_def HasPrefix_def)

lemma LogPrefix_fits_witness:
  "LogPrefix ''web'' = ''egresswall deny[web]: ''"
  using LogPrefix_fits[of "''web''"] by simp

text \<open>Names of the timeout sets.\<close>

lemma setName_inj:
  assumes "setName i f = setName j g" and "f \<noteq> AnyFamily" and "g \<noteq> AnyFamily"
  shows "i = j \<and> f = g"
proof -
  have us: "CHR ''_'' \<notin> set (itoa n)" for n
    using itoa_no_char[of "CHR ''_''" n] by auto
  have "takeWhile (\<lambda>c. c \<noteq> CHR ''_'') (itoa n @ CHR ''_'' # t) = itoa n" for n t
    using us by (rule takeWhile_no)
  then have "itoa i = itoa j"
    using arg_cong[OF assms(1), of "\<lambda>s. takeWhile (\<lambda>c. c \<noteq> CHR ''_'') (tl s)"]
    by (auto simp: setName_def split: if_splits)
  moreover from this have "f = g"
    using assms by (cases f; cases g) (simp_all add: setName_def)
  ultimately show ?thesis using itoa_inj by blast
qed

definition set_pair :: "nat \<Rightarrow> family \<Rightarrow> set_def" where
  "set_pair i f = \<lparr>sd_Name = setName i f, sd_Family = f, sd_Rule = i\<rparr>"

lemma build_sets_eq:
  "build_sets i r = (if hasDomains r then [set_pair i V4, set_pair i V6] else [])"
  by (simp add: build_sets_def set_pair_def)

lemma in_Build_sets:
  "sd \<in> set (pn_Sets (Build s)) \<longleftrightarrow>
     (\<exists>i < length (ps_rules s). hasDomains (rule_view_of (ps_rules s ! i))
        \<and> (sd = set_pair i V4 \<or> sd = set_pair i V6))"
  by (fastforce simp: Build_def Let_def build_sets_eq Set_Rules_def in_set_enumerate_eq
      split: if_splits)

lemma distinct_sets:
  "distinct (map sd_Name (concat (map (\<lambda>(i, r). build_sets i r) (enumerate k rs))))
   \<and> (\<forall>sd \<in> set (concat (map (\<lambda>(i, r). build_sets i r) (enumerate k rs))).
        \<exists>i \<ge> k. sd = set_pair i V4 \<or> sd = set_pair i V6)"
proof (induction rs arbitrary: k)
  case (Cons r rs)
  obtain rest where e: "rest = concat (map (\<lambda>(i, r). build_sets i r) (enumerate (Suc k) rs))"
    by blast
  have r: "\<exists>i > k. sd = set_pair i V4 \<or> sd = set_pair i V6" if "sd \<in> set rest" for sd
    using Cons.IH[of "Suc k"] that unfolding e by (meson Suc_le_eq)
  then have n: "setName k f \<notin> sd_Name ` set rest" if "f = V4 \<or> f = V6" for f
    using that setName_inj[of k f] by (fastforce simp: set_pair_def)
  have "setName k V4 \<notin> sd_Name ` set rest" "setName k V6 \<notin> sd_Name ` set rest"
    by (rule n; simp)+
  moreover have "setName k V4 \<noteq> setName k V6" using setName_inj[of k V4 k V6] by auto
  moreover have "distinct (map sd_Name rest)" using Cons.IH unfolding e by blast
  ultimately have "distinct (map sd_Name (build_sets k r @ rest))"
    by (auto simp: build_sets_eq set_pair_def)
  moreover have "\<forall>sd \<in> set (build_sets k r @ rest). \<exists>i \<ge> k. sd = set_pair i V4 \<or> sd = set_pair i V6"
  proof
    fix sd assume "sd \<in> set (build_sets k r @ rest)"
    then consider "sd = set_pair k V4 \<or> sd = set_pair k V6" | "sd \<in> set rest"
      by (auto simp: build_sets_eq split: if_splits)
    then show "\<exists>i \<ge> k. sd = set_pair i V4 \<or> sd = set_pair i V6"
      by cases (use r in \<open>blast intro: less_imp_le\<close>)+
  qed
  ultimately show ?case by (simp add: e)
qed simp

lemma Build_sets_declared:
  assumes "Compile p = Inr s"
  shows "distinct (map sd_Name (pn_Sets (Build s)))
    \<and> (\<forall>a \<in> set (pn_Atoms (Build s)). at_Set a \<noteq> [] \<longrightarrow>
         (\<exists>sd \<in> set (pn_Sets (Build s)). sd_Name sd = at_Set a \<and> sd_Family sd = at_Family a))
    \<and> (\<forall>i \<in> set (DomainRules s name). \<exists>sd \<in> set (pn_Sets (Build s)).
         sd_Name sd = SetFor i ip \<and> sd_Rule sd = i
         \<and> sd_Family sd = (if Is4 (Unmap ip) then V4 else V6))"
proof (intro conjI ballI impI)
  show "distinct (map sd_Name (pn_Sets (Build s)))"
    using distinct_sets[of 0 "Set_Rules s"] by (simp add: Build_def Let_def)
next
  fix a assume "a \<in> set (pn_Atoms (Build s))" and st: "at_Set a \<noteq> []"
  then obtain i where i: "i < length (ps_rules s)"
      and a: "a \<in> set (build_atoms i (rule_view_of (ps_rules s ! i)))"
    by (auto simp: Build_def Let_def Set_Rules_def in_set_enumerate_eq)
  with st have "hasDomains (rule_view_of (ps_rules s ! i))"
    "\<exists>f \<in> {V4, V6}. at_Set a = setName i f \<and> at_Family a = f"
    by (auto simp: build_atoms_def emit_atoms_def split: if_splits)
  with i show "\<exists>sd \<in> set (pn_Sets (Build s)). sd_Name sd = at_Set a \<and> sd_Family sd = at_Family a"
    unfolding Bex_def in_Build_sets
    by (intro exI[of _ "set_pair i (at_Family a)"]) (auto simp: set_pair_def)
next
  fix i assume "i \<in> set (DomainRules s name)"
  then have i: "i < length (ps_rules s)" and c: "covers_name (ps_rules s ! i) (NormalizeDomain name)"
    by (auto simp: DomainRules_def domain_rules_from_filter)
  from i have "rule_wf (ps_rules s ! i)" using Compile_wf[OF assms] by simp
  with c have "hasDomains (rule_view_of (ps_rules s ! i))"
    by (auto simp: hasDomains_def rule_view_of_def covers_name_def rule_wf_def)
  with i show "\<exists>sd \<in> set (pn_Sets (Build s)). sd_Name sd = SetFor i ip \<and> sd_Rule sd = i
         \<and> sd_Family sd = (if Is4 (Unmap ip) then V4 else V6)"
    unfolding Bex_def in_Build_sets
    by (intro exI[of _ "set_pair i (if Is4 (Unmap ip) then V4 else V6)"])
       (auto simp: set_pair_def SetFor_def)
qed

text \<open>
  The sets and atoms of a plan fit together: set names are distinct, every atom that looks
  up a set looks up one the plan declares for the atom's own family, and for every rule whose
  domains cover a name the set an address of that name is fed into is declared, for that rule
  and the address's family.
\<close>

theorem Build_sets_wf:
  assumes "Compile p = Inr s"
  shows "distinct (map sd_Name (pn_Sets (Build s)))
    \<and> (\<forall>a \<in> set (pn_Atoms (Build s)). at_Set a \<noteq> [] \<longrightarrow>
         (\<exists>sd \<in> set (pn_Sets (Build s)). sd_Name sd = at_Set a \<and> sd_Family sd = at_Family a))
    \<and> (\<forall>i \<in> set (DomainRules s name). \<exists>sd \<in> set (pn_Sets (Build s)).
         sd_Name sd = SetFor i ip \<and> sd_Rule sd = i
         \<and> sd_Family sd = (if Is4 (Unmap ip) then V4 else V6))"
  by (rule Build_sets_declared[OF assms])

lemma Build_sets_wf_witness:
  "distinct (map sd_Name (pn_Sets (Build example_set)))
   \<and> (\<exists>sd \<in> set (pn_Sets (Build example_set)). sd_Name sd = ''r1_v4'' \<and> sd_Rule sd = 1)"
proof -
  have "1 \<in> set (DomainRules example_set ''ok.io'')" "SetFor 1 (Addr4 7) = ''r1_v4''" by code_simp+
  then show ?thesis
    using Build_sets_wf[OF example_compiles, of "''ok.io''" "Addr4 7"] by fastforce
qed

end
