(* ===== verification/Nft_Apply.thy ===== *)
theory Nft_Apply
  imports Nft_Plan
begin

text \<open>
  \<^verbatim>\<open>internal/nft/apply_linux.go\<close>: the netlink expressions of every rule, the batch that replaces
  the table, and the later updates. The netlink library and the kernel behind it
  (\<^verbatim>\<open>github.com/google/nftables\<close>), the file system and the byte order of the machine are the
  fields of an environment record; \<open>'k\<close> is the kernel's state and \<open>'e\<close> the errors of the library.
  Every expression of the code works on register 1, which is left out, and a lookup names its set
  (the library adds the batch-local id of the same set).
\<close>

section \<open>Expressions and batches\<close>

datatype meta_key = MetaOIFNAME | MetaNFPROTO | MetaL4PROTO

datatype payload_base = NetworkHeader | TransportHeader

datatype cmp_op = CmpEq | CmpNeq

datatype expr =
    ExMeta meta_key
  | ExCtState
  | ExSocketCgroup nat
  | ExPayload payload_base nat nat
  | ExBitwise nat bytes bytes
  | ExCmp cmp_op bytes
  | ExRange bytes bytes
  | ExLookup string
  | ExLog string
  | ExRejectAdminProhibited
  | ExAccept

datatype key_type = KeyIPAddr | KeyIP6Addr | KeyInetProto

record nft_set =
  ns_Name :: string
  ns_KeyType :: key_type
  ns_HasTimeout :: bool
  ns_Anonymous :: bool
  ns_Constant :: bool

record set_element =
  el_Key :: bytes
  el_Timeout :: duration

datatype chain_hook = HookOutput | HookForward
datatype chain_policy = PolicyAccept | PolicyDrop

datatype op =
    OpDelTable string
  | OpAddTable string
  | OpAddSet nft_set "set_element list"
  | OpAddChain string chain_hook chain_policy
  | OpAddRule string "expr list"
  | OpSetAddElements string "set_element list"

section \<open>Environment, handle and errors\<close>

datatype 'e stat_result = StatNotExist | StatFailed 'e | StatNoInode | StatIno u64

text \<open>
  \<open>ev_AddSet\<close> and \<open>ev_SetAddElements\<close> are the library's own refusals to queue a message,
  \<open>ev_Flush\<close> sends a batch: the kernel's new state, or an error.
\<close>

record ('e, 'k) nft_env =
  ev_New :: "'e option"
  ev_ListTables :: "'k \<Rightarrow> 'e + string list"
  ev_AddSet :: "nft_set \<Rightarrow> 'e option"
  ev_SetAddElements :: "string \<Rightarrow> set_element list \<Rightarrow> 'e option"
  ev_Flush :: "op list \<Rightarrow> 'k \<Rightarrow> 'e + 'k"
  ev_Stat :: "string \<Rightarrow> 'e stat_result"
  ev_BigEndian :: bool

record handle =
  hd_queue :: "op list"
  hd_sets :: "string \<Rightarrow> nft_set option"
  hd_anon :: nat
  hd_missing :: "string set"

datatype 'e apply_error =
    NoConn 'e
  | ListingTables 'e
  | SetRefused string 'e
  | ProtoSetRefused 'e
  | CgroupMissing
  | StatError 'e
  | NoInode string
  | UnknownSet string
  | NoSet string
  | ElementsRefused 'e
  | LoadingRuleset 'e
  | FlushFailed 'e

definition queue :: "op \<Rightarrow> handle \<Rightarrow> handle" where
  "queue x h = h\<lparr>hd_queue := hd_queue h @ [x]\<rparr>"

text \<open>\<^verbatim>\<open>binaryutil.NativeEndian\<close>.\<close>

definition native :: "bool \<Rightarrow> nat \<Rightarrow> 'a::len word \<Rightarrow> bytes" where
  "native big n w = (if big then word_bytes n w else rev (word_bytes n w))"

section \<open>Cgroups on disk\<close>

definition cgroupRoot :: string where "cgroupRoot = ''/sys/fs/cgroup''"

definition cgroupID :: "('e, 'k) nft_env \<Rightarrow> string \<Rightarrow> 'e apply_error + u64" where
  "cgroupID E path =
     (case ev_Stat E (cgroupRoot @ ''/'' @ path) of
        StatNotExist \<Rightarrow> Inl CgroupMissing
      | StatFailed e \<Rightarrow> Inl (StatError e)
      | StatNoInode \<Rightarrow> Inl (NoInode path)
      | StatIno i \<Rightarrow> Inr i)"

definition CgroupExists :: "('e, 'k) nft_env \<Rightarrow> string \<Rightarrow> bool" where
  "CgroupExists E path =
     (case ev_Stat E (cgroupRoot @ ''/'' @ path) of
        StatNotExist \<Rightarrow> False | StatFailed _ \<Rightarrow> False | StatNoInode \<Rightarrow> True | StatIno _ \<Rightarrow> True)"

definition Missing :: "handle \<Rightarrow> string list" where
  "Missing h = sorted_list_of_set (hd_missing h)"

section \<open>Expressions of a rule\<close>

definition oifPrefixAccept :: "string \<Rightarrow> expr list" where
  "oifPrefixAccept pfx = [ExMeta MetaOIFNAME, ExCmp CmpEq (map of_char pfx), ExAccept]"

definition loopbackAccept :: "expr list" where
  "loopbackAccept =
     [ExMeta MetaOIFNAME, ExCmp CmpEq (map of_char ''lo'' @ replicate 14 0), ExAccept]"

text \<open>The connection-tracking state bits ESTABLISHED and RELATED.\<close>

definition CtStateBitESTABLISHED :: u32 where "CtStateBitESTABLISHED = 2"
definition CtStateBitRELATED :: u32 where "CtStateBitRELATED = 4"

definition establishedAccept :: "bool \<Rightarrow> expr list" where
  "establishedAccept big =
     [ExCtState,
      ExBitwise 4 (native big 4 (CtStateBitESTABLISHED OR CtStateBitRELATED)) (native big 4 (0 :: u32)),
      ExCmp CmpNeq (native big 4 (0 :: u32)),
      ExAccept]"

definition refuse :: "string \<Rightarrow> expr list" where
  "refuse rule = [ExLog (LogPrefix rule), ExRejectAdminProhibited]"

definition daddrLoad :: "family \<Rightarrow> expr" where
  "daddrLoad f = (if f = V6 then ExPayload NetworkHeader 24 16 else ExPayload NetworkHeader 16 4)"

text \<open>The loop that sets the first \<open>bits\<close> bits of a mask of \<open>sz\<close> bytes.\<close>

definition prefix_mask :: "nat \<Rightarrow> nat \<Rightarrow> bytes" where
  "prefix_mask sz bits =
     foldl (\<lambda>m i. m[i div 8 := m ! (i div 8) OR drop_bit (i mod 8) 0x80]) (replicate sz 0) [0..<bits]"

definition tcpOrUDP :: "('e, 'k) nft_env \<Rightarrow> handle \<Rightarrow> 'e apply_error + (handle \<times> expr list)" where
  "tcpOrUDP E h =
     (let n = hd_anon h + 1;
          s = \<lparr>ns_Name = ''__set'' @ itoa n, ns_KeyType = KeyInetProto, ns_HasTimeout = False,
               ns_Anonymous = True, ns_Constant = True\<rparr> in
      case ev_AddSet E s of
        Some e \<Rightarrow> Inl (ProtoSetRefused e)
      | None \<Rightarrow>
          Inr (queue (OpAddSet s [\<lparr>el_Key = [6], el_Timeout = 0\<rparr>, \<lparr>el_Key = [17], el_Timeout = 0\<rparr>])
                 (h\<lparr>hd_anon := n\<rparr>),
               [ExMeta MetaL4PROTO, ExLookup (ns_Name s)]))"

text \<open>The blocks of \<^verbatim>\<open>atomExprs\<close>, in its order.\<close>

definition cgroup_exprs :: "('e, 'k) nft_env \<Rightarrow> atom \<Rightarrow> 'e apply_error + expr list" where
  "cgroup_exprs E a =
     (if at_Cgroup a \<noteq> [] then
        (case cgroupID E (at_Cgroup a) of
           Inl e \<Rightarrow> Inl e
         | Inr i \<Rightarrow> Inr [ExSocketCgroup (CgroupLevel (at_Cgroup a)),
                         ExCmp CmpEq (native (ev_BigEndian E) 8 i)])
      else Inr [])"

definition family_exprs :: "atom \<Rightarrow> expr list" where
  "family_exprs a =
     (if at_Family a \<noteq> AnyFamily then
        [ExMeta MetaNFPROTO, ExCmp CmpEq [if at_Family a = V6 then 10 else 2]]
      else [])"

definition addr_exprs :: "handle \<Rightarrow> atom \<Rightarrow> 'e apply_error + expr list" where
  "addr_exprs h a =
     (case at_Prefix a of
        Some p \<Rightarrow>
          (let bits = pfx_Bits p; sz = (if at_Family a = V6 then 16 else 4) in
           Inr ([daddrLoad (at_Family a)]
             @ (if bits < sz * 8 then
                  [ExBitwise sz (prefix_mask sz bits) (replicate sz 0)] else [])
             @ [ExCmp CmpEq (AsSlice (pfx_Addr (Masked p)))]))
      | None \<Rightarrow>
          if at_Set a \<noteq> [] then
            (case hd_sets h (at_Set a) of
               None \<Rightarrow> Inl (UnknownSet (at_Set a))
             | Some s \<Rightarrow> Inr [daddrLoad (at_Family a), ExLookup (ns_Name s)])
          else Inr [])"

definition proto_exprs ::
  "('e, 'k) nft_env \<Rightarrow> handle \<Rightarrow> atom \<Rightarrow> 'e apply_error + (handle \<times> expr list)" where
  "proto_exprs E h a =
     (if at_Proto a \<noteq> [] then
        Inr (h, [ExMeta MetaL4PROTO, ExCmp CmpEq [if at_Proto a = ''udp'' then 17 else 6]])
      else if pr_hi (at_Port a) \<noteq> 0 then tcpOrUDP E h
      else Inr (h, []))"

definition port_exprs :: "atom \<Rightarrow> expr list" where
  "port_exprs a =
     (if pr_hi (at_Port a) \<noteq> 0 then
        [ExPayload TransportHeader 2 2,
         if pr_lo (at_Port a) = pr_hi (at_Port a) then ExCmp CmpEq (be16 (pr_lo (at_Port a)))
         else ExRange (be16 (pr_lo (at_Port a))) (be16 (pr_hi (at_Port a)))]
      else [])"

definition verdict_exprs :: "atom \<Rightarrow> expr list" where
  "verdict_exprs a = (if at_Verdict a = Allow then [ExAccept] else refuse (at_Rule a))"

definition atomExprs ::
  "('e, 'k) nft_env \<Rightarrow> handle \<Rightarrow> atom \<Rightarrow> 'e apply_error + (handle \<times> expr list)" where
  "atomExprs E h a =
     (case cgroup_exprs E a of
        Inl e \<Rightarrow> Inl e
      | Inr cg \<Rightarrow>
          (case addr_exprs h a of
             Inl e \<Rightarrow> Inl e
           | Inr ad \<Rightarrow>
               (case proto_exprs E h a of
                  Inl e \<Rightarrow> Inl e
                | Inr (h, pr) \<Rightarrow>
                    Inr (h, cg @ family_exprs a @ ad @ pr @ port_exprs a @ verdict_exprs a))))"

section \<open>Loading a plan\<close>

definition h_rule :: "string \<Rightarrow> expr list \<Rightarrow> handle \<Rightarrow> handle" where
  "h_rule chain exprs h = queue (OpAddRule chain exprs) h"

definition housekeeping_atom :: "ip_prefix \<Rightarrow> atom" where
  "housekeeping_atom pfx =
     \<lparr>at_Family = familyOf pfx, at_Proto = [], at_Port = PortRange 0 0, at_Prefix = Some pfx,
      at_Set = [], at_Cgroup = [], at_Verdict = Allow, at_Rule = []\<rparr>"

text \<open>One turn of each loop of \<^verbatim>\<open>chainBody\<close>.\<close>

definition housekeeping_step ::
  "('e, 'k) nft_env \<Rightarrow> string \<Rightarrow> ip_prefix \<Rightarrow> handle \<Rightarrow> 'e apply_error + handle" where
  "housekeeping_step E chain pfx h =
     (case atomExprs E h (housekeeping_atom pfx) of
        Inl e \<Rightarrow> Inl e
      | Inr (h, exprs) \<Rightarrow> Inr (h_rule chain exprs h))"

definition atom_step ::
  "('e, 'k) nft_env \<Rightarrow> string \<Rightarrow> bool \<Rightarrow> atom \<Rightarrow> handle \<Rightarrow> 'e apply_error + handle" where
  "atom_step E chain forward a h =
     (if \<not> inChain a forward then Inr h
      else
        case atomExprs E h a of
          Inl CgroupMissing \<Rightarrow> Inr (h\<lparr>hd_missing := insert (at_Cgroup a) (hd_missing h)\<rparr>)
        | Inl e \<Rightarrow> Inl e
        | Inr (h, exprs) \<Rightarrow> Inr (h_rule chain exprs h))"

definition chainBody ::
  "('e, 'k) nft_env \<Rightarrow> string \<Rightarrow> plan \<Rightarrow> bool \<Rightarrow> handle \<Rightarrow> 'e apply_error + handle" where
  "chainBody E chain p forward h =
     (case fold_res (housekeeping_step E chain) housekeeping
             (h_rule chain (establishedAccept (ev_BigEndian E)) h) of
        Inl e \<Rightarrow> Inl e
      | Inr h \<Rightarrow>
          (case fold_res (atom_step E chain forward) (pn_Atoms p) h of
             Inl e \<Rightarrow> Inl e
           | Inr h \<Rightarrow>
               Inr (if pn_DefaultDeny p then h_rule chain (refuse []) h else h)))"

definition deleteTable ::
  "('e, 'k) nft_env \<Rightarrow> 'k \<Rightarrow> handle \<Rightarrow> 'e apply_error + handle" where
  "deleteTable E k h =
     (case ev_ListTables E k of
        Inl e \<Rightarrow> Inl (ListingTables e)
      | Inr ts \<Rightarrow>
          Inr (fold (\<lambda>t h. if t = TableName then queue (OpDelTable t) h else h) ts h))"

definition def_set :: "set_def \<Rightarrow> nft_set" where
  "def_set d =
     \<lparr>ns_Name = sd_Name d, ns_KeyType = (if sd_Family d = V6 then KeyIP6Addr else KeyIPAddr),
      ns_HasTimeout = True, ns_Anonymous = False, ns_Constant = False\<rparr>"

definition set_step :: "('e, 'k) nft_env \<Rightarrow> set_def \<Rightarrow> handle \<Rightarrow> 'e apply_error + handle" where
  "set_step E d h =
     (let s = def_set d in
      case ev_AddSet E s of
        Some e \<Rightarrow> Inl (SetRefused (sd_Name d) e)
      | None \<Rightarrow> Inr ((queue (OpAddSet s []) h)\<lparr>hd_sets := (hd_sets h)(sd_Name d \<mapsto> s)\<rparr>))"

definition new_handle :: handle where
  "new_handle = \<lparr>hd_queue = [], hd_sets = (\<lambda>_. None), hd_anon = 0, hd_missing = {}\<rparr>"

text \<open>The forward chain, when the plan asks for it.\<close>

definition forward_chain ::
  "('e, 'k) nft_env \<Rightarrow> chain_policy \<Rightarrow> plan \<Rightarrow> handle \<Rightarrow> 'e apply_error + handle" where
  "forward_chain E pol p h =
     (if pn_Forward p then
        chainBody E ForwardChain p True
          (fold (\<lambda>pfx. h_rule ForwardChain (oifPrefixAccept pfx)) bridgePrefixes
            (queue (OpAddChain ForwardChain HookForward pol) h))
      else Inr h)"

text \<open>
  \<^verbatim>\<open>Apply\<close> up to \<^verbatim>\<open>conn.Flush\<close>: the handle with the whole batch queued.
\<close>

definition Apply_batch :: "('e, 'k) nft_env \<Rightarrow> plan \<Rightarrow> 'k \<Rightarrow> 'e apply_error + handle" where
  "Apply_batch E p k =
     (case ev_New E of
        Some e \<Rightarrow> Inl (NoConn e)
      | None \<Rightarrow>
          (case deleteTable E k new_handle of
             Inl e \<Rightarrow> Inl e
           | Inr h \<Rightarrow>
               (case fold_res (set_step E) (pn_Sets p) (queue (OpAddTable TableName) h) of
                  Inl e \<Rightarrow> Inl e
                | Inr h \<Rightarrow>
                    (let pol = (if pn_DefaultDeny p then PolicyDrop else PolicyAccept) in
                     case chainBody E ChainName p False
                            (h_rule ChainName loopbackAccept
                              (queue (OpAddChain ChainName HookOutput pol) h)) of
                       Inl e \<Rightarrow> Inl e
                     | Inr h \<Rightarrow> forward_chain E pol p h))))"

definition Apply ::
  "('e, 'k) nft_env \<Rightarrow> plan \<Rightarrow> 'k \<Rightarrow> ('e apply_error + handle) \<times> 'k" where
  "Apply E p k =
     (case Apply_batch E p k of
        Inl e \<Rightarrow> (Inl e, k)
      | Inr h \<Rightarrow>
          (case ev_Flush E (hd_queue h) k of
             Inl e \<Rightarrow> (Inl (LoadingRuleset e), k)
           | Inr k' \<Rightarrow> (Inr (h\<lparr>hd_queue := []\<rparr>), k')))"

section \<open>Updates\<close>

text \<open>
  \<^verbatim>\<open>AddAddrs\<close>: the first loop groups the elements by set and fails on an unknown set before
  anything is queued; the second goes over the groups in the order \<open>ord\<close> of the map iteration.
\<close>

fun group_adds ::
  "handle \<Rightarrow> set_add list \<Rightarrow> (string \<Rightarrow> set_element list) \<Rightarrow>
     'e apply_error + (string \<Rightarrow> set_element list)" where
  "group_adds h [] g = Inr g"
| "group_adds h (a # as) g =
     (case hd_sets h (ad_Set a) of
        None \<Rightarrow> Inl (NoSet (ad_Set a))
      | Some _ \<Rightarrow>
          group_adds h as (g(ad_Set a := g (ad_Set a) @
            [\<lparr>el_Key = AsSlice (Unmap (ad_IP a)), el_Timeout = ad_TTL a\<rparr>])))"

fun add_groups ::
  "('e, 'k) nft_env \<Rightarrow> (string \<Rightarrow> set_element list) \<Rightarrow> string list \<Rightarrow> handle \<Rightarrow>
     'e apply_error option \<times> handle" where
  "add_groups E g [] h = (None, h)"
| "add_groups E g (name # names) h =
     (case ev_SetAddElements E name (g name) of
        Some e \<Rightarrow> (Some (ElementsRefused e), h)
      | None \<Rightarrow> add_groups E g names (queue (OpSetAddElements name (g name)) h))"

definition AddAddrs ::
  "('e, 'k) nft_env \<Rightarrow> (string list \<Rightarrow> string list) \<Rightarrow> handle \<Rightarrow> set_add list \<Rightarrow> 'k \<Rightarrow>
     'e apply_error option \<times> handle \<times> 'k" where
  "AddAddrs E ord h adds k =
     (if adds = [] then (None, h, k)
      else
        case group_adds h adds (\<lambda>_. []) of
          Inl e \<Rightarrow> (Some e, h, k)
        | Inr g \<Rightarrow>
            (case add_groups E g (ord (remdups (map ad_Set adds))) h of
               (Some e, h) \<Rightarrow> (Some e, h, k)
             | (None, h) \<Rightarrow>
                 (case ev_Flush E (hd_queue h) k of
                    Inl e \<Rightarrow> (Some (FlushFailed e), h\<lparr>hd_queue := []\<rparr>, k)
                  | Inr k' \<Rightarrow> (None, h\<lparr>hd_queue := []\<rparr>, k'))))"

definition Close :: "('e, 'k) nft_env \<Rightarrow> handle \<Rightarrow> 'k \<Rightarrow> 'e apply_error option \<times> 'k" where
  "Close E h k =
     (case ev_Flush E (hd_queue h @ [OpDelTable TableName]) k of
        Inl e \<Rightarrow> (Some (FlushFailed e), k)
      | Inr k' \<Rightarrow> (None, k'))"

definition Remove :: "('e, 'k) nft_env \<Rightarrow> 'k \<Rightarrow> (bool \<times> 'e apply_error option) \<times> 'k" where
  "Remove E k =
     (case ev_New E of
        Some e \<Rightarrow> ((False, Some (NoConn e)), k)
      | None \<Rightarrow>
          (case ev_ListTables E k of
             Inl e \<Rightarrow> ((False, Some (ListingTables e)), k)
           | Inr ts \<Rightarrow>
               if TableName \<in> set ts then
                 (case ev_Flush E [OpDelTable TableName] k of
                    Inl e \<Rightarrow> ((True, Some (FlushFailed e)), k)
                  | Inr k' \<Rightarrow> ((True, None), k'))
               else ((False, None), k)))"

section \<open>What each step does to the handle\<close>

text \<open>
  \<open>grows P M h h'\<close>: the step from \<open>h\<close> to \<open>h'\<close> appended operations that satisfy \<open>P\<close>, noted the
  cgroups \<open>M\<close> as missing and left the table of sets alone.
\<close>

definition grows :: "(op \<Rightarrow> bool) \<Rightarrow> string set \<Rightarrow> handle \<Rightarrow> handle \<Rightarrow> bool" where
  "grows P M h h' \<longleftrightarrow>
     (\<exists>new. hd_queue h' = hd_queue h @ new \<and> list_all P new)
     \<and> hd_missing h' = hd_missing h \<union> M \<and> hd_sets h' = hd_sets h"

lemma grows_refl: "grows P {} h h"
  by (simp add: grows_def)

lemma grows_trans: "grows P M h h1 \<Longrightarrow> grows P N h1 h2 \<Longrightarrow> grows P (M \<union> N) h h2"
  by (auto simp: grows_def)

lemma grows_queue: "P x \<Longrightarrow> grows P {} h (queue x h)"
  by (simp add: grows_def queue_def)

lemma grows_fold:
  assumes "fold_res step xs h = Inr h'"
    and "\<And>x h h1. x \<in> set xs \<Longrightarrow> step x h = Inr h1 \<Longrightarrow> grows P (M x) h h1"
  shows "grows P (\<Union> (M ` set xs)) h h'"
  using assms
proof (induction xs arbitrary: h)
  case Nil
  then show ?case by (simp add: grows_refl)
next
  case (Cons x xs)
  then obtain h1 where h1: "step x h = Inr h1" "fold_res step xs h1 = Inr h'"
    by (auto split: sum.splits)
  then show ?case
    using grows_trans[of P "M x" h h1 "\<Union> (M ` set xs)" h'] Cons by simp
qed

text \<open>Operations that belong to a table being built; only the anonymous sets start with elements.\<close>

fun builds :: "op \<Rightarrow> bool" where
  "builds (OpAddSet s els) = (els = [] \<or> HasPrefix (ns_Name s) ''__set'')"
| "builds (OpAddChain c hook pol) = True"
| "builds (OpAddRule c xs) = True"
| "builds _ = False"

lemma atomExprs_builds: "atomExprs E h a = Inr (h', xs) \<Longrightarrow> grows builds {} h h'"
  by (auto simp: atomExprs_def proto_exprs_def tcpOrUDP_def Let_def queue_def grows_def HasPrefix_def
      split: sum.splits option.splits if_splits)

lemma h_rule_builds: "grows builds {} h (h_rule c xs h)"
  by (simp add: h_rule_def grows_queue)

lemma housekeeping_step_builds: "housekeeping_step E c pfx h = Inr h' \<Longrightarrow> grows builds {} h h'"
proof -
  assume "housekeeping_step E c pfx h = Inr h'"
  then obtain h1 xs where "atomExprs E h (housekeeping_atom pfx) = Inr (h1, xs)" "h' = h_rule c xs h1"
    by (auto simp: housekeeping_step_def split: sum.splits)
  then show ?thesis
    using grows_trans[OF atomExprs_builds h_rule_builds, of E h "housekeeping_atom pfx" h1 xs c xs] by simp
qed

definition cgroup_absent :: "('e, 'k) nft_env \<Rightarrow> string \<Rightarrow> bool" where
  "cgroup_absent E path \<longleftrightarrow> path \<noteq> [] \<and> ev_Stat E (cgroupRoot @ ''/'' @ path) = StatNotExist"

lemma atomExprs_missing_iff:
  "atomExprs E h a = Inl CgroupMissing \<longleftrightarrow> cgroup_absent E (at_Cgroup a)"
proof -
  have "cgroup_exprs E a = Inl CgroupMissing \<longleftrightarrow> cgroup_absent E (at_Cgroup a)"
    by (simp add: cgroup_exprs_def cgroupID_def cgroup_absent_def split: sum.splits stat_result.splits)
  moreover have "addr_exprs h a \<noteq> (Inl CgroupMissing :: 'a apply_error + expr list)"
    by (simp add: addr_exprs_def Let_def split: option.splits)
  moreover have "proto_exprs E h a \<noteq> Inl CgroupMissing"
    by (simp add: proto_exprs_def tcpOrUDP_def Let_def split: option.splits)
  ultimately show ?thesis
    by (cases "cgroup_exprs E a"; cases "addr_exprs h a :: 'a apply_error + expr list"; cases "proto_exprs E h a")
       (auto simp: atomExprs_def)
qed

lemma atom_step_builds:
  assumes "atom_step E c forward a h = Inr h'"
  shows "grows builds (if inChain a forward \<and> cgroup_absent E (at_Cgroup a) then {at_Cgroup a} else {}) h h'"
proof (cases "inChain a forward")
  case False
  then show ?thesis using assms by (auto simp: atom_step_def grows_refl)
next
  case True
  show ?thesis
  proof (cases "atomExprs E h a")
    case (Inl e)
    then have "e = CgroupMissing" "h' = h\<lparr>hd_missing := insert (at_Cgroup a) (hd_missing h)\<rparr>"
      using assms True by (auto simp: atom_step_def split: apply_error.splits)
    with Inl True show ?thesis using atomExprs_missing_iff[of E h a] by (simp add: grows_def)
  next
    case (Inr r)
    obtain h1 xs where r: "r = (h1, xs)" by (cases r)
    have "\<not> cgroup_absent E (at_Cgroup a)" using Inr atomExprs_missing_iff[of E h a] by simp
    with assms True Inr r show ?thesis
      using grows_trans[OF atomExprs_builds h_rule_builds, of E h a h1 xs c xs] by (simp add: atom_step_def)
  qed
qed

definition absent_cgroups :: "('e, 'k) nft_env \<Rightarrow> plan \<Rightarrow> bool \<Rightarrow> string set" where
  "absent_cgroups E p forward =
     {at_Cgroup a |a. a \<in> set (pn_Atoms p) \<and> inChain a forward \<and> cgroup_absent E (at_Cgroup a)}"

lemma chainBody_builds:
  assumes "chainBody E c p forward h = Inr h'"
  shows "grows builds (absent_cgroups E p forward) h h'"
proof -
  let ?h0 = "h_rule c (establishedAccept (ev_BigEndian E)) h"
  obtain h1 h2 where h1: "fold_res (housekeeping_step E c) housekeeping ?h0 = Inr h1"
    and h2: "fold_res (atom_step E c forward) (pn_Atoms p) h1 = Inr h2"
    and h': "h' = (if pn_DefaultDeny p then h_rule c (refuse []) h2 else h2)"
    using assms by (auto simp: chainBody_def split: sum.splits)
  have g1: "grows builds {} h h1"
    using grows_trans[OF h_rule_builds grows_fold[OF h1 housekeeping_step_builds]] by simp
  have "grows builds (\<Union>a \<in> set (pn_Atoms p). if inChain a forward \<and> cgroup_absent E (at_Cgroup a)
      then {at_Cgroup a} else {}) h1 h2"
    by (rule grows_fold[OF h2]) (rule atom_step_builds)
  moreover have "(\<Union>a \<in> set (pn_Atoms p). if inChain a forward \<and> cgroup_absent E (at_Cgroup a) then {at_Cgroup a} else {})
      = absent_cgroups E p forward"
    by (auto simp: absent_cgroups_def split: if_splits)
  ultimately have g2: "grows builds (absent_cgroups E p forward) h1 h2" by simp
  have g3: "grows builds {} h2 h'" by (simp add: h' h_rule_builds grows_refl)
  show ?thesis using grows_trans[OF grows_trans[OF g1 g2] g3] by simp
qed

lemma deleteTable_queue:
  assumes "ev_ListTables E k = Inr ts"
  shows "deleteTable E k h =
    Inr (h\<lparr>hd_queue := hd_queue h @ replicate (length (filter (\<lambda>t. t = TableName) ts)) (OpDelTable TableName)\<rparr>)"
proof -
  have "fold (\<lambda>t h. if t = TableName then queue (OpDelTable t) h else h) ts h =
    h\<lparr>hd_queue := hd_queue h @ replicate (length (filter (\<lambda>t. t = TableName) ts)) (OpDelTable TableName)\<rparr>"
    by (induction ts arbitrary: h) (simp_all add: queue_def)
  then show ?thesis using assms by (simp add: deleteTable_def)
qed

lemma set_steps_sets:
  "fold_res (set_step E) ds h = Inr h' \<Longrightarrow>
     (\<exists>new. hd_queue h' = hd_queue h @ new \<and> list_all builds new)
     \<and> hd_missing h' = hd_missing h
     \<and> dom (hd_sets h') = dom (hd_sets h) \<union> sd_Name ` set ds"
proof (induction ds arbitrary: h)
  case (Cons d ds)
  then obtain h1 where h1: "set_step E d h = Inr h1" "fold_res (set_step E) ds h1 = Inr h'"
    by (auto split: sum.splits)
  have "hd_queue h1 = hd_queue h @ [OpAddSet (def_set d) []]" "hd_missing h1 = hd_missing h"
    "dom (hd_sets h1) = insert (sd_Name d) (dom (hd_sets h))"
    using h1(1) by (auto simp: set_step_def Let_def queue_def split: option.splits)
  with Cons.IH[OF h1(2)] show ?case by auto
qed simp

lemma forward_chain_builds:
  assumes "forward_chain E pol p h = Inr h'"
  shows "grows builds (if pn_Forward p then absent_cgroups E p True else {}) h h'"
proof (cases "pn_Forward p")
  case False
  then show ?thesis using assms by (simp add: forward_chain_def grows_refl)
next
  case True
  have f: "grows builds {} h0 (fold (\<lambda>pfx. h_rule ForwardChain (oifPrefixAccept pfx)) ps h0)" for ps h0
  proof (induction ps arbitrary: h0)
    case Nil
    then show ?case by (simp add: grows_refl)
  next
    case (Cons pfx ps)
    then show ?case using grows_trans[OF h_rule_builds Cons.IH] by simp
  qed
  have "grows builds {} h (queue (OpAddChain ForwardChain HookForward pol) h)"
    by (rule grows_queue) simp
  from grows_trans[OF this f] have g: "grows builds {} h (fold (\<lambda>pfx. h_rule ForwardChain (oifPrefixAccept pfx)) bridgePrefixes
      (queue (OpAddChain ForwardChain HookForward pol) h))"
    by simp
  have "chainBody E ForwardChain p True (fold (\<lambda>pfx. h_rule ForwardChain (oifPrefixAccept pfx)) bridgePrefixes
      (queue (OpAddChain ForwardChain HookForward pol) h)) = Inr h'"
    using assms True by (simp add: forward_chain_def)
  from grows_trans[OF g chainBody_builds[OF this]] show ?thesis using True by simp
qed

text \<open>The batch of \<open>Apply\<close>: deletions, the table, then what builds it.\<close>

lemma Apply_batch_shape:
  assumes "Apply_batch E p k = Inr h"
  obtains ts new where "ev_ListTables E k = Inr ts" "list_all builds new"
    "hd_queue h = replicate (length (filter (\<lambda>t. t = TableName) ts)) (OpDelTable TableName)
       @ OpAddTable TableName # new"
    "dom (hd_sets h) = sd_Name ` set (pn_Sets p)"
    "hd_missing h = absent_cgroups E p False"
proof -
  let ?pol = "if pn_DefaultDeny p then PolicyDrop else PolicyAccept"
  obtain h0 h1 h2 where h0: "deleteTable E k new_handle = Inr h0"
    and h1: "fold_res (set_step E) (pn_Sets p) (queue (OpAddTable TableName) h0) = Inr h1"
    and h2: "chainBody E ChainName p False
        (h_rule ChainName loopbackAccept (queue (OpAddChain ChainName HookOutput ?pol) h1)) = Inr h2"
    and h: "forward_chain E ?pol p h2 = Inr h"
    using assms by (auto simp: Apply_batch_def Let_def split: option.splits sum.splits)
  obtain ts where ts: "ev_ListTables E k = Inr ts"
    using h0 by (auto simp: deleteTable_def split: sum.splits)
  let ?dels = "replicate (length (filter (\<lambda>t. t = TableName) ts)) (OpDelTable TableName)"
  have q0: "hd_queue h0 = ?dels" "hd_sets h0 = (\<lambda>_. None)" "hd_missing h0 = {}"
    using h0 deleteTable_queue[OF ts, of new_handle] by (auto simp: new_handle_def)
  obtain n1 where n1: "hd_queue h1 = ?dels @ OpAddTable TableName # n1" "list_all builds n1"
    "dom (hd_sets h1) = sd_Name ` set (pn_Sets p)" "hd_missing h1 = {}"
    using set_steps_sets[OF h1] q0 by (auto simp: queue_def)
  have "grows builds (absent_cgroups E p False \<union> (if pn_Forward p then absent_cgroups E p True else {})) h1 h"
    using grows_trans[OF grows_trans[OF grows_trans[OF grows_queue h_rule_builds] chainBody_builds[OF h2]]
        forward_chain_builds[OF h]] by simp
  moreover have "absent_cgroups E p True \<subseteq> absent_cgroups E p False"
    by (auto simp: absent_cgroups_def inChain_def)
  then have "absent_cgroups E p False \<union> (if pn_Forward p then absent_cgroups E p True else {})
      = absent_cgroups E p False" by auto
  ultimately obtain n2 where "hd_queue h = hd_queue h1 @ n2" "list_all builds n2" "hd_sets h = hd_sets h1"
    "hd_missing h = absent_cgroups E p False"
    unfolding grows_def n1(4) by auto
  with n1 show thesis by (intro that[of ts "n1 @ n2"]) (simp_all add: ts)
qed

section \<open>Properties\<close>

lemma finite_absent: "finite (absent_cgroups E p forward)"
  by (simp add: absent_cgroups_def)

lemma Apply_outcome:
  "case Apply E p k of
     (Inl e, k') \<Rightarrow> k' = k
   | (Inr h, k') \<Rightarrow>
       (\<exists>ts new. ev_ListTables E k = Inr ts \<and> list_all builds new
          \<and> ev_Flush E (replicate (length (filter (\<lambda>t. t = TableName) ts)) (OpDelTable TableName)
              @ OpAddTable TableName # new) k = Inr k')
       \<and> hd_queue h = [] \<and> dom (hd_sets h) = sd_Name ` set (pn_Sets p)
       \<and> sorted (Missing h) \<and> set (Missing h) = absent_cgroups E p False"
proof (cases "Apply_batch E p k")
  case (Inl e)
  then show ?thesis by (simp add: Apply_def)
next
  case (Inr h)
  then obtain ts new where s: "ev_ListTables E k = Inr ts" "list_all builds new"
    "hd_queue h = replicate (length (filter (\<lambda>t. t = TableName) ts)) (OpDelTable TableName)
       @ OpAddTable TableName # new"
    "dom (hd_sets h) = sd_Name ` set (pn_Sets p)" "hd_missing h = absent_cgroups E p False"
    by (rule Apply_batch_shape)
  show ?thesis
  proof (cases "ev_Flush E (hd_queue h) k")
    case (Inl e)
    then show ?thesis using Inr by (simp add: Apply_def)
  next
    case (Inr k')
    then show ?thesis
      using \<open>Apply_batch E p k = Inr h\<close> s finite_absent[of E p False]
      by (auto simp: Apply_def Missing_def)
  qed
qed

text \<open>
  C6: \<open>Apply\<close> is all or nothing. On any error the kernel keeps the ruleset it had; on success the
  kernel took one batch, which first deletes every egresswall table that was listed and then
  adds the table and everything in it, nothing else is deleted, nothing is left queued, the
  handle knows exactly the sets of the plan, and \<open>Missing\<close> lists, sorted, the cgroups of the
  plan that do not exist.
\<close>

theorem Apply_atomic:
  "case Apply E p k of
     (Inl e, k') \<Rightarrow> k' = k
   | (Inr h, k') \<Rightarrow>
       (\<exists>ts new. ev_ListTables E k = Inr ts \<and> list_all builds new
          \<and> ev_Flush E (replicate (length (filter (\<lambda>t. t = TableName) ts)) (OpDelTable TableName)
              @ OpAddTable TableName # new) k = Inr k')
       \<and> hd_queue h = [] \<and> dom (hd_sets h) = sd_Name ` set (pn_Sets p)
       \<and> sorted (Missing h) \<and> set (Missing h) = absent_cgroups E p False"
  by (rule Apply_outcome)

lemma fold_res_grows_InlD:
  assumes "fold_res step xs h = Inl e"
    and "\<And>x h h1. x \<in> set xs \<Longrightarrow> step x h = Inr h1 \<Longrightarrow> hd_sets h1 = hd_sets h"
  obtains x h1 where "x \<in> set xs" "step x h1 = Inl e" "hd_sets h1 = hd_sets h"
proof -
  obtain pre x post t where x: "xs = pre @ x # post" "fold_res step pre h = Inr t" "step x t = Inl e"
    using fold_res_InlD[OF assms(1)] by blast
  have "hd_sets t = hd_sets h"
    using x(2)
  proof (rule fold_res_inv[where I = "\<lambda>_ h'. hd_sets h' = hd_sets h"])
    fix p y t t' assume "hd_sets t = hd_sets h" "y \<in> set pre" "step y t = Inr t'"
    then show "hd_sets t' = hd_sets h" using assms(2)[of y t t'] x(1) by simp
  qed simp
  with x show thesis by (intro that[of x t]) simp_all
qed

lemma atomExprs_unknown:
  assumes "atomExprs E h a = Inl (UnknownSet n)"
  shows "at_Prefix a = None \<and> at_Set a \<noteq> [] \<and> hd_sets h (at_Set a) = None"
  using assms
  by (auto simp: atomExprs_def cgroup_exprs_def cgroupID_def addr_exprs_def proto_exprs_def tcpOrUDP_def
      Let_def split: sum.splits option.splits if_splits stat_result.splits)

lemma grows_sets: "grows P M h h' \<Longrightarrow> hd_sets h' = hd_sets h"
  by (simp add: grows_def)

lemma chainBody_unknown:
  assumes "chainBody E c p forward h = Inl (UnknownSet n)"
  shows "\<exists>a \<in> set (pn_Atoms p). at_Set a \<noteq> [] \<and> hd_sets h (at_Set a) = None"
proof -
  let ?h0 = "h_rule c (establishedAccept (ev_BigEndian E)) h"
  have hk: "fold_res (housekeeping_step E c) housekeeping ?h0 \<noteq> Inl (UnknownSet n)"
  proof
    assume "fold_res (housekeeping_step E c) housekeeping ?h0 = Inl (UnknownSet n)"
    then obtain pfx h1 where "housekeeping_step E c pfx h1 = Inl (UnknownSet n)"
      by (rule fold_res_grows_InlD) (use grows_sets housekeeping_step_builds in blast)
    then have "atomExprs E h1 (housekeeping_atom pfx) = Inl (UnknownSet n)"
      by (auto simp: housekeeping_step_def split: sum.splits)
    from atomExprs_unknown[OF this] show False by (simp add: housekeeping_atom_def)
  qed
  obtain h1 where h1: "fold_res (housekeeping_step E c) housekeeping ?h0 = Inr h1"
    using assms hk by (auto simp: chainBody_def split: sum.splits)
  have s1: "hd_sets h1 = hd_sets h"
    using grows_sets[OF grows_fold[OF h1 housekeeping_step_builds]] by (simp add: h_rule_def queue_def)
  have "fold_res (atom_step E c forward) (pn_Atoms p) h1 = Inl (UnknownSet n)"
    using assms h1 by (auto simp: chainBody_def split: sum.splits)
  then obtain a t where a: "a \<in> set (pn_Atoms p)" "atom_step E c forward a t = Inl (UnknownSet n)"
    "hd_sets t = hd_sets h1"
    by (rule fold_res_grows_InlD) (use grows_sets atom_step_builds in blast)
  then have "atomExprs E t a = Inl (UnknownSet n)"
    by (auto simp: atom_step_def split: sum.splits if_splits apply_error.splits)
  from atomExprs_unknown[OF this] a s1 show ?thesis by auto
qed

lemma set_steps_not_unknown: "fold_res (set_step E) ds h \<noteq> Inl (UnknownSet n)"
  by (induction ds arbitrary: h) (auto simp: set_step_def Let_def split: option.splits sum.splits)

lemma Build_atom_sets:
  assumes "a \<in> set (pn_Atoms (Build s))" and "at_Set a \<noteq> []"
  shows "at_Set a \<in> sd_Name ` set (pn_Sets (Build s))"
proof -
  obtain i where i: "i < length (ps_rules s)"
      and a: "a \<in> set (build_atoms i (rule_view_of (ps_rules s ! i)))"
    using assms(1) by (auto simp: Build_def Let_def Set_Rules_def in_set_enumerate_eq)
  with assms(2) have "hasDomains (rule_view_of (ps_rules s ! i))"
    "at_Set a = sd_Name (set_pair i V4) \<or> at_Set a = sd_Name (set_pair i V6)"
    by (auto simp: build_atoms_def emit_atoms_def set_pair_def split: if_splits)
  with i have "set_pair i V4 \<in> set (pn_Sets (Build s))" "set_pair i V6 \<in> set (pn_Sets (Build s))"
    by (auto simp: in_Build_sets)
  with \<open>at_Set a = _ \<or> _\<close> show ?thesis by auto
qed

text \<open>
  C21: loading the plan of a policy never runs into a set it does not know, in either chain.
\<close>

theorem Apply_knows_sets:
  "fst (Apply E ((Build s)\<lparr>pn_Forward := fw\<rparr>) k) \<noteq> Inl (UnknownSet n)"
proof
  let ?p = "(Build s)\<lparr>pn_Forward := fw\<rparr>"
  let ?pol = "if pn_DefaultDeny ?p then PolicyDrop else PolicyAccept"
  assume "fst (Apply E ?p k) = Inl (UnknownSet n)"
  then have b: "Apply_batch E ?p k = Inl (UnknownSet n)"
    by (auto simp: Apply_def split: sum.splits)
  then obtain h0 where h0: "deleteTable E k new_handle = Inr h0"
    by (auto simp: Apply_batch_def deleteTable_def split: option.splits sum.splits)
  then obtain h1 where h1: "fold_res (set_step E) (pn_Sets ?p) (queue (OpAddTable TableName) h0) = Inr h1"
    using b set_steps_not_unknown by (auto simp: Apply_batch_def split: option.splits sum.splits)
  have d: "\<forall>a \<in> set (pn_Atoms ?p). at_Set a \<noteq> [] \<longrightarrow> hd_sets h (at_Set a) \<noteq> None"
    if "hd_sets h = hd_sets h1" for h
    using set_steps_sets[OF h1] Build_atom_sets that by (force simp: dom_def)
  let ?hl = "h_rule ChainName loopbackAccept (queue (OpAddChain ChainName HookOutput ?pol) h1)"
  have "chainBody E ChainName ?p False ?hl \<noteq> Inl (UnknownSet n)"
    using chainBody_unknown d[of ?hl] by (fastforce simp: h_rule_def queue_def)
  then obtain h2 where h2: "chainBody E ChainName ?p False ?hl = Inr h2"
    and fc: "forward_chain E ?pol ?p h2 = Inl (UnknownSet n)"
    using b h0 h1 by (auto simp: Apply_batch_def Let_def split: option.splits sum.splits)
  have s2: "hd_sets h2 = hd_sets h1"
    using grows_sets[OF chainBody_builds[OF h2]] by (simp add: h_rule_def queue_def)
  let ?hf = "fold (\<lambda>pfx. h_rule ForwardChain (oifPrefixAccept pfx)) bridgePrefixes
      (queue (OpAddChain ForwardChain HookForward ?pol) h2)"
  have "chainBody E ForwardChain ?p True ?hf = Inl (UnknownSet n)"
    using fc by (simp add: forward_chain_def split: if_splits)
  moreover have "hd_sets ?hf = hd_sets h1"
    using s2 by (simp add: bridgePrefixes_def h_rule_def queue_def)
  ultimately show False using chainBody_unknown d[of ?hf] by blast
qed

text \<open>Adding addresses.\<close>

definition adds_for :: "set_add list \<Rightarrow> string \<Rightarrow> set_element list" where
  "adds_for adds n =
     map (\<lambda>a. \<lparr>el_Key = AsSlice (Unmap (ad_IP a)), el_Timeout = ad_TTL a\<rparr>)
       (filter (\<lambda>a. ad_Set a = n) adds)"

lemma group_adds_known:
  "(\<forall>a \<in> set adds. hd_sets h (ad_Set a) \<noteq> None) \<Longrightarrow>
     group_adds h adds g = Inr (\<lambda>n. g n @ adds_for adds n)"
  by (induction adds arbitrary: g) (auto simp: adds_for_def fun_eq_iff)

lemma group_adds_unknown:
  "\<exists>a \<in> set adds. hd_sets h (ad_Set a) = None \<Longrightarrow>
     group_adds h adds g = Inl (NoSet (ad_Set (the (find (\<lambda>a. hd_sets h (ad_Set a) = None) adds))))"
  by (induction adds arbitrary: g) (auto split: option.splits)

lemma add_groups_ok:
  "(\<And>n els. ev_SetAddElements E n els = None) \<Longrightarrow>
     add_groups E g ns h = (None, h\<lparr>hd_queue := hd_queue h @ map (\<lambda>n. OpSetAddElements n (g n)) ns\<rparr>)"
  by (induction ns arbitrary: h) (simp_all add: queue_def)

lemma AddAddrs_one_batch:
  assumes "\<And>ns. mset (ord ns) = mset ns" and "\<And>n els. ev_SetAddElements E n els = None"
    and "hd_queue h = []"
  shows "AddAddrs E ord h adds k =
    (if adds = [] then (None, h, k)
     else if \<exists>a \<in> set adds. hd_sets h (ad_Set a) = None then
       (Some (NoSet (ad_Set (the (find (\<lambda>a. hd_sets h (ad_Set a) = None) adds)))), h, k)
     else
       case ev_Flush E (map (\<lambda>n. OpSetAddElements n (adds_for adds n)) (ord (remdups (map ad_Set adds)))) k of
         Inl e \<Rightarrow> (Some (FlushFailed e), h, k)
       | Inr k' \<Rightarrow> (None, h, k'))
    \<and> distinct (ord (remdups (map ad_Set adds))) \<and> set (ord (remdups (map ad_Set adds))) = ad_Set ` set adds"
proof (intro conjI)
  show "distinct (ord (remdups (map ad_Set adds)))"
    using assms(1) by (metis distinct_remdups mset_eq_imp_distinct_iff)
  show "set (ord (remdups (map ad_Set adds))) = ad_Set ` set adds"
    using assms(1) by (metis mset_eq_setD set_remdups set_map)
  have h: "h\<lparr>hd_queue := []\<rparr> = h" using assms(3) by simp
  show "AddAddrs E ord h adds k = (if adds = [] then (None, h, k)
     else if \<exists>a \<in> set adds. hd_sets h (ad_Set a) = None then
       (Some (NoSet (ad_Set (the (find (\<lambda>a. hd_sets h (ad_Set a) = None) adds)))), h, k)
     else
       case ev_Flush E (map (\<lambda>n. OpSetAddElements n (adds_for adds n)) (ord (remdups (map ad_Set adds)))) k of
         Inl e \<Rightarrow> (Some (FlushFailed e), h, k)
       | Inr k' \<Rightarrow> (None, h, k'))"
  proof (cases "\<exists>a \<in> set adds. hd_sets h (ad_Set a) = None")
    case True
    then show ?thesis by (auto simp: AddAddrs_def group_adds_unknown[OF True])
  next
    case False
    then show ?thesis
      by (cases "ev_Flush E (map (\<lambda>n. OpSetAddElements n (adds_for adds n)) (ord (remdups (map ad_Set adds)))) k")
         (auto simp: AddAddrs_def group_adds_known add_groups_ok[OF assms(2)] h assms(3))
  qed
qed

text \<open>
  C10: \<open>AddAddrs\<close> sends, whatever order the map iteration takes, one batch with one message per set
  that is named, which carries the addresses meant for that set in their order, IPv4-mapped ones
  as IPv4, with their TTLs; an unknown set is an error that leaves the kernel and the handle as
  they were, and no addresses at all send nothing.
\<close>

theorem AddAddrs_batch:
  assumes "\<And>ns. mset (ord ns) = mset ns" and "\<And>n els. ev_SetAddElements E n els = None"
    and "hd_queue h = []"
  shows "AddAddrs E ord h adds k =
    (if adds = [] then (None, h, k)
     else if \<exists>a \<in> set adds. hd_sets h (ad_Set a) = None then
       (Some (NoSet (ad_Set (the (find (\<lambda>a. hd_sets h (ad_Set a) = None) adds)))), h, k)
     else
       case ev_Flush E (map (\<lambda>n. OpSetAddElements n (adds_for adds n)) (ord (remdups (map ad_Set adds)))) k of
         Inl e \<Rightarrow> (Some (FlushFailed e), h, k)
       | Inr k' \<Rightarrow> (None, h, k'))
    \<and> distinct (ord (remdups (map ad_Set adds))) \<and> set (ord (remdups (map ad_Set adds))) = ad_Set ` set adds"
  by (rule AddAddrs_one_batch[OF assms])

lemma AddAddrs_batch_witness:
  "AddAddrs \<lparr>ev_New = None, ev_ListTables = (\<lambda>k :: op list. Inr []), ev_AddSet = (\<lambda>_. None),
      ev_SetAddElements = (\<lambda>_ _. None), ev_Flush = (\<lambda>ops k. Inr (k @ ops)),
      ev_Stat = (\<lambda>_. StatNotExist), ev_BigEndian = False\<rparr> rev
     (new_handle\<lparr>hd_sets := (\<lambda>n. if n = ''r0_v4'' \<or> n = ''r1_v4'' then Some (def_set (set_pair 0 V4)) else None)\<rparr>)
     [\<lparr>ad_Set = ''r0_v4'', ad_IP = Addr6 0xffff01020304 [], ad_TTL = Minute\<rparr>] [] =
   (None :: unit apply_error option,
    new_handle\<lparr>hd_sets := (\<lambda>n. if n = ''r0_v4'' \<or> n = ''r1_v4'' then Some (def_set (set_pair 0 V4)) else None)\<rparr>,
    [OpSetAddElements ''r0_v4'' [\<lparr>el_Key = AsSlice (Unmap (Addr6 0xffff01020304 [])), el_Timeout = Minute\<rparr>]])"
  by (subst AddAddrs_batch[THEN conjunct1]) (simp_all add: new_handle_def adds_for_def)

end
