(* ===== verification/Nft_Kernel.thy ===== *)
theory Nft_Kernel
  imports Nft_Apply
begin

text \<open>
  What the kernel does with the batches of \<open>Nft_Apply\<close>: the documented behaviour of the nftables
  expressions as laws on an arbitrary machine, and the proof that the rules the code sends make
  that machine decide packets as the plan, and through it the policy, says.
\<close>

section \<open>How the kernel reads a chain\<close>

text \<open>
  A packet at the output or forward hook: protocol family, transport protocol, bytes from the
  network and the transport header on, the output interface (16 bytes), the connection-tracking
  state bits, the cgroup ids of the socket's ancestors by level, and the contents of the sets.
\<close>

record kpacket =
  kp_nfproto :: byte
  kp_l4 :: byte
  kp_net :: bytes
  kp_trans :: bytes
  kp_oif :: bytes
  kp_ct :: u32
  kp_ancestor :: "nat \<Rightarrow> u64 option"
  kp_sets :: "string \<Rightarrow> bytes \<Rightarrow> bool"

datatype step_result = StContinue bytes | StBreak | StAccept | StReject

type_synonym machine = "expr \<Rightarrow> kpacket \<Rightarrow> bytes \<Rightarrow> step_result"

definition payload_of :: "payload_base \<Rightarrow> kpacket \<Rightarrow> bytes" where
  "payload_of base k = (case base of NetworkHeader \<Rightarrow> kp_net k | TransportHeader \<Rightarrow> kp_trans k)"

text \<open>
  The documented behaviour of each expression the code uses, as laws on the function that
  executes one of them on the register's contents.
\<close>

definition nft_machine :: "bool \<Rightarrow> machine \<Rightarrow> bool" where
  "nft_machine big sem \<longleftrightarrow>
     (\<forall>k r. sem (ExMeta MetaOIFNAME) k r = StContinue (kp_oif k))
     \<and> (\<forall>k r. sem (ExMeta MetaNFPROTO) k r = StContinue [kp_nfproto k])
     \<and> (\<forall>k r. sem (ExMeta MetaL4PROTO) k r = StContinue [kp_l4 k])
     \<and> (\<forall>k r. sem ExCtState k r = StContinue (native big 4 (kp_ct k)))
     \<and> (\<forall>n k r. sem (ExSocketCgroup n) k r =
          (case kp_ancestor k n of None \<Rightarrow> StBreak | Some i \<Rightarrow> StContinue (native big 8 i)))
     \<and> (\<forall>base off len k r. sem (ExPayload base off len) k r =
          (if off + len \<le> length (payload_of base k)
           then StContinue (take len (drop off (payload_of base k))) else StBreak))
     \<and> (\<forall>m x k r. length m = length r \<and> length x = length r \<longrightarrow>
          sem (ExBitwise (length r) m x) k r = StContinue (map2 (XOR) (map2 (AND) r m) x))
     \<and> (\<forall>d k r. length d \<le> length r \<longrightarrow>
          sem (ExCmp CmpEq d) k r = (if take (length d) r = d then StContinue r else StBreak)
          \<and> sem (ExCmp CmpNeq d) k r = (if take (length d) r \<noteq> d then StContinue r else StBreak))
     \<and> (\<forall>a b k r. length a = length r \<and> length b = length r \<longrightarrow>
          sem (ExRange a b) k r = (if a \<le> r \<and> r \<le> b then StContinue r else StBreak))
     \<and> (\<forall>s k r. sem (ExLookup s) k r = (if kp_sets k s r then StContinue r else StBreak))
     \<and> (\<forall>p k r. sem (ExLog p) k r = StContinue r)
     \<and> (\<forall>k r. sem ExRejectAdminProhibited k r = StReject)
     \<and> (\<forall>k r. sem ExAccept k r = StAccept)"

text \<open>
  The rules of a chain are tried in order, the expressions of a rule from left to right; a rule
  decides when it reaches a verdict. A refusal carries the log prefix that went before it.
\<close>

fun run_rule :: "machine \<Rightarrow> expr list \<Rightarrow> kpacket \<Rightarrow> bytes \<Rightarrow> string option \<Rightarrow>
    (verdict \<times> string option) option" where
  "run_rule sem [] k r l = None"
| "run_rule sem (x # xs) k r l =
     (case sem x k r of
        StContinue r \<Rightarrow> run_rule sem xs k r (case x of ExLog p \<Rightarrow> Some p | _ \<Rightarrow> l)
      | StBreak \<Rightarrow> None
      | StAccept \<Rightarrow> Some (Allow, None)
      | StReject \<Rightarrow> Some (Deny, l))"

fun run_chain :: "machine \<Rightarrow> expr list list \<Rightarrow> kpacket \<Rightarrow> (verdict \<times> string option) option" where
  "run_chain sem [] k = None"
| "run_chain sem (xs # rs) k =
     (case run_rule sem xs k [] None of None \<Rightarrow> run_chain sem rs k | Some v \<Rightarrow> Some v)"

interpretation kernel_chain:
  first_match "run_chain sem" "\<lambda>xs k. run_rule sem xs k [] None \<noteq> None"
    "\<lambda>xs k. the (run_rule sem xs k [] None)" for sem
  by unfold_locales (auto split: option.splits)

text \<open>An executable machine with these laws.\<close>

fun ref_machine :: "bool \<Rightarrow> machine" where
  "ref_machine big (ExMeta MetaOIFNAME) k r = StContinue (kp_oif k)"
| "ref_machine big (ExMeta MetaNFPROTO) k r = StContinue [kp_nfproto k]"
| "ref_machine big (ExMeta MetaL4PROTO) k r = StContinue [kp_l4 k]"
| "ref_machine big ExCtState k r = StContinue (native big 4 (kp_ct k))"
| "ref_machine big (ExSocketCgroup n) k r =
     (case kp_ancestor k n of None \<Rightarrow> StBreak | Some i \<Rightarrow> StContinue (native big 8 i))"
| "ref_machine big (ExPayload base off len) k r =
     (if off + len \<le> length (payload_of base k)
      then StContinue (take len (drop off (payload_of base k))) else StBreak)"
| "ref_machine big (ExBitwise n m x) k r = StContinue (map2 (XOR) (map2 (AND) r m) x)"
| "ref_machine big (ExCmp CmpEq d) k r = (if take (length d) r = d then StContinue r else StBreak)"
| "ref_machine big (ExCmp CmpNeq d) k r = (if take (length d) r \<noteq> d then StContinue r else StBreak)"
| "ref_machine big (ExRange a b) k r = (if a \<le> r \<and> r \<le> b then StContinue r else StBreak)"
| "ref_machine big (ExLookup s) k r = (if kp_sets k s r then StContinue r else StBreak)"
| "ref_machine big (ExLog p) k r = StContinue r"
| "ref_machine big ExRejectAdminProhibited k r = StReject"
| "ref_machine big ExAccept k r = StAccept"

lemma ref_machine_ok: "nft_machine big (ref_machine big)"
  by (simp add: nft_machine_def)

lemma nft_machineD:
  assumes "nft_machine big sem"
  shows "sem (ExMeta MetaOIFNAME) k r = StContinue (kp_oif k)"
    "sem (ExMeta MetaNFPROTO) k r = StContinue [kp_nfproto k]"
    "sem (ExMeta MetaL4PROTO) k r = StContinue [kp_l4 k]"
    "sem ExCtState k r = StContinue (native big 4 (kp_ct k))"
    "sem (ExSocketCgroup n) k r =
       (case kp_ancestor k n of None \<Rightarrow> StBreak | Some i \<Rightarrow> StContinue (native big 8 i))"
    "sem (ExPayload base off len) k r =
       (if off + len \<le> length (payload_of base k)
        then StContinue (take len (drop off (payload_of base k))) else StBreak)"
    "n = length r \<Longrightarrow> length m = length r \<Longrightarrow> length x = length r \<Longrightarrow>
       sem (ExBitwise n m x) k r = StContinue (map2 (XOR) (map2 (AND) r m) x)"
    "length d \<le> length r \<Longrightarrow>
       sem (ExCmp CmpEq d) k r = (if take (length d) r = d then StContinue r else StBreak)"
    "length d \<le> length r \<Longrightarrow>
       sem (ExCmp CmpNeq d) k r = (if take (length d) r \<noteq> d then StContinue r else StBreak)"
    "length a = length r \<Longrightarrow> length b = length r \<Longrightarrow>
       sem (ExRange a b) k r = (if a \<le> r \<and> r \<le> b then StContinue r else StBreak)"
    "sem (ExLookup s) k r = (if kp_sets k s r then StContinue r else StBreak)"
    "sem (ExLog p) k r = StContinue r"
    "sem ExRejectAdminProhibited k r = StReject"
    "sem ExAccept k r = StAccept"
  using assms by (simp_all add: nft_machine_def)

lemma word_bytes_inj:
  "8 * n = LENGTH('a) \<Longrightarrow> word_bytes n a = word_bytes n b \<longleftrightarrow> a = (b :: 'a::len word)"
  by (metis be_word_word_bytes)

lemma native_inj:
  "8 * n = LENGTH('a) \<Longrightarrow> native big n a = native big n b \<longleftrightarrow> a = (b :: 'a::len word)"
  by (simp add: native_def word_bytes_inj)

lemma length_native [simp]: "length (native big n w) = n"
  by (simp add: native_def)

lemma word_bytes_and:
  "map2 (AND) (word_bytes n a) (word_bytes n b) = word_bytes n (a AND b)"
  by (induction n) (simp_all add: drop_bit_and unsigned_and_eq)

lemma word_bytes_zero: "word_bytes n 0 = replicate n 0"
  by (induction n) simp_all

lemma map2_xor_zero: "map2 (XOR) xs (replicate (length xs) (0 :: byte)) = xs"
  by (induction xs) simp_all

lemma native_and: "map2 (AND) (native big n a) (native big n b) = native big n (a AND b)"
  by (simp add: native_def word_bytes_and zip_rev flip: rev_map)

lemma native_zero: "native big n 0 = replicate n 0"
  by (simp add: native_def word_bytes_zero)

lemma established_rule:
  assumes "nft_machine big sem"
  shows "run_rule sem (establishedAccept big) k r l =
    (if kp_ct k AND (CtStateBitESTABLISHED OR CtStateBitRELATED) \<noteq> 0 then Some (Allow, None) else None)"
proof -
  note m = nft_machineD[OF assms]
  let ?m = "CtStateBitESTABLISHED OR CtStateBitRELATED"
  have x: "map2 (XOR) (native big 4 (kp_ct k AND ?m)) (native big 4 (0 :: u32)) = native big 4 (kp_ct k AND ?m)"
    unfolding native_zero using map2_xor_zero[of "native big 4 (kp_ct k AND ?m)"] by simp
  have eq: "native big 4 (kp_ct k AND ?m) = native big 4 (0 :: u32) \<longleftrightarrow> kp_ct k AND ?m = 0"
    by (rule native_inj) simp
  show ?thesis
    unfolding establishedAccept_def
    by (simp add: m native_and x eq)
qed

lemma loopback_rule:
  assumes "nft_machine big sem" and "length (kp_oif k) = 16"
  shows "run_rule sem loopbackAccept k r l =
    (if kp_oif k = map of_char ''lo'' @ replicate 14 0 then Some (Allow, None) else None)"
  using assms(2) by (simp add: loopbackAccept_def nft_machineD[OF assms(1)])

lemma oifPrefix_rule:
  assumes "nft_machine big sem" and "length (kp_oif k) = 16" and "length pfx \<le> 16"
  shows "run_rule sem (oifPrefixAccept pfx) k r l =
    (if prefix (map of_char pfx) (kp_oif k) then Some (Allow, None) else None)"
proof -
  have "take (length pfx) (kp_oif k) = map of_char pfx \<longleftrightarrow> prefix (map of_char pfx) (kp_oif k)"
    by (metis append_eq_conv_conj append_take_drop_id length_map prefix_def)
  then show ?thesis
    using assms(2,3) by (simp add: oifPrefixAccept_def nft_machineD[OF assms(1)])
qed

lemma refuse_rule:
  assumes "nft_machine big sem"
  shows "run_rule sem (refuse rule) k r l = Some (Deny, Some (LogPrefix rule))"
  by (simp add: refuse_def nft_machineD[OF assms])

section \<open>Byte strings the expressions compare\<close>

lemma bit_128: "bit (0x80 :: byte) i \<longleftrightarrow> i = 7"
proof -
  have "list_all (\<lambda>i. bit (0x80 :: byte) i \<longleftrightarrow> i = 7) [0..<8]" by code_simp
  then show ?thesis
    by (cases "i < 8") (auto simp: list_all_iff simp del: bit_numeral_simps dest: bit_imp_le_length)
qed

lemma prefix_mask_Suc:
  "prefix_mask n (Suc b) =
     (prefix_mask n b)[b div 8 := prefix_mask n b ! (b div 8) OR drop_bit (b mod 8) 0x80]"
  by (simp add: prefix_mask_def)

lemma bit_prefix_mask:
  "b \<le> 8 * n \<Longrightarrow> length (prefix_mask n b) = n
     \<and> (\<forall>j < n. \<forall>k < 8. bit (prefix_mask n b ! j) k \<longleftrightarrow> 8 * j + (7 - k) < b)"
proof (induction b)
  case 0
  then show ?case by (simp add: prefix_mask_def)
next
  case (Suc b)
  then have ih: "length (prefix_mask n b) = n"
    "j < n \<Longrightarrow> k < 8 \<Longrightarrow> bit (prefix_mask n b ! j) k \<longleftrightarrow> 8 * j + (7 - k) < b" for j k
    by auto
  have bd: "b div 8 < n" using Suc.prems by auto
  have "bit (prefix_mask n (Suc b) ! j) k \<longleftrightarrow> 8 * j + (7 - k) < Suc b" if "j < n" "k < 8" for j k
  proof (cases "j = b div 8")
    case True
    have "k + m = 7 \<longleftrightarrow> 8 * q + (7 - k) = 8 * q + m" if "k < 8" for q m :: nat
      using that by arith
    from this[of "b mod 8" "b div 8"] have "k + b mod 8 = 7 \<longleftrightarrow> 8 * j + (7 - k) = b"
      using that True by simp
    with True show ?thesis
      using ih bd that
      by (auto simp: prefix_mask_Suc bit_or_iff bit_drop_bit_eq bit_128 add.commute
          simp del: bit_numeral_word_iff)
  next
    case False
    have "8 * j + (7 - k) \<noteq> 8 * q + m" if "j \<noteq> q" "m < 8" for q m :: nat
      using that \<open>k < 8\<close> by arith
    from this[of "b div 8" "b mod 8"] have "8 * j + (7 - k) \<noteq> b" using False by simp
    with False show ?thesis using ih that by (simp add: prefix_mask_Suc less_Suc_eq)
  qed
  with ih(1) show ?case by (simp add: prefix_mask_Suc)
qed

lemma prefix_mask_word:
  assumes "8 * n = LENGTH('a)" and "b \<le> 8 * n"
  shows "prefix_mask n b = word_bytes n (NOT (mask (8 * n - b)) :: 'a::len word)"
proof (rule nth_equalityI)
  show "length (prefix_mask n b) = length (word_bytes n (NOT (mask (8 * n - b)) :: 'a word))"
    using bit_prefix_mask[OF assms(2)] by simp
next
  fix j assume "j < length (prefix_mask n b)"
  then have j: "j < n" using bit_prefix_mask[OF assms(2)] by simp
  show "prefix_mask n b ! j = word_bytes n (NOT (mask (8 * n - b)) :: 'a word) ! j"
  proof (rule bit_word_eqI)
    fix k assume "k < LENGTH(8)"
    then have k: "k < 8" by simp
    have "8 * j + (7 - k) < b \<longleftrightarrow> \<not> 8 * (n - 1 - j) + k < 8 * n - b"
      using j k assms(2) by arith
    moreover have "8 * (n - 1 - j) + k < LENGTH('a)" using j k assms(1) by arith
    ultimately show "bit (prefix_mask n b ! j) k =
        bit (word_bytes n (NOT (mask (8 * n - b)) :: 'a word) ! j) k"
      using bit_prefix_mask[OF assms(2)] j k
      by (simp add: nth_word_bytes bit_ucast_iff bit_drop_bit_eq bit_not_iff bit_mask_iff)
  qed
qed

lemma be16_parts:
  "uint (ucast (drop_bit 8 (v :: u16)) :: byte) = uint v div 256"
  "uint (ucast (v :: u16) :: byte) = uint v mod 256"
proof -
  have "uint v < 65536" using uint_bounded[of v] by simp
  then have "uint v div 256 < 256" by linarith
  then have "uint v div 256 mod 256 = uint v div 256"
    by (intro mod_pos_pos_trivial) (simp_all add: pos_imp_zdiv_nonneg_iff)
  moreover have "uint (ucast w :: byte) = uint w mod 256" for w :: u16
    by (simp add: unsigned_ucast_eq take_bit_eq_mod)
  moreover have "uint (drop_bit 8 v) = uint v div 256"
    using uint_drop_bit[of 8 v] by (simp only: power_numeral_reduce) simp
  ultimately show "uint (ucast (drop_bit 8 v) :: byte) = uint v div 256"
    "uint (ucast v :: byte) = uint v mod 256" by metis+
qed

lemma be16_le_iff: "be16 a \<le> be16 b \<longleftrightarrow> a \<le> b"
proof -
  have p: "h < i \<or> h = i \<and> l \<le> m \<longleftrightarrow> h * 256 + l \<le> i * 256 + m"
    if "0 \<le> l" "l < 256" "0 \<le> m" "m < 256" for h i l m :: int
    using that by linarith
  have "uint a div 256 < uint b div 256 \<or> uint a div 256 = uint b div 256 \<and> uint a mod 256 \<le> uint b mod 256
     \<longleftrightarrow> uint a \<le> uint b"
    using p[of "uint a mod 256" "uint b mod 256" "uint a div 256" "uint b div 256"] by simp
  then show ?thesis
    unfolding be16_def Cons_le_Cons word_less_def word_le_def word_uint_eq_iff be16_parts(1)
    unfolding be16_parts(2) by (auto simp: le_less)
qed

lemma be16_inj: "be16 a = be16 b \<longleftrightarrow> a = b"
  by (simp add: be16_eq_word_bytes word_bytes_inj)

section \<open>A rule of the kernel against its atom\<close>

text \<open>
  The packet the kernel sees and the flow the plan is about: same destination, protocol, port,
  set contents, and the inode number of a cgroup directory identifies that cgroup among the
  ancestors of the socket's.
\<close>

definition kflow :: "('e, 'k) nft_env \<Rightarrow> kpacket \<Rightarrow> flow \<Rightarrow> bool" where
  "kflow E k f \<longleftrightarrow>
     (case fl_dst f of
        NoAddr \<Rightarrow> False
      | Addr4 w \<Rightarrow> kp_nfproto k = 2 \<and> 20 \<le> length (kp_net k)
          \<and> take 4 (drop 16 (kp_net k)) = word_bytes 4 w
      | Addr6 w z \<Rightarrow> z = [] \<and> kp_nfproto k = 10 \<and> 40 \<le> length (kp_net k)
          \<and> take 16 (drop 24 (kp_net k)) = word_bytes 16 w)
     \<and> (fl_l4 f = ''tcp'' \<longleftrightarrow> kp_l4 k = 6) \<and> (fl_l4 f = ''udp'' \<longleftrightarrow> kp_l4 k = 17)
     \<and> (kp_l4 k = 6 \<or> kp_l4 k = 17 \<longrightarrow>
          4 \<le> length (kp_trans k) \<and> take 2 (drop 2 (kp_trans k)) = be16 (fl_port f))
     \<and> (\<forall>n. kp_sets k n (AsSlice (fl_dst f)) \<longleftrightarrow> fl_sets f n (fl_dst f))
     \<and> (\<forall>path i. ev_Stat E (cgroupRoot @ ''/'' @ path) = StatIno i \<longrightarrow>
          (kp_ancestor k (CgroupLevel path) = Some i \<longleftrightarrow> cgroup_hits path (fl_cgroup f)))"

text \<open>A constant set of the batch holds the elements it was created with.\<close>

definition sets_loaded :: "kpacket \<Rightarrow> op list \<Rightarrow> bool" where
  "sets_loaded k ops \<longleftrightarrow>
     (\<forall>s els. OpAddSet s els \<in> set ops \<and> ns_Constant s \<longrightarrow>
        (\<forall>key. kp_sets k (ns_Name s) key \<longleftrightarrow> key \<in> el_Key ` set els))"

text \<open>What \<open>Build\<close> guarantees of every atom.\<close>

definition atom_wf :: "atom \<Rightarrow> bool" where
  "atom_wf a \<longleftrightarrow>
     (case at_Prefix a of
        Some p \<Rightarrow> at_Family a = familyOf p \<and> IsValid (pfx_Addr p) \<and> pfx_Bits p \<le> BitLen (pfx_Addr p)
      | None \<Rightarrow> at_Set a \<noteq> [] \<longrightarrow> at_Family a \<noteq> AnyFamily)
     \<and> (at_Proto a = [] \<or> at_Proto a = ''tcp'' \<or> at_Proto a = ''udp'')"

text \<open>A stretch of expressions that lets the packet through exactly under a condition.\<close>

definition guard :: "machine \<Rightarrow> expr list \<Rightarrow> kpacket \<Rightarrow> bool \<Rightarrow> bool" where
  "guard sem xs k c \<longleftrightarrow>
     (\<forall>r. \<exists>r'. \<forall>ys l. run_rule sem (xs @ ys) k r l = (if c then run_rule sem ys k r' l else None))"

lemma guard_Nil: "guard sem [] k True"
  by (auto simp: guard_def)

lemma guard_append:
  assumes "guard sem xs k c" and "c \<Longrightarrow> guard sem ys k d"
  shows "guard sem (xs @ ys) k (c \<and> d)"
  unfolding guard_def
proof
  fix r
  obtain r1 where r1: "\<And>zs l. run_rule sem (xs @ zs) k r l = (if c then run_rule sem zs k r1 l else None)"
    using assms(1) unfolding guard_def by blast
  show "\<exists>r'. \<forall>zs l. run_rule sem ((xs @ ys) @ zs) k r l =
      (if c \<and> d then run_rule sem zs k r' l else None)"
  proof (cases c)
    case True
    then obtain r2 where "\<And>zs l. run_rule sem (ys @ zs) k r1 l = (if d then run_rule sem zs k r2 l else None)"
      using assms(2) unfolding guard_def by blast
    with r1 True show ?thesis by auto
  qed (use r1 in auto)
qed

lemma guard_then:
  assumes "guard sem xs k c"
  shows "\<exists>r'. run_rule sem (xs @ ys) k r l = (if c then run_rule sem ys k r' l else None)"
  using assms unfolding guard_def by blast

lemma guardI:
  "(\<And>r ys l. run_rule sem (xs @ ys) k r l = (if c then run_rule sem ys k r' l else None)) \<Longrightarrow> guard sem xs k c"
  unfolding guard_def by blast

lemma cgroup_guard:
  assumes m: "nft_machine (ev_BigEndian E) sem" and kf: "kflow E k f"
    and cg: "cgroup_exprs E a = (Inr cg :: 'e apply_error + expr list)"
  shows "guard sem cg k (at_Cgroup a = [] \<or> cgroup_hits (at_Cgroup a) (fl_cgroup f))"
proof (cases "at_Cgroup a = []")
  case True
  then show ?thesis using cg guard_Nil by (simp add: cgroup_exprs_def)
next
  case False
  let ?n = "CgroupLevel (at_Cgroup a)"
  obtain i where st: "ev_Stat E (cgroupRoot @ ''/'' @ at_Cgroup a) = StatIno i"
    and cg: "cg = [ExSocketCgroup ?n, ExCmp CmpEq (native (ev_BigEndian E) 8 i)]"
    using cg False by (auto simp: cgroup_exprs_def cgroupID_def split: sum.splits stat_result.splits)
  then have h: "cgroup_hits (at_Cgroup a) (fl_cgroup f) \<longleftrightarrow> kp_ancestor k ?n = Some i"
    using kf unfolding kflow_def by blast
  have eq: "native (ev_BigEndian E) 8 j = native (ev_BigEndian E) 8 i \<longleftrightarrow> j = i" for j :: u64
    by (rule native_inj) simp
  show ?thesis
  proof (rule guardI[where r' = "native (ev_BigEndian E) 8 i"])
    fix r ys l
    show "run_rule sem (cg @ ys) k r l =
      (if at_Cgroup a = [] \<or> cgroup_hits (at_Cgroup a) (fl_cgroup f)
       then run_rule sem ys k (native (ev_BigEndian E) 8 i) l else None)"
      unfolding h by (cases "kp_ancestor k ?n") (auto simp: False cg nft_machineD[OF m] eq)
  qed
qed

lemma family_guard:
  assumes m: "nft_machine big sem" and kf: "kflow E k f"
  shows "guard sem (family_exprs a) k (family_hits (at_Family a) (fl_dst f))"
proof (cases "at_Family a = AnyFamily")
  case True
  then show ?thesis using guard_Nil by (simp add: family_exprs_def family_hits_def)
next
  case False
  have n: "kp_nfproto k = (if Is4 (fl_dst f) then 2 else 10)" "Is4 (fl_dst f) \<longleftrightarrow> \<not> Is6 (fl_dst f)"
    using kf by (auto simp: kflow_def split: addr.splits)
  show ?thesis
  proof (rule guardI[where r' = "[kp_nfproto k]"])
    fix r ys l
    show "run_rule sem (family_exprs a @ ys) k r l =
      (if family_hits (at_Family a) (fl_dst f) then run_rule sem ys k [kp_nfproto k] l else None)"
      using False n by (cases "at_Family a") (simp_all add: family_exprs_def family_hits_def nft_machineD[OF m])
  qed
qed

lemma daddr_bytes:
  assumes "kflow E k f" and "family_hits fam (fl_dst f)" and "fam \<noteq> AnyFamily"
    and "nft_machine big sem"
  shows "run_rule sem (daddrLoad fam # ys) k r l = run_rule sem ys k (AsSlice (fl_dst f)) l"
proof (cases "fl_dst f")
  case NoAddr
  then show ?thesis using assms(1) by (simp add: kflow_def)
next
  case (Addr4 w)
  then have "fam = V4" using assms(2,3) by (cases fam) (simp_all add: family_hits_def)
  then show ?thesis
    using assms(1) Addr4
    by (simp add: kflow_def daddrLoad_def nft_machineD[OF assms(4)] payload_of_def)
next
  case (Addr6 w z)
  then have "fam = V6" using assms(2,3) by (cases fam) (simp_all add: family_hits_def)
  then show ?thesis
    using assms(1) Addr6
    by (simp add: kflow_def daddrLoad_def nft_machineD[OF assms(4)] payload_of_def)
qed

text \<open>Mask and compare against a prefix of the address's family.\<close>

definition prefix_exprs :: "nat \<Rightarrow> ip_prefix \<Rightarrow> expr list" where
  "prefix_exprs sz p =
     (if pfx_Bits p < sz * 8 then [ExBitwise sz (prefix_mask sz (pfx_Bits p)) (replicate sz 0)] else [])
     @ [ExCmp CmpEq (AsSlice (pfx_Addr (Masked p)))]"

lemma masked_bytes:
  fixes a w :: "'a::len word"
  assumes "nft_machine big sem" and "8 * sz = LENGTH('a)" and "b \<le> 8 * sz"
    and "AsSlice (pfx_Addr (Masked p)) = word_bytes sz (w AND NOT (mask (8 * sz - b)))" and "pfx_Bits p = b"
  shows "run_rule sem (prefix_exprs sz p @ ys) k (word_bytes sz a) l =
    (if drop_bit (8 * sz - b) a = drop_bit (8 * sz - b) w
     then run_rule sem ys k (word_bytes sz (a AND NOT (mask (8 * sz - b)))) l else None)"
proof -
  let ?m = "NOT (mask (8 * sz - b)) :: 'a word"
  have pm: "prefix_mask sz b = word_bytes sz ?m" using assms(2,3) by (rule prefix_mask_word)
  have x: "map2 (XOR) (map2 (AND) (word_bytes sz a) (word_bytes sz ?m)) (replicate sz 0) = word_bytes sz (a AND ?m)"
    using map2_xor_zero[of "word_bytes sz (a AND ?m)"] by (simp add: word_bytes_and)
  have eq: "word_bytes sz (a AND ?m) = word_bytes sz (w AND ?m) \<longleftrightarrow>
      drop_bit (8 * sz - b) a = drop_bit (8 * sz - b) w"
  proof -
    have "a AND ?m = w AND ?m \<longleftrightarrow> (a XOR w) AND ?m = 0"
      unfolding bit.conj_xor_distrib2 word_xor_eq_0_iff ..
    then show ?thesis using assms(2) by (simp add: word_bytes_inj xor_mask_zero_iff)
  qed
  have full: "b = 8 * sz \<Longrightarrow> a AND ?m = a" by simp
  show ?thesis
    using assms(3-5) eq full
    by (auto simp: prefix_exprs_def nft_machineD[OF assms(1)] pm x length_word_bytes)
qed

lemma prefix_guard:
  assumes m: "nft_machine big sem" and kf: "kflow E k f"
    and fam: "family_hits (familyOf p) (fl_dst f)"
    and wf: "IsValid (pfx_Addr p)" "pfx_Bits p \<le> BitLen (pfx_Addr p)"
  shows "guard sem (daddrLoad (familyOf p) # prefix_exprs (if familyOf p = V6 then 16 else 4) p) k
    (Prefix_Contains p (fl_dst f))"
proof -
  have f: "familyOf p \<noteq> AnyFamily" by (simp add: familyOf_def)
  obtain q b where p: "p = IpPrefix q b" by (cases p)
  note run = daddr_bytes[OF kf fam f m]
  show ?thesis
  proof (cases q)
    case NoAddr
    then show ?thesis using wf p by simp
  next
    case (Addr4 w)
    then obtain a where a: "fl_dst f = Addr4 a"
      using fam p by (cases "fl_dst f") (auto simp: family_hits_def familyOf_def)
    have fp: "familyOf p = V4" by (simp add: p Addr4 familyOf_def)
    have c: "Prefix_Contains p (fl_dst f) \<longleftrightarrow> drop_bit (8 * 4 - b) a = drop_bit (8 * 4 - b) w"
      using Contains_Masked4[of w b a, unfolded Contains_Masked] by (simp add: a p Addr4)
    have s: "AsSlice (pfx_Addr (Masked p)) = word_bytes 4 (w AND NOT (mask (8 * 4 - b)))"
      by (simp add: p Addr4)
    have "run_rule sem ((daddrLoad V4 # prefix_exprs 4 p) @ ys) k r l =
        (if Prefix_Contains p (fl_dst f)
         then run_rule sem ys k (word_bytes 4 (a AND NOT (mask (8 * 4 - b)))) l else None)" for r ys l
    proof -
      have "run_rule sem ((daddrLoad V4 # prefix_exprs 4 p) @ ys) k r l =
          run_rule sem (prefix_exprs 4 p @ ys) k (word_bytes 4 a) l"
        using run[of "prefix_exprs 4 p @ ys" r l] unfolding fp a by (simp only: append_Cons AsSlice.simps)
      also have "\<dots> = (if Prefix_Contains p (fl_dst f)
         then run_rule sem ys k (word_bytes 4 (a AND NOT (mask (8 * 4 - b)))) l else None)"
        unfolding c by (rule masked_bytes[OF m _ _ s]) (use wf(2) p Addr4 in simp_all)
      finally show ?thesis .
    qed
    from guardI[OF this] show ?thesis unfolding fp by simp
  next
    case (Addr6 w z)
    then obtain a where a: "fl_dst f = Addr6 a []"
      using fam p kf by (cases "fl_dst f") (auto simp: family_hits_def familyOf_def kflow_def)
    have fp: "familyOf p = V6" by (simp add: p Addr6 familyOf_def)
    have c: "Prefix_Contains p (fl_dst f) \<longleftrightarrow> drop_bit (8 * 16 - b) a = drop_bit (8 * 16 - b) w"
      using Contains_Masked6[of w z b a, unfolded Contains_Masked] by (simp add: a p Addr6)
    have s: "AsSlice (pfx_Addr (Masked p)) = word_bytes 16 (w AND NOT (mask (8 * 16 - b)))"
      by (simp add: p Addr6 mask6_def)
    have "run_rule sem ((daddrLoad V6 # prefix_exprs 16 p) @ ys) k r l =
        (if Prefix_Contains p (fl_dst f)
         then run_rule sem ys k (word_bytes 16 (a AND NOT (mask (8 * 16 - b)))) l else None)" for r ys l
    proof -
      have "run_rule sem ((daddrLoad V6 # prefix_exprs 16 p) @ ys) k r l =
          run_rule sem (prefix_exprs 16 p @ ys) k (word_bytes 16 a) l"
        using run[of "prefix_exprs 16 p @ ys" r l] unfolding fp a by (simp only: append_Cons AsSlice.simps)
      also have "\<dots> = (if Prefix_Contains p (fl_dst f)
         then run_rule sem ys k (word_bytes 16 (a AND NOT (mask (8 * 16 - b)))) l else None)"
        unfolding c by (rule masked_bytes[OF m _ _ s]) (use wf(2) p Addr6 in simp_all)
      finally show ?thesis .
    qed
    from guardI[OF this] show ?thesis unfolding fp by simp
  qed
qed

definition sets_named :: "handle \<Rightarrow> bool" where
  "sets_named h \<longleftrightarrow> (\<forall>n s. hd_sets h n = Some s \<longrightarrow> ns_Name s = n)"

lemma addr_guard:
  assumes m: "nft_machine big sem" and kf: "kflow E k f" and wf: "atom_wf a" and nm: "sets_named h"
    and ad: "addr_exprs h a = (Inr ad :: 'e apply_error + expr list)"
    and fam: "family_hits (at_Family a) (fl_dst f)"
  shows "guard sem ad k (case at_Prefix a of Some p \<Rightarrow> Prefix_Contains p (fl_dst f)
     | None \<Rightarrow> at_Set a = [] \<or> fl_sets f (at_Set a) (fl_dst f))"
proof (cases "at_Prefix a")
  case (Some p)
  then have f: "at_Family a = familyOf p" "IsValid (pfx_Addr p)" "pfx_Bits p \<le> BitLen (pfx_Addr p)"
    using wf by (auto simp: atom_wf_def)
  have "ad = daddrLoad (familyOf p) # prefix_exprs (if familyOf p = V6 then 16 else 4) p"
    using ad Some f(1) by (auto simp: addr_exprs_def prefix_exprs_def Let_def)
  then show ?thesis using prefix_guard[OF m kf _ f(2,3)] fam f(1) Some by simp
next
  case None
  show ?thesis
  proof (cases "at_Set a = []")
    case True
    then show ?thesis using ad None guard_Nil by (simp add: addr_exprs_def)
  next
    case False
    then obtain s where "hd_sets h (at_Set a) = Some s"
      and a: "ad = [daddrLoad (at_Family a), ExLookup (ns_Name s)]"
      using ad None by (auto simp: addr_exprs_def split: option.splits)
    then have s: "ns_Name s = at_Set a" using nm by (simp add: sets_named_def)
    have any: "at_Family a \<noteq> AnyFamily" using wf None False by (simp add: atom_wf_def)
    have k: "kp_sets k n (AsSlice (fl_dst f)) \<longleftrightarrow> fl_sets f n (fl_dst f)" for n
      using kf by (simp add: kflow_def)
    show ?thesis
      unfolding a s
      by (rule guardI[where r' = "AsSlice (fl_dst f)"], unfold append_Cons daddr_bytes[OF kf fam any m])
         (simp add: nft_machineD[OF m] k None False)
  qed
qed

lemma proto_guard:
  assumes m: "nft_machine big sem" and kf: "kflow E k f" and wf: "atom_wf a"
    and pr: "proto_exprs E h a = (Inr (h', pr) :: 'e apply_error + _)"
    and ld: "sets_loaded k (hd_queue h')"
  shows "guard sem pr k (if at_Proto a \<noteq> [] then fl_l4 f = at_Proto a
     else pr_hi (at_Port a) \<noteq> 0 \<longrightarrow> fl_l4 f = ''tcp'' \<or> fl_l4 f = ''udp'')"
proof -
  have l4: "fl_l4 f = ''tcp'' \<longleftrightarrow> kp_l4 k = 6" "fl_l4 f = ''udp'' \<longleftrightarrow> kp_l4 k = 17"
    using kf by (simp_all add: kflow_def)
  consider (named) "at_Proto a \<noteq> []" | (ports) "at_Proto a = []" "pr_hi (at_Port a) \<noteq> 0"
    | (none) "at_Proto a = []" "pr_hi (at_Port a) = 0" by blast
  then show ?thesis
  proof cases
    case named
    then have "at_Proto a = ''tcp'' \<or> at_Proto a = ''udp''" using wf by (simp add: atom_wf_def)
    then show ?thesis
      using pr named l4
      by (intro guardI[where r' = "[kp_l4 k]"]) (auto simp: proto_exprs_def nft_machineD[OF m])
  next
    case ports
    let ?s = "\<lparr>ns_Name = ''__set'' @ itoa (hd_anon h + 1), ns_KeyType = KeyInetProto, ns_HasTimeout = False,
               ns_Anonymous = True, ns_Constant = True\<rparr>"
    let ?els = "[\<lparr>el_Key = [6], el_Timeout = 0\<rparr>, \<lparr>el_Key = [17], el_Timeout = 0\<rparr>] :: set_element list"
    have q: "OpAddSet ?s ?els \<in> set (hd_queue h')" and e: "pr = [ExMeta MetaL4PROTO, ExLookup (ns_Name ?s)]"
      using pr ports by (auto simp: proto_exprs_def tcpOrUDP_def Let_def queue_def split: option.splits)
    have "kp_sets k (ns_Name ?s) [kp_l4 k] \<longleftrightarrow> [kp_l4 k] \<in> el_Key ` set ?els"
      using ld q unfolding sets_loaded_def by fastforce
    then have "kp_sets k (ns_Name ?s) [kp_l4 k] \<longleftrightarrow> fl_l4 f = ''tcp'' \<or> fl_l4 f = ''udp''"
      unfolding l4 by simp
    then show ?thesis
      using ports by (intro guardI[where r' = "[kp_l4 k]"]) (simp add: e nft_machineD[OF m])
  next
    case none
    then show ?thesis using pr guard_Nil by (simp add: proto_exprs_def)
  qed
qed

lemma port_guard:
  assumes m: "nft_machine big sem" and kf: "kflow E k f"
    and l4: "pr_hi (at_Port a) \<noteq> 0 \<Longrightarrow> fl_l4 f = ''tcp'' \<or> fl_l4 f = ''udp''"
  shows "guard sem (port_exprs a) k (pr_hi (at_Port a) \<noteq> 0 \<longrightarrow>
     pr_lo (at_Port a) \<le> fl_port f \<and> fl_port f \<le> pr_hi (at_Port a))"
proof (cases "pr_hi (at_Port a) = 0")
  case True
  then show ?thesis using guard_Nil by (simp add: port_exprs_def)
next
  case False
  then have t: "4 \<le> length (kp_trans k)" "take 2 (drop 2 (kp_trans k)) = be16 (fl_port f)"
    using l4 kf by (auto simp: kflow_def)
  show ?thesis
  proof (rule guardI[where r' = "be16 (fl_port f)"])
    fix r ys l
    show "run_rule sem (port_exprs a @ ys) k r l =
      (if pr_hi (at_Port a) \<noteq> 0 \<longrightarrow> pr_lo (at_Port a) \<le> fl_port f \<and> fl_port f \<le> pr_hi (at_Port a)
       then run_rule sem ys k (be16 (fl_port f)) l else None)"
    proof (cases "pr_lo (at_Port a) = pr_hi (at_Port a)")
      case True
      then show ?thesis
        using False t
        by (auto simp: port_exprs_def nft_machineD[OF m] payload_of_def be16_inj)
    next
      case neq: False
      then show ?thesis
        using False t
        by (simp add: port_exprs_def nft_machineD[OF m] payload_of_def be16_le_iff)
    qed
  qed
qed

text \<open>The answer a rule made of an atom gives.\<close>

definition refusal :: "verdict \<times> string \<Rightarrow> verdict \<times> string option" where
  "refusal vr = (fst vr, if fst vr = Deny then Some (LogPrefix (snd vr)) else None)"

lemma verdict_run:
  "nft_machine big sem \<Longrightarrow>
     run_rule sem (verdict_exprs a) k r l = Some (refusal (at_Verdict a, at_Rule a))"
  by (cases "at_Verdict a") (simp_all add: verdict_exprs_def refuse_rule refusal_def nft_machineD)

lemma atomExprs_run:
  assumes m: "nft_machine (ev_BigEndian E) sem" and kf: "kflow E k f" and wf: "atom_wf a"
    and nm: "sets_named h" and ae: "atomExprs E h a = Inr (h', xs)"
    and ld: "sets_loaded k (hd_queue h')"
  shows "run_rule sem xs k [] None =
    (if atom_hits a f then Some (refusal (at_Verdict a, at_Rule a)) else None)"
proof -
  obtain cg ad pr where cg: "cgroup_exprs E a = Inr cg" and ad: "addr_exprs h a = (Inr ad :: 'a apply_error + _)"
    and pr: "proto_exprs E h a = Inr (h', pr)"
    and xs: "xs = (cg @ family_exprs a @ ad @ pr @ port_exprs a) @ verdict_exprs a"
    using ae by (auto simp: atomExprs_def split: sum.splits)
  let ?cg = "at_Cgroup a = [] \<or> cgroup_hits (at_Cgroup a) (fl_cgroup f)"
  let ?fam = "family_hits (at_Family a) (fl_dst f)"
  let ?ad = "case at_Prefix a of Some p \<Rightarrow> Prefix_Contains p (fl_dst f)
     | None \<Rightarrow> at_Set a = [] \<or> fl_sets f (at_Set a) (fl_dst f)"
  let ?pr = "if at_Proto a \<noteq> [] then fl_l4 f = at_Proto a
     else pr_hi (at_Port a) \<noteq> 0 \<longrightarrow> fl_l4 f = ''tcp'' \<or> fl_l4 f = ''udp''"
  let ?po = "pr_hi (at_Port a) \<noteq> 0 \<longrightarrow>
     pr_lo (at_Port a) \<le> fl_port f \<and> fl_port f \<le> pr_hi (at_Port a)"
  have "at_Proto a = [] \<or> at_Proto a = ''tcp'' \<or> at_Proto a = ''udp''"
    using wf by (simp add: atom_wf_def)
  then have l4: "?pr \<Longrightarrow> pr_hi (at_Port a) \<noteq> 0 \<Longrightarrow> fl_l4 f = ''tcp'' \<or> fl_l4 f = ''udp''"
    by (auto split: if_splits)
  have "guard sem (cg @ family_exprs a @ ad @ pr @ port_exprs a) k (?cg \<and> ?fam \<and> ?ad \<and> ?pr \<and> ?po)"
    by (intro guard_append cgroup_guard[OF m kf cg] family_guard[OF m kf] addr_guard[OF m kf wf nm ad]
        proto_guard[OF m kf wf pr ld] port_guard[OF m kf] l4)
  moreover have "(?cg \<and> ?fam \<and> ?ad \<and> ?pr \<and> ?po) = atom_hits a f"
    by (simp only: atom_hits_def)
  ultimately have "guard sem (cg @ family_exprs a @ ad @ pr @ port_exprs a) k (atom_hits a f)"
    by simp
  from guard_then[OF this, of "verdict_exprs a" "[]" None] show ?thesis
    unfolding xs by (auto simp: verdict_run[OF m])
qed

section \<open>The chains of a batch\<close>

definition rules_of :: "string \<Rightarrow> op list \<Rightarrow> expr list list" where
  "rules_of chain ops =
     concat (map (\<lambda>x. case x of OpAddRule c xs \<Rightarrow> if c = chain then [xs] else [] | _ \<Rightarrow> []) ops)"

lemma rules_of_append [simp]: "rules_of chain (xs @ ys) = rules_of chain xs @ rules_of chain ys"
  by (simp add: rules_of_def)

lemma rules_of_simps [simp]:
  "rules_of chain [] = []"
  "rules_of chain [OpAddRule c xs] = (if c = chain then [xs] else [])"
  "rules_of chain [OpDelTable t] = []" "rules_of chain [OpAddTable t] = []"
  "rules_of chain [OpAddSet s els] = []" "rules_of chain [OpAddChain c hk pol] = []"
  by (simp_all add: rules_of_def)

text \<open>
  The hypotheses on a packet that a batch needs: its constant sets are in place, and no socket
  lives in a cgroup that did not exist when the batch was built.
\<close>

definition batch_fits :: "kpacket \<Rightarrow> flow \<Rightarrow> handle \<Rightarrow> bool" where
  "batch_fits k f h \<longleftrightarrow>
     sets_loaded k (hd_queue h) \<and> (\<forall>path \<in> hd_missing h. \<not> CgroupWithin (fl_cgroup f) path)"

text \<open>
  \<open>extends\<close>: the step from \<open>h\<close> to \<open>h'\<close> only appended to the batch, and the rules it added to
  the chain decide the packet as \<open>v\<close> says.
\<close>

definition extends ::
  "machine \<Rightarrow> kpacket \<Rightarrow> flow \<Rightarrow> string \<Rightarrow> handle \<Rightarrow> handle \<Rightarrow> (verdict \<times> string option) option \<Rightarrow> bool" where
  "extends sem k f chain h h' v \<longleftrightarrow>
     (\<exists>new. hd_queue h' = hd_queue h @ new \<and> hd_sets h' = hd_sets h \<and> hd_missing h \<subseteq> hd_missing h'
        \<and> (batch_fits k f h' \<longrightarrow> run_chain sem (rules_of chain new) k = v))"

lemma batch_fits_mono:
  "batch_fits k f h' \<Longrightarrow> set (hd_queue h) \<subseteq> set (hd_queue h') \<Longrightarrow> hd_missing h \<subseteq> hd_missing h' \<Longrightarrow>
     batch_fits k f h"
  by (auto simp: batch_fits_def sets_loaded_def)

lemma extends_refl: "extends sem k f chain h h None"
  by (simp add: extends_def)

lemma extends_trans:
  assumes "extends sem k f chain h h1 v1" and "extends sem k f chain h1 h2 v2"
  shows "extends sem k f chain h h2 (case v1 of None \<Rightarrow> v2 | Some v \<Rightarrow> Some v)"
proof -
  obtain n1 n2 where n: "hd_queue h1 = hd_queue h @ n1" "hd_queue h2 = hd_queue h1 @ n2"
    "hd_sets h1 = hd_sets h" "hd_sets h2 = hd_sets h1" "hd_missing h \<subseteq> hd_missing h1" "hd_missing h1 \<subseteq> hd_missing h2"
    and v: "batch_fits k f h1 \<Longrightarrow> run_chain sem (rules_of chain n1) k = v1"
      "batch_fits k f h2 \<Longrightarrow> run_chain sem (rules_of chain n2) k = v2"
    using assms unfolding extends_def by blast
  have "batch_fits k f h2 \<Longrightarrow> batch_fits k f h1"
    using n by (intro batch_fits_mono[of k f h2 h1]) auto
  then show ?thesis
    unfolding extends_def
    using n v kernel_chain.scan_append[of sem "rules_of chain n1" "rules_of chain n2" k]
    by (intro exI[of _ "n1 @ n2"]) auto
qed

lemma extends_trans_None:
  "extends sem k f chain h h1 None \<Longrightarrow> extends sem k f chain h1 h2 v \<Longrightarrow> extends sem k f chain h h2 v"
  using extends_trans[of sem k f chain h h1 None h2 v] by simp

lemma extends_rule:
  "extends sem k f chain h (h_rule c xs h) (if c = chain then run_rule sem xs k [] None else None)"
  by (auto simp: extends_def h_rule_def queue_def split: option.splits)

lemma extends_queue:
  "rules_of chain [x] = [] \<Longrightarrow> extends sem k f chain h (queue x h) None"
  by (simp add: extends_def queue_def)

lemma atomExprs_grows:
  "atomExprs E h a = Inr (h', xs) \<Longrightarrow>
     \<exists>new. hd_queue h' = hd_queue h @ new \<and> rules_of chain new = [] \<and> hd_sets h' = hd_sets h
       \<and> hd_missing h' = hd_missing h"
  by (auto simp: atomExprs_def proto_exprs_def tcpOrUDP_def Let_def queue_def
      split: sum.splits option.splits if_splits)

lemma extends_atomExprs:
  assumes "atomExprs E h a = Inr (h', xs)"
  shows "extends sem k f chain h h' None"
  using atomExprs_grows[OF assms, of chain] by (auto simp: extends_def)

lemma extends_conditional:
  assumes "extends sem k f chain h h' v" and "batch_fits k f h' \<Longrightarrow> v = w"
  shows "extends sem k f chain h h' w"
  using assms unfolding extends_def by blast

lemma extends_sets: "extends sem k f chain h h' v \<Longrightarrow> hd_sets h' = hd_sets h"
  by (auto simp: extends_def)

lemma sets_named_cong: "hd_sets h' = hd_sets h \<Longrightarrow> sets_named h' = sets_named h"
  by (simp add: sets_named_def)

text \<open>A loop whose every turn extends the chain extends it by the first answer.\<close>

fun first_some :: "('x \<Rightarrow> 'v option) \<Rightarrow> 'x list \<Rightarrow> 'v option" where
  "first_some g [] = None"
| "first_some g (x # xs) = (case g x of None \<Rightarrow> first_some g xs | Some v \<Rightarrow> Some v)"

lemma extends_fold:
  assumes "fold_res step xs h = Inr h'" and "hd_sets h = st"
    and "\<And>x h h1. x \<in> set xs \<Longrightarrow> step x h = Inr h1 \<Longrightarrow> hd_sets h = st \<Longrightarrow>
           extends sem k f chain h h1 (g x)"
  shows "extends sem k f chain h h' (first_some g xs)"
  using assms
proof (induction xs arbitrary: h)
  case Nil
  then show ?case by (simp add: extends_refl)
next
  case (Cons x xs)
  then obtain h1 where h1: "step x h = Inr h1" "fold_res step xs h1 = Inr h'"
    by (auto split: sum.splits)
  have 1: "extends sem k f chain h h1 (g x)" using Cons.prems h1(1) by simp
  have "extends sem k f chain h1 h' (first_some g xs)"
    using Cons.IH[OF h1(2)] Cons.prems extends_sets[OF 1] by simp
  from extends_trans[OF 1 this] show ?case by (cases "g x") simp_all
qed

lemma first_some_None: "(\<And>x. x \<in> set xs \<Longrightarrow> g x = None) \<Longrightarrow> first_some g xs = None"
  by (induction xs) auto

lemma housekeeping_step_extends:
  assumes m: "nft_machine (ev_BigEndian E) sem" and kf: "kflow E k f" and nm: "sets_named h"
    and st: "housekeeping_step E c pfx h = Inr h'" and pfx: "pfx \<in> set housekeeping"
  shows "extends sem k f chain h h'
    (if c = chain \<and> Prefix_Contains pfx (fl_dst f) then Some (Allow, None) else None)"
proof -
  let ?a = "housekeeping_atom pfx"
  obtain h1 xs where ae: "atomExprs E h ?a = Inr (h1, xs)" and h': "h' = h_rule c xs h1"
    using st by (auto simp: housekeeping_step_def split: sum.splits)
  have wf: "atom_wf ?a"
    using pfx by (auto simp: atom_wf_def housekeeping_atom_def housekeeping_def)
  have hits: "atom_hits ?a f \<longleftrightarrow> Prefix_Contains pfx (fl_dst f)"
  proof -
    have "Prefix_Contains pfx (fl_dst f) \<Longrightarrow> family_hits (familyOf pfx) (fl_dst f)"
      using Contains_family[of pfx "fl_dst f"]
      by (cases "fl_dst f"; cases "pfx_Addr pfx") (auto simp: familyOf_def family_hits_def)
    then show ?thesis by (auto simp: atom_hits_def housekeeping_atom_def)
  qed
  have e: "extends sem k f chain h h' (if c = chain then run_rule sem xs k [] None else None)"
    unfolding h' by (rule extends_trans_None[OF extends_atomExprs[OF ae] extends_rule])
  show ?thesis
  proof (rule extends_conditional[OF e])
    assume "batch_fits k f h'"
    then have "sets_loaded k (hd_queue h1)"
      by (auto simp: batch_fits_def sets_loaded_def h' h_rule_def queue_def)
    from atomExprs_run[OF m kf wf nm ae this] hits
    show "(if c = chain then run_rule sem xs k [] None else None) =
      (if c = chain \<and> Prefix_Contains pfx (fl_dst f) then Some (Allow, None) else None)"
      by (simp add: refusal_def housekeeping_atom_def)
  qed
qed

lemma atom_step_extends:
  assumes m: "nft_machine (ev_BigEndian E) sem" and kf: "kflow E k f" and nm: "sets_named h"
    and st: "atom_step E c forward a h = Inr h'" and wf: "atom_wf a"
  shows "extends sem k f chain h h'
    (if c = chain \<and> inChain a forward \<and> atom_hits a f then Some (refusal (at_Verdict a, at_Rule a)) else None)"
proof (cases "inChain a forward")
  case False
  then show ?thesis using st by (auto simp: atom_step_def extends_refl)
next
  case True
  show ?thesis
  proof (cases "atomExprs E h a")
    case (Inl e)
    then have e: "e = CgroupMissing" and h': "h' = h\<lparr>hd_missing := insert (at_Cgroup a) (hd_missing h)\<rparr>"
      using st True by (auto simp: atom_step_def split: apply_error.splits)
    have cg: "at_Cgroup a \<noteq> []"
      using Inl e by (auto simp: atomExprs_def cgroup_exprs_def addr_exprs_def proto_exprs_def
          tcpOrUDP_def Let_def split: sum.splits option.splits if_splits)
    have e: "extends sem k f chain h h' None"
      by (auto simp: extends_def h')
    show ?thesis
    proof (rule extends_conditional[OF e])
      assume "batch_fits k f h'"
      then have "\<not> cgroup_hits (at_Cgroup a) (fl_cgroup f)"
        by (simp add: batch_fits_def h' cgroup_hits_iff)
      then have "\<not> atom_hits a f" using cg by (simp add: atom_hits_def)
      then show "None = (if c = chain \<and> inChain a forward \<and> atom_hits a f
          then Some (refusal (at_Verdict a, at_Rule a)) else None)" by simp
    qed
  next
    case (Inr r)
    then obtain h1 xs where ae: "atomExprs E h a = Inr (h1, xs)" by (cases r) auto
    then have h': "h' = h_rule c xs h1" using st True by (simp add: atom_step_def)
    have e: "extends sem k f chain h h' (if c = chain then run_rule sem xs k [] None else None)"
      unfolding h' by (rule extends_trans_None[OF extends_atomExprs[OF ae] extends_rule])
    show ?thesis
    proof (rule extends_conditional[OF e])
      assume "batch_fits k f h'"
      then have "sets_loaded k (hd_queue h1)"
        by (auto simp: batch_fits_def sets_loaded_def h' h_rule_def queue_def)
      from atomExprs_run[OF m kf wf nm ae this] True
      show "(if c = chain then run_rule sem xs k [] None else None) =
        (if c = chain \<and> inChain a forward \<and> atom_hits a f then Some (refusal (at_Verdict a, at_Rule a)) else None)"
        by simp
    qed
  qed
qed

section \<open>The whole batch\<close>

definition established :: "kpacket \<Rightarrow> bool" where
  "established k \<longleftrightarrow> kp_ct k AND (CtStateBitESTABLISHED OR CtStateBitRELATED) \<noteq> 0"

definition local_link :: "flow \<Rightarrow> bool" where
  "local_link f \<longleftrightarrow> (\<exists>pfx \<in> set housekeeping. Prefix_Contains pfx (fl_dst f))"

text \<open>What the rules of \<open>chainBody\<close> answer.\<close>

definition body_answer :: "plan \<Rightarrow> bool \<Rightarrow> kpacket \<Rightarrow> flow \<Rightarrow> (verdict \<times> string option) option" where
  "body_answer p forward k f =
     (if established k \<or> local_link f then Some (Allow, None)
      else case chain_scan (filter (\<lambda>a. inChain a forward) (pn_Atoms p)) f of
        Some v \<Rightarrow> Some (refusal v)
      | None \<Rightarrow> if pn_DefaultDeny p then Some (refusal (Deny, [])) else None)"

lemma first_some_chain_scan:
  "first_some (\<lambda>a. if inChain a forward \<and> atom_hits a f then Some (refusal (at_Verdict a, at_Rule a)) else None) as
     = map_option refusal (chain_scan (filter (\<lambda>a. inChain a forward) as) f)"
  by (induction as) (simp_all add: atom_decision_def)

lemma first_some_const:
  "first_some (\<lambda>x. if P x then Some v else None) xs = (if \<exists>x \<in> set xs. P x then Some v else None)"
  by (induction xs) auto

lemma chainBody_extends:
  assumes m: "nft_machine (ev_BigEndian E) sem" and kf: "kflow E k f" and nm: "sets_named h"
    and wf: "\<forall>a \<in> set (pn_Atoms p). atom_wf a"
    and cb: "chainBody E c p forward h = Inr h'"
  shows "extends sem k f chain h h' (if c = chain then body_answer p forward k f else None)"
proof -
  let ?h0 = "h_rule c (establishedAccept (ev_BigEndian E)) h"
  obtain h1 h2 where h1: "fold_res (housekeeping_step E c) housekeeping ?h0 = Inr h1"
    and h2: "fold_res (atom_step E c forward) (pn_Atoms p) h1 = Inr h2"
    and h': "h' = (if pn_DefaultDeny p then h_rule c (refuse []) h2 else h2)"
    using cb by (auto simp: chainBody_def split: sum.splits)
  have e0: "extends sem k f chain h ?h0
      (if c = chain \<and> established k then Some (Allow, None) else None)"
    using extends_rule[of sem k f chain h c "establishedAccept (ev_BigEndian E)"]
    by (cases "c = chain") (simp_all add: established_rule[OF m] established_def)
  have n0: "sets_named h0" if "hd_sets h0 = hd_sets ?h0" for h0
    using that nm by (simp add: sets_named_def h_rule_def queue_def)
  have e1': "extends sem k f chain ?h0 h1
      (first_some (\<lambda>pfx. if c = chain \<and> Prefix_Contains pfx (fl_dst f) then Some (Allow, None) else None) housekeeping)"
    by (rule extends_fold[OF h1 refl]) (rule housekeeping_step_extends[OF m kf n0])
  have e1: "extends sem k f chain ?h0 h1 (if c = chain \<and> local_link f then Some (Allow, None) else None)"
    using e1' unfolding first_some_const by (simp add: local_link_def)
  have s1: "hd_sets h1 = hd_sets ?h0" by (rule extends_sets[OF e1])
  have e2': "extends sem k f chain h1 h2
      (first_some (\<lambda>a. if c = chain \<and> inChain a forward \<and> atom_hits a f
         then Some (refusal (at_Verdict a, at_Rule a)) else None) (pn_Atoms p))"
    by (rule extends_fold[OF h2 s1]) (use wf in \<open>blast intro: atom_step_extends[OF m kf n0]\<close>)
  let ?scan = "map_option refusal (chain_scan (filter (\<lambda>a. inChain a forward) (pn_Atoms p)) f)"
  have "first_some (\<lambda>a. if c = chain \<and> inChain a forward \<and> atom_hits a f
         then Some (refusal (at_Verdict a, at_Rule a)) else None) (pn_Atoms p) = (if c = chain then ?scan else None)"
    by (cases "c = chain") (simp_all add: first_some_chain_scan first_some_None)
  with e2' have e2: "extends sem k f chain h1 h2 (if c = chain then ?scan else None)" by simp
  have e3: "extends sem k f chain h2 h'
      (if c = chain \<and> pn_DefaultDeny p then Some (refusal (Deny, [])) else None)"
    using extends_rule[of sem k f chain h2 c "refuse []"]
    by (cases "c = chain"; cases "pn_DefaultDeny p")
       (simp_all add: h' extends_refl refuse_rule[OF m] refusal_def)
  note all = extends_trans[OF extends_trans[OF extends_trans[OF e0 e1] e2] e3]
  show ?thesis
  proof (cases "c = chain")
    case True
    with all show ?thesis
      by (cases "established k"; cases "local_link f";
          cases "chain_scan (filter (\<lambda>a. inChain a forward) (pn_Atoms p)) f")
         (simp_all add: body_answer_def)
  qed (use all in simp)
qed

text \<open>What has been queued before the first chain.\<close>

definition before_chains :: "handle \<Rightarrow> bool" where
  "before_chains h \<longleftrightarrow> (\<forall>c. rules_of c (hd_queue h) = []) \<and> sets_named h"

lemma before_chains_queue:
  "before_chains h \<Longrightarrow> (\<And>c. rules_of c [x] = []) \<Longrightarrow> before_chains (queue x h)"
  by (simp add: before_chains_def queue_def sets_named_def)

lemma set_steps_before_chains:
  "fold_res (set_step E) ds h = Inr h' \<Longrightarrow> before_chains h \<Longrightarrow> before_chains h'"
proof (induction ds arbitrary: h)
  case (Cons d ds)
  then obtain h1 where h1: "set_step E d h = Inr h1" "fold_res (set_step E) ds h1 = Inr h'"
    by (auto split: sum.splits)
  have "before_chains h1"
    using h1(1) Cons.prems(2)
    by (auto simp: set_step_def Let_def before_chains_def queue_def sets_named_def def_set_def
        split: option.splits if_splits)
  with Cons.IH h1(2) show ?case by blast
qed simp

lemma deleteTable_before_chains:
  assumes "deleteTable E k h = Inr h'" and "before_chains h"
  shows "before_chains h'"
proof -
  have "before_chains (fold (\<lambda>t h. if t = TableName then queue (OpDelTable t) h else h) ts h)" for ts
    using assms(2) by (induction ts arbitrary: h) (simp_all add: before_chains_queue)
  then show ?thesis using assms(1) by (auto simp: deleteTable_def split: sum.splits)
qed

lemma bridge_rules_extend:
  assumes m: "nft_machine (ev_BigEndian E) sem" and oif: "length (kp_oif k) = 16"
  shows "extends sem k f chain h
    (fold (\<lambda>pfx. h_rule ForwardChain (oifPrefixAccept pfx)) bridgePrefixes h)
    (if chain = ForwardChain \<and> (\<exists>pfx \<in> set bridgePrefixes. prefix (map of_char pfx) (kp_oif k))
     then Some (Allow, None) else None)"
proof -
  let ?r = "\<lambda>pfx. h_rule ForwardChain (oifPrefixAccept pfx)"
  have e: "extends sem k f chain h (?r pfx h)
      (if chain = ForwardChain \<and> prefix (map of_char pfx) (kp_oif k) then Some (Allow, None) else None)"
    if "length pfx \<le> 16" for pfx h
    using extends_rule[of sem k f chain h ForwardChain "oifPrefixAccept pfx"]
    by (cases "chain = ForwardChain") (auto simp: oifPrefix_rule[OF m oif that])
  have b: "fold ?r bridgePrefixes h = ?r ''br-'' (?r ''docker'' h)"
    "(\<exists>pfx \<in> set bridgePrefixes. P pfx) \<longleftrightarrow> P ''docker'' \<or> P ''br-''" for P
    by (simp_all add: bridgePrefixes_def)
  obtain P where P: "P = (\<lambda>pfx. prefix (map of_char pfx) (kp_oif k))" by blast
  have "extends sem k f chain h (?r ''br-'' (?r ''docker'' h))
    (if chain = ForwardChain \<and> (P ''docker'' \<or> P ''br-'') then Some (Allow, None) else None)"
    using extends_trans[OF e[of "''docker''" h, folded P] e[of "''br-''" "?r ''docker'' h"]]
    unfolding P[symmetric] fun_cong[OF P, symmetric]
    by (cases "chain = ForwardChain"; cases "P ''docker''"; cases "P ''br-''") simp_all
  then show ?thesis unfolding b P .
qed

text \<open>Accepted on the loopback interface, or on a container bridge.\<close>

definition on_loopback :: "kpacket \<Rightarrow> bool" where
  "on_loopback k \<longleftrightarrow> kp_oif k = map of_char ''lo'' @ replicate 14 0"

definition on_bridge :: "kpacket \<Rightarrow> bool" where
  "on_bridge k \<longleftrightarrow> (\<exists>pfx \<in> set bridgePrefixes. prefix (map of_char pfx) (kp_oif k))"

lemma Apply_batch_chains:
  assumes m: "nft_machine (ev_BigEndian E) sem" and kf: "kflow E k f" and oif: "length (kp_oif k) = 16"
    and wf: "\<forall>a \<in> set (pn_Atoms p). atom_wf a"
    and ap: "Apply_batch E p k0 = Inr h" and fits: "batch_fits k f h"
  shows "run_chain sem (rules_of ChainName (hd_queue h)) k =
      (if on_loopback k then Some (Allow, None) else body_answer p False k f)"
    "pn_Forward p \<Longrightarrow> run_chain sem (rules_of ForwardChain (hd_queue h)) k =
      (if on_bridge k then Some (Allow, None) else body_answer p True k f)"
proof -
  let ?pol = "if pn_DefaultDeny p then PolicyDrop else PolicyAccept"
  obtain h0 h1 h2 where h0: "deleteTable E k0 new_handle = Inr h0"
    and h1: "fold_res (set_step E) (pn_Sets p) (queue (OpAddTable TableName) h0) = Inr h1"
    and h2: "chainBody E ChainName p False
        (h_rule ChainName loopbackAccept (queue (OpAddChain ChainName HookOutput ?pol) h1)) = Inr h2"
    and h: "forward_chain E ?pol p h2 = Inr h"
    using ap by (auto simp: Apply_batch_def Let_def split: option.splits sum.splits)
  have "before_chains new_handle" by (simp add: before_chains_def new_handle_def sets_named_def)
  then have b1: "before_chains h1"
    using deleteTable_before_chains[OF h0] set_steps_before_chains[OF h1] before_chains_queue by simp
  have out: "ChainName \<noteq> ForwardChain" by (simp add: ChainName_def ForwardChain_def)
  let ?hc = "queue (OpAddChain ChainName HookOutput ?pol) h1"
  let ?hl = "h_rule ChainName loopbackAccept ?hc"
  have ec: "extends sem k f c h1 ?hc None" for c by (rule extends_queue) simp
  have el: "extends sem k f c ?hc ?hl (if ChainName = c \<and> on_loopback k then Some (Allow, None) else None)" for c
    using extends_rule[of sem k f c ?hc ChainName loopbackAccept]
    by (cases "ChainName = c") (simp_all add: loopback_rule[OF m oif] on_loopback_def)
  have nl: "sets_named ?hl" using b1 by (simp add: before_chains_def sets_named_def h_rule_def queue_def)
  have eb: "extends sem k f c ?hl h2 (if ChainName = c then body_answer p False k f else None)" for c
    by (rule chainBody_extends[OF m kf nl wf h2])
  have n2: "sets_named h2" using nl extends_sets[OF eb] by (simp add: sets_named_def)
  have e2: "extends sem k f c h1 h2 (if ChainName = c then
      if on_loopback k then Some (Allow, None) else body_answer p False k f else None)" for c
    using extends_trans[OF extends_trans_None[OF ec el] eb, of c]
    by (cases "ChainName = c"; cases "on_loopback k") simp_all
  have ef: "extends sem k f c h2 h (if pn_Forward p \<and> c = ForwardChain then
      if on_bridge k then Some (Allow, None) else body_answer p True k f else None)" for c
  proof (cases "pn_Forward p")
    case False
    then show ?thesis using h by (simp add: forward_chain_def extends_refl)
  next
    case True
    let ?hq = "queue (OpAddChain ForwardChain HookForward ?pol) h2"
    let ?hb = "fold (\<lambda>pfx. h_rule ForwardChain (oifPrefixAccept pfx)) bridgePrefixes ?hq"
    have eq: "extends sem k f c h2 ?hq None" by (rule extends_queue) simp
    note br = bridge_rules_extend[OF m oif, of f c ?hq]
    have nb: "sets_named ?hb"
      using n2 extends_sets[OF br] by (simp add: sets_named_def queue_def)
    have "chainBody E ForwardChain p True ?hb = Inr h" using h True by (simp add: forward_chain_def)
    from chainBody_extends[OF m kf nb wf this, of c]
    show ?thesis
      using extends_trans[OF extends_trans_None[OF eq br]] True
      by (cases "c = ForwardChain"; cases "on_bridge k") (force simp: on_bridge_def)+
  qed
  have total: "run_chain sem (rules_of c (hd_queue h)) k = v" if e: "extends sem k f c h1 h v" for c v
  proof -
    obtain new where "hd_queue h = hd_queue h1 @ new" "run_chain sem (rules_of c new) k = v"
      using e fits unfolding extends_def by auto
    then show ?thesis using b1 by (simp add: before_chains_def)
  qed
  show "run_chain sem (rules_of ChainName (hd_queue h)) k =
      (if on_loopback k then Some (Allow, None) else body_answer p False k f)"
    using total[OF extends_trans[OF e2 ef]] out
    by (simp split: option.splits)
  show "run_chain sem (rules_of ForwardChain (hd_queue h)) k =
      (if on_bridge k then Some (Allow, None) else body_answer p True k f)" if "pn_Forward p"
    using total[OF extends_trans[OF e2 ef], of ForwardChain] out that by simp
qed

section \<open>Plans of compiled policies\<close>

lemma Build_atom_wf:
  assumes "Compile p = Inr s"
  shows "\<forall>a \<in> set (pn_Atoms (Build s)). atom_wf a"
proof
  fix a assume "a \<in> set (pn_Atoms (Build s))"
  then obtain i where i: "i < length (ps_rules s)"
      and a: "a \<in> set (build_atoms i (rule_view_of (ps_rules s ! i)))"
    by (auto simp: Build_def Let_def Set_Rules_def in_set_enumerate_eq)
  let ?c = "ps_rules s ! i"
  have "rule_wf ?c" using Compile_wf[OF assms] i by simp
  then have wf: "cr_proto ?c = [] \<or> cr_proto ?c = ''tcp'' \<or> cr_proto ?c = ''udp''"
    "\<And>q. q \<in> set (cr_prefixes ?c) \<Longrightarrow> IsValid (pfx_Addr q) \<and> pfx_Bits q \<le> BitLen (pfx_Addr q)"
    by (auto simp: rule_wf_def list_all_iff)
  from a consider
      (any) "a \<in> set (emit_atoms (rule_view_of ?c) AnyFamily None [])"
    | (pfx) q where "q \<in> set (cr_prefixes ?c)" "a \<in> set (emit_atoms (rule_view_of ?c) (familyOf q) (Some q) [])"
    | (st) fm where "fm \<noteq> AnyFamily" "a \<in> set (emit_atoms (rule_view_of ?c) fm None (setName i fm))"
    by (auto simp: build_atoms_def rule_view_of_def split: if_splits)
  then show "atom_wf a"
  proof cases
    case any
    then show ?thesis using wf(1) by (auto simp: emit_atoms_def atom_wf_def rule_view_of_def)
  next
    case (pfx q)
    then show ?thesis using wf by (auto simp: emit_atoms_def atom_wf_def rule_view_of_def)
  next
    case (st fm)
    then show ?thesis using wf(1) by (auto simp: emit_atoms_def atom_wf_def rule_view_of_def)
  qed
qed

lemma body_answer_output:
  "body_answer p False k f =
     (if established k \<or> local_link f then Some (Allow, None)
      else case chain_scan (pn_Atoms p) f of
        Some v \<Rightarrow> Some (refusal v)
      | None \<Rightarrow> if pn_DefaultDeny p then Some (refusal (Deny, [])) else None)"
  by (simp add: body_answer_def inChain_def)

text \<open>A forwarded packet has no local socket: the atoms left out of the chain could not match.\<close>

lemma body_answer_forward:
  assumes "fl_cgroup f = []"
  shows "body_answer p True k f = body_answer p False k f"
proof -
  have "chain_scan (filter (\<lambda>a. inChain a True) (pn_Atoms p)) f = chain_scan (pn_Atoms p) f"
    by (rule atom_chain.scan_filter_irrelevant)
       (use assms in \<open>auto simp: atom_hits_def inChain_def cgroup_hits_iff CgroupWithin_def HasPrefix_def\<close>)
  then show ?thesis by (simp add: body_answer_def inChain_def)
qed

text \<open>The fate of a packet at a hook: the chain's answer, or the chain's policy.\<close>

definition chain_fate :: "machine \<Rightarrow> string \<Rightarrow> plan \<Rightarrow> op list \<Rightarrow> kpacket \<Rightarrow> verdict \<times> string option" where
  "chain_fate sem chain p ops k =
     (case run_chain sem (rules_of chain ops) k of
        Some v \<Rightarrow> v
      | None \<Rightarrow> (if pn_DefaultDeny p then Deny else Allow, None))"

lemma body_answer_fate:
  "(case (if exempt then Some (Allow, None) else body_answer p False k f) of
      Some v \<Rightarrow> v | None \<Rightarrow> (if pn_DefaultDeny p then Deny else Allow, None)) =
   (if exempt \<or> established k \<or> local_link f then (Allow, None) else refusal (plan_decision p f))"
  by (auto simp: body_answer_output plan_decision_def refusal_def split: option.splits)

lemma plan_decision_Forward: "plan_decision (p\<lparr>pn_Forward := b\<rparr>) f = plan_decision p f"
  by (simp add: plan_decision_def)

text \<open>The tables of the DNS feeder say what \<open>DomainRules\<close> says.\<close>

definition sets_agree :: "policy_set \<Rightarrow> flow \<Rightarrow> bool" where
  "sets_agree s f \<longleftrightarrow>
     (\<forall>i < length (ps_rules s).
        fl_sets f (SetFor i (fl_dst f)) (fl_dst f) \<longleftrightarrow> i \<in> set (DomainRules s (fl_name f)))"

section \<open>Enforcement\<close>

lemma body_answer_Forward [simp]:
  "body_answer (p\<lparr>pn_Forward := b\<rparr>) forward k f = body_answer p forward k f"
  by (simp add: body_answer_def)

lemma output_fate:
  assumes "Compile p = Inr s" and "Apply_batch E ((Build s)\<lparr>pn_Forward := fw\<rparr>) k0 = Inr h"
    and "nft_machine (ev_BigEndian E) sem" and "kflow E k f" and "batch_fits k f h"
    and "length (kp_oif k) = 16" and "\<not> Is4In6 (fl_dst f)"
    and "fl_l4 f = ''tcp'' \<or> fl_l4 f = ''udp''"
    and "TrimChar (fl_cgroup f) (CHR ''/'') = fl_cgroup f" and "sets_agree s f"
  shows "chain_fate sem ChainName (Build s) (hd_queue h) k =
    (if on_loopback k \<or> established k \<or> local_link f then (Allow, None)
     else refusal (dc_Verdict (Evaluate s (dest_of f)), dc_Rule (Evaluate s (dest_of f))))"
proof -
  have valid: "IsValid (fl_dst f)" using assms(4) by (cases "fl_dst f") (auto simp: kflow_def)
  have wf: "\<forall>a \<in> set (pn_Atoms ((Build s)\<lparr>pn_Forward := fw\<rparr>)). atom_wf a"
    using Build_atom_wf[OF assms(1)] by simp
  note pd = policy_decides_plan[OF assms(1) valid assms(7-9), folded sets_agree_def, OF assms(10)]
  show ?thesis
    unfolding chain_fate_def Apply_batch_chains(1)[OF assms(3,4,6) wf assms(2,5)]
    by (simp only: body_answer_Forward body_answer_fate pd)
qed



text \<open>An environment with one cgroup, \<open>a.slice\<close>, and a kernel that only keeps the names of its tables.\<close>

definition example_env :: "(unit, string list) nft_env" where
  "example_env =
     \<lparr>ev_New = None, ev_ListTables = Inr, ev_AddSet = (\<lambda>_. None), ev_SetAddElements = (\<lambda>_ _. None),
      ev_Flush = (\<lambda>ops k. Inr [TableName]),
      ev_Stat = (\<lambda>p. if p = ''/sys/fs/cgroup/a.slice'' then StatIno 5 else StatNotExist),
      ev_BigEndian = False\<rparr>"

definition example_packet :: kpacket where
  "example_packet =
     \<lparr>kp_nfproto = 2, kp_l4 = 6,
      kp_net = [0x45, 0, 0, 40, 0, 0, 0x40, 0, 64, 6, 0, 0, 10, 0, 0, 2, 5, 6, 7, 8],
      kp_trans = [0xc3, 0x50, 0x01, 0xbb], kp_oif = map of_char ''eth0'' @ replicate 12 0,
      kp_ct = 8, kp_ancestor = (\<lambda>_. None), kp_sets = (\<lambda>n b. n = ''r1_v4'' \<and> b = [5, 6, 7, 8])\<rparr>"

definition example_flow :: flow where
  "example_flow =
     \<lparr>fl_dst = Addr4 0x05060708, fl_l4 = ''tcp'', fl_port = 443, fl_cgroup = [],
      fl_name = ''api.ok.io'', fl_sets = (\<lambda>n a. n = ''r1_v4'' \<and> a = Addr4 0x05060708)\<rparr>"

definition example_plan :: plan where
  "example_plan = (Build example_set)\<lparr>pn_Forward := True\<rparr>"

definition no_constant_sets :: "op list \<Rightarrow> bool" where
  "no_constant_sets ops =
     list_all (\<lambda>x. case x of OpAddSet s els \<Rightarrow> \<not> ns_Constant s | _ \<Rightarrow> True) ops"

lemma no_constant_sets_loaded: "no_constant_sets ops \<Longrightarrow> sets_loaded k ops"
  by (auto simp: no_constant_sets_def sets_loaded_def list_all_iff)

lemma example_batch:
  "case Apply_batch example_env example_plan [] of
     Inl _ \<Rightarrow> False | Inr h \<Rightarrow> no_constant_sets (hd_queue h) \<and> hd_missing h = {}"
  by code_simp

lemma example_kflow: "kflow example_env example_packet example_flow"
proof -
  have "word_bytes 4 (0x05060708 :: u32) = [5, 6, 7, 8]" "be16 443 = [0x01, 0xbb]" by code_simp+
  moreover have "cgroup_hits path [] \<longleftrightarrow> False" if "ev_Stat example_env (cgroupRoot @ ''/'' @ path) = StatIno i" for path i
  proof -
    have "path \<noteq> []"
    proof
      assume "path = []"
      then have "cgroupRoot @ ''/'' @ path = ''/sys/fs/cgroup/''" by (simp add: cgroupRoot_def)
      with that show False by (simp add: example_env_def)
    qed
    then show ?thesis by (simp add: cgroup_hits_iff CgroupWithin_def HasPrefix_def)
  qed
  ultimately show ?thesis
    by (auto simp: kflow_def example_packet_def example_flow_def)
qed

lemma example_agree: "sets_agree example_set example_flow"
proof -
  have d: "DomainRules example_set ''api.ok.io'' = [1]" by code_simp
  have n: "SetFor 0 (Addr4 0x05060708) = ''r0_v4''" "SetFor 1 (Addr4 0x05060708) = ''r1_v4''" by code_simp+
  have l: "length (ps_rules example_set) = 2" by (simp add: example_set_def)
  have "i = 0 \<or> i = 1" if "i < 2" for i :: nat using that by auto
  then show ?thesis
    unfolding sets_agree_def l using n by (fastforce simp: example_flow_def d)
qed

lemma example_decision:
  "dc_Verdict (Evaluate example_set (dest_of example_flow)) = Allow"
  by code_simp



end
