(* ===== verification/Dnswatch.thy ===== *)
theory Dnswatch
  imports Policy
begin

text \<open>
  \<^verbatim>\<open>internal/dnswatch/cache.go\<close>: reading a DNS response and the map from addresses back to
  names. The message parser (\<^verbatim>\<open>golang.org/x/net/dns/dnsmessage\<close>) is a record of its operations,
  an argument of \<open>dns_Parse\<close>; its state is the type variable \<open>'p\<close>.
\<close>

section \<open>Parsing a response\<close>

text \<open>
  \<open>AnswerHeader\<close> has three outcomes: the section is done, an error, or the type and TTL of the
  next record.
\<close>

datatype rr_type = TypeA | TypeAAAA | TypeOther

datatype ('e, 'p) header_result =
    SectionDone
  | HeaderError 'e
  | Header rr_type u32 'p

record ('e, 'p) dns_parser =
  p_Start :: "bytes \<Rightarrow> 'e + (bool \<times> 'p)"
  p_Question :: "'p \<Rightarrow> 'e + (string \<times> 'p)"
  p_SkipAllQuestions :: "'p \<Rightarrow> 'e + 'p"
  p_AnswerHeader :: "'p \<Rightarrow> ('e, 'p) header_result"
  p_AResource :: "'p \<Rightarrow> 'e + (bytes \<times> 'p)"
  p_AAAAResource :: "'p \<Rightarrow> 'e + (bytes \<times> 'p)"
  p_SkipAnswer :: "'p \<Rightarrow> 'e + 'p"

datatype 'e dns_error = ErrNotResponse | DnsError 'e

record dns_addr =
  da_IP :: addr
  da_TTL :: duration

record answer =
  an_Name :: string
  an_Addrs :: "dns_addr list"

text \<open>One turn of the loop over the answer section: the record it read, if it was an address.\<close>

definition read_record ::
  "('e, 'p) dns_parser \<Rightarrow> rr_type \<Rightarrow> u32 \<Rightarrow> 'p \<Rightarrow> 'e + (dns_addr list \<times> 'p)" where
  "read_record P ty ttl p =
     (let ttl = uint ttl * Second in
      case ty of
        TypeA \<Rightarrow>
          (case p_AResource P p of Inl e \<Rightarrow> Inl e
           | Inr (r, p) \<Rightarrow> Inr ([\<lparr>da_IP = AddrFrom4 r, da_TTL = ttl\<rparr>], p))
      | TypeAAAA \<Rightarrow>
          (case p_AAAAResource P p of Inl e \<Rightarrow> Inl e
           | Inr (r, p) \<Rightarrow> Inr ([\<lparr>da_IP = AddrFrom16 r, da_TTL = ttl\<rparr>], p))
      | TypeOther \<Rightarrow>
          (case p_SkipAnswer P p of Inl e \<Rightarrow> Inl e | Inr p \<Rightarrow> Inr ([], p)))"

text \<open>
  The loop itself. It returns the answer read so far together with the error, if any; whether it
  ends is up to the parser, and \<open>None\<close> is the loop that does not.
\<close>

partial_function (option) answer_loop ::
  "('e, 'p) dns_parser \<Rightarrow> 'p \<Rightarrow> answer \<Rightarrow> (answer \<times> 'e dns_error option) option" where
  "answer_loop P p a =
     (case p_AnswerHeader P p of
        SectionDone \<Rightarrow> Some (a, None)
      | HeaderError e \<Rightarrow> Some (a, Some (DnsError e))
      | Header ty ttl p \<Rightarrow>
          (case read_record P ty ttl p of
             Inl e \<Rightarrow> Some (a, Some (DnsError e))
           | Inr (rs, p) \<Rightarrow> answer_loop P p (a\<lparr>an_Addrs := an_Addrs a @ rs\<rparr>)))"

declare answer_loop.simps [code]

definition no_answer :: answer where
  "no_answer = \<lparr>an_Name = [], an_Addrs = []\<rparr>"

definition dns_Parse ::
  "('e, 'p) dns_parser \<Rightarrow> bytes \<Rightarrow> (answer \<times> 'e dns_error option) option" where
  "dns_Parse P msg =
     (case p_Start P msg of
        Inl e \<Rightarrow> Some (no_answer, Some (DnsError e))
      | Inr (response, p) \<Rightarrow>
          if \<not> response then Some (no_answer, Some ErrNotResponse)
          else
            (case p_Question P p of
               Inl e \<Rightarrow> Some (no_answer, Some (DnsError e))
             | Inr (qname, p) \<Rightarrow>
                 (let a = \<lparr>an_Name = NormalizeDomain qname, an_Addrs = []\<rparr> in
                  case p_SkipAllQuestions P p of
                    Inl e \<Rightarrow> Some (a, Some (DnsError e))
                  | Inr p \<Rightarrow> answer_loop P p a)))"

section \<open>The cache\<close>

record entry =
  en_name :: string
  en_exp :: time

record cache =
  ca_MinTTL :: duration
  ca_byIP :: "addr \<Rightarrow> entry option"

definition cache_New :: "duration \<Rightarrow> cache" where
  "cache_New minTTL = \<lparr>ca_MinTTL = minTTL, ca_byIP = (\<lambda>_. None)\<rparr>"

definition cache_put :: "cache \<Rightarrow> addr \<Rightarrow> string \<Rightarrow> time \<Rightarrow> cache" where
  "cache_put c ip name exp = c\<lparr>ca_byIP := (ca_byIP c)(ip \<mapsto> \<lparr>en_name = name, en_exp = exp\<rparr>)\<rparr>"

fun record_addrs :: "dns_addr list \<Rightarrow> string \<Rightarrow> time \<Rightarrow> cache \<Rightarrow> cache" where
  "record_addrs [] name now c = c"
| "record_addrs (ad # ads) name now c =
     (let ttl = (if da_TTL ad < ca_MinTTL c then ca_MinTTL c else da_TTL ad) in
      record_addrs ads name now (cache_put c (da_IP ad) name (now + ttl)))"

definition cache_Record :: "cache \<Rightarrow> answer \<Rightarrow> time \<Rightarrow> cache" where
  "cache_Record c a now = record_addrs (an_Addrs a) (an_Name a) now c"

text \<open>\<^verbatim>\<open>Lookup\<close>: \<open>None\<close> is the \<open>false\<close> result.\<close>

definition cache_Lookup :: "cache \<Rightarrow> addr \<Rightarrow> time \<Rightarrow> string option" where
  "cache_Lookup c ip now =
     (case ca_byIP c (Unmap ip) of
        None \<Rightarrow> None
      | Some e \<Rightarrow> if en_exp e < now then None else Some (en_name e))"

definition cache_Purge :: "cache \<Rightarrow> time \<Rightarrow> cache" where
  "cache_Purge c now =
     c\<lparr>ca_byIP := (\<lambda>ip. case ca_byIP c ip of
         None \<Rightarrow> None | Some e \<Rightarrow> if en_exp e < now then None else Some e)\<rparr>"

definition cache_Len :: "cache \<Rightarrow> nat" where
  "cache_Len c = card (dom (ca_byIP c))"

definition cache_Observe ::
  "('e, 'p) dns_parser \<Rightarrow> cache \<Rightarrow> bytes \<Rightarrow> time \<Rightarrow> (cache \<times> nat \<times> 'e dns_error option) option" where
  "cache_Observe P c msg now =
     (case dns_Parse P msg of
        None \<Rightarrow> None
      | Some (a, Some e) \<Rightarrow> Some (c, 0, Some e)
      | Some (a, None) \<Rightarrow>
          if an_Name a = [] then Some (c, 0, None)
          else Some (cache_Record c a now, length (an_Addrs a), None))"

section \<open>What a cache of names promises\<close>

text \<open>
  The contract the rest of the program relies on: an answer put under an address is what a lookup
  of that address finds until it expires, a lookup reduces an IPv4-mapped address first, and
  purging does not show in lookups made from then on.
\<close>

locale name_cache =
  fixes put :: "'c \<Rightarrow> addr \<Rightarrow> string \<Rightarrow> time \<Rightarrow> 'c"
    and lookup :: "'c \<Rightarrow> addr \<Rightarrow> time \<Rightarrow> string option"
    and purge :: "'c \<Rightarrow> time \<Rightarrow> 'c"
  assumes lookup_put: "lookup (put c k n e) ip t =
      (if Unmap ip = k then if e < t then None else Some n else lookup c ip t)"
    and lookup_purge: "s \<le> t \<Longrightarrow> lookup (purge c s) ip t = lookup c ip t"
begin

definition puts :: "'c \<Rightarrow> (addr \<times> string \<times> time) list \<Rightarrow> 'c" where
  "puts c es = fold (\<lambda>(k, n, e) c. put c k n e) es c"

lemma lookup_puts:
  "lookup (puts c es) ip t =
     (case find (\<lambda>(k, n, e). k = Unmap ip) (rev es) of
        Some (k, n, e) \<Rightarrow> if e < t then None else Some n
      | None \<Rightarrow> lookup c ip t)"
proof (induction es arbitrary: c rule: rev_induct)
  case (snoc x es)
  then show ?case by (cases x) (auto simp: puts_def lookup_put)
qed (simp add: puts_def)

lemma lookup_put_mapped: "Is4In6 k \<Longrightarrow> lookup (put c k n e) ip t = lookup c ip t"
  using lookup_put Unmap_not_Is4In6 by metis

end

interpretation dns_cache: name_cache cache_put cache_Lookup cache_Purge
  by unfold_locales
     (auto simp: cache_Lookup_def cache_put_def cache_Purge_def split: option.splits)

lemma cache_put_MinTTL [simp]: "ca_MinTTL (cache_put c ip n e) = ca_MinTTL c"
  by (simp add: cache_put_def)

text \<open>The entries an answer leaves: address, name and expiry with the stretched TTL.\<close>

definition answer_entries :: "duration \<Rightarrow> answer \<Rightarrow> time \<Rightarrow> (addr \<times> string \<times> time) list" where
  "answer_entries m a now =
     map (\<lambda>ad. (da_IP ad, an_Name a, now + max m (da_TTL ad))) (an_Addrs a)"

lemma record_addrs_puts:
  "record_addrs ads name now c =
     dns_cache.puts c (map (\<lambda>ad. (da_IP ad, name, now + max (ca_MinTTL c) (da_TTL ad))) ads)"
proof (induction ads arbitrary: c)
  case (Cons ad ads)
  have "(if da_TTL ad < ca_MinTTL c then ca_MinTTL c else da_TTL ad) = max (ca_MinTTL c) (da_TTL ad)"
    by simp
  then show ?case by (simp add: Cons.IH dns_cache.puts_def Let_def del: if_split)
qed (simp add: dns_cache.puts_def)

lemma cache_Record_puts:
  "cache_Record c a now = dns_cache.puts c (answer_entries (ca_MinTTL c) a now)"
  by (simp add: cache_Record_def record_addrs_puts answer_entries_def)

lemma puts_MinTTL [simp]: "ca_MinTTL (dns_cache.puts c es) = ca_MinTTL c"
  by (induction es arbitrary: c) (auto simp: dns_cache.puts_def)

section \<open>Histories\<close>

text \<open>What happens to the daemon's cache: answers are recorded and expired entries purged.\<close>

datatype cache_event = Answered answer time | Purged time

fun cache_step :: "cache \<Rightarrow> cache_event \<Rightarrow> cache" where
  "cache_step c (Answered a now) = cache_Record c a now"
| "cache_step c (Purged now) = cache_Purge c now"

definition run_cache :: "duration \<Rightarrow> cache_event list \<Rightarrow> cache" where
  "run_cache m evs = foldl cache_step (cache_New m) evs"

fun event_entries :: "duration \<Rightarrow> cache_event \<Rightarrow> (addr \<times> string \<times> time) list" where
  "event_entries m (Answered a now) = answer_entries m a now"
| "event_entries m (Purged now) = []"

text \<open>The abstract attribution: the most recent answer for the address, while it lives.\<close>

definition attribution :: "duration \<Rightarrow> cache_event list \<Rightarrow> addr \<Rightarrow> time \<Rightarrow> string option" where
  "attribution m evs ip t =
     (case find (\<lambda>(k, n, e). k = Unmap ip) (rev (concat (map (event_entries m) evs))) of
        Some (k, n, e) \<Rightarrow> if e < t then None else Some n
      | None \<Rightarrow> None)"

lemma run_cache_MinTTL: "ca_MinTTL (run_cache m evs) = m"
proof (induction evs rule: rev_induct)
  case (snoc ev evs)
  then show ?case
    by (cases ev) (simp_all add: run_cache_def cache_Record_puts cache_Purge_def)
qed (simp add: run_cache_def cache_New_def)

text \<open>
  C14: after any history of recorded answers and purges, a lookup made no earlier than the last
  purge returns the name of the most recent answer for the address, IPv4-mapped addresses
  reduced, as long as the larger of its TTL and the minimum has not passed, and nothing
  otherwise.
\<close>

theorem cache_refines_history:
  assumes "\<forall>ev \<in> set evs. case ev of Purged s \<Rightarrow> s \<le> t | _ \<Rightarrow> True"
  shows "cache_Lookup (run_cache m evs) ip t = attribution m evs ip t"
  using assms
proof (induction evs rule: rev_induct)
  case Nil
  then show ?case by (simp add: run_cache_def attribution_def cache_New_def cache_Lookup_def)
next
  case (snoc ev evs)
  then have ih: "cache_Lookup (run_cache m evs) ip t = attribution m evs ip t" by simp
  have r: "run_cache m (evs @ [ev]) = cache_step (run_cache m evs) ev" by (simp add: run_cache_def)
  show ?case
  proof (cases ev)
    case (Answered a now)
    then show ?thesis
      unfolding r using ih
      by (simp add: cache_Record_puts run_cache_MinTTL dns_cache.lookup_puts attribution_def find_append
          split: option.splits)
  next
    case (Purged s)
    then show ?thesis
      unfolding r using ih snoc.prems by (simp add: dns_cache.lookup_purge attribution_def)
  qed
qed

lemma cache_refines_history_witness:
  "cache_Lookup (run_cache (5 * Minute)
      [Answered \<lparr>an_Name = ''a.io'', an_Addrs = [\<lparr>da_IP = Addr4 7, da_TTL = Second\<rparr>]\<rparr> 0,
       Purged (2 * Minute)]) (Addr6 0xffff00000007 []) (4 * Minute) = Some ''a.io''"
  by (subst cache_refines_history)
     (simp_all add: attribution_def answer_entries_def Minute_def Second_def)

text \<open>
  An answer that carries an IPv4-mapped IPv6 address is recorded under a key no lookup uses:
  it changes the answer of no lookup.
\<close>

theorem mapped_answer_not_found:
  assumes "Is4In6 ip"
  shows "cache_Lookup (cache_Record c \<lparr>an_Name = name, an_Addrs = [\<lparr>da_IP = ip, da_TTL = ttl\<rparr>]\<rparr> now) q t
    = cache_Lookup c q t"
  using dns_cache.lookup_put_mapped[OF assms]
  by (simp add: cache_Record_def Let_def)

lemma mapped_answer_not_found_witness:
  "cache_Lookup (cache_Record (cache_New 0) \<lparr>an_Name = ''a.io'',
       an_Addrs = [\<lparr>da_IP = Addr6 0xffff00000007 [], da_TTL = Minute\<rparr>]\<rparr> 0)
     (Addr6 0xffff00000007 []) 0 = None"
  by (subst mapped_answer_not_found) (simp_all add: cache_New_def cache_Lookup_def)

section \<open>Reading the answer section\<close>

text \<open>
  \<open>dns_reads P p rrs q\<close>: from state \<open>p\<close> the parser hands over the records \<open>rrs\<close> (type, TTL and
  address bytes) one after the other and is then in state \<open>q\<close>.
\<close>

inductive dns_reads ::
  "('e, 'p) dns_parser \<Rightarrow> 'p \<Rightarrow> (rr_type \<times> u32 \<times> bytes) list \<Rightarrow> 'p \<Rightarrow> bool"
  for P :: "('e, 'p) dns_parser" where
  reads_nil: "dns_reads P p [] p"
| reads_A: "p_AnswerHeader P p = Header TypeA ttl p1 \<Longrightarrow> p_AResource P p1 = Inr (r, p2) \<Longrightarrow>
     dns_reads P p2 rrs q \<Longrightarrow> dns_reads P p ((TypeA, ttl, r) # rrs) q"
| reads_AAAA: "p_AnswerHeader P p = Header TypeAAAA ttl p1 \<Longrightarrow> p_AAAAResource P p1 = Inr (r, p2) \<Longrightarrow>
     dns_reads P p2 rrs q \<Longrightarrow> dns_reads P p ((TypeAAAA, ttl, r) # rrs) q"
| reads_other: "p_AnswerHeader P p = Header TypeOther ttl p1 \<Longrightarrow> p_SkipAnswer P p1 = Inr p2 \<Longrightarrow>
     dns_reads P p2 rrs q \<Longrightarrow> dns_reads P p ((TypeOther, ttl, r) # rrs) q"

fun rr_addr :: "rr_type \<times> u32 \<times> bytes \<Rightarrow> dns_addr list" where
  "rr_addr (TypeA, ttl, r) = [\<lparr>da_IP = AddrFrom4 r, da_TTL = uint ttl * Second\<rparr>]"
| "rr_addr (TypeAAAA, ttl, r) = [\<lparr>da_IP = AddrFrom16 r, da_TTL = uint ttl * Second\<rparr>]"
| "rr_addr (TypeOther, ttl, r) = []"

lemma answer_loop_reads:
  "dns_reads P p rrs q \<Longrightarrow>
     answer_loop P p a = answer_loop P q (a\<lparr>an_Addrs := an_Addrs a @ concat (map rr_addr rrs)\<rparr>)"
proof (induction arbitrary: a rule: dns_reads.induct)
  case (reads_A p ttl p1 r p2 rrs q)
  then show ?case
    by (subst answer_loop.simps) (simp add: read_record_def)
next
  case (reads_AAAA p ttl p1 r p2 rrs q)
  then show ?case
    by (subst answer_loop.simps) (simp add: read_record_def)
next
  case (reads_other p ttl p1 p2 rrs q r)
  then show ?case
    by (subst answer_loop.simps) (simp add: read_record_def)
qed simp

text \<open>
  The parser's progress: a record whose header was read and whose body was read or skipped is one
  record fewer to come, as the record count of the message header bounds them.
\<close>

definition dns_progress :: "('e, 'p) dns_parser \<Rightarrow> ('p \<Rightarrow> nat) \<Rightarrow> bool" where
  "dns_progress P remaining \<longleftrightarrow>
     (\<forall>p ty ttl p1. p_AnswerHeader P p = Header ty ttl p1 \<longrightarrow>
        (\<forall>r p2. p_AResource P p1 = Inr (r, p2) \<longrightarrow> remaining p2 < remaining p)
        \<and> (\<forall>r p2. p_AAAAResource P p1 = Inr (r, p2) \<longrightarrow> remaining p2 < remaining p)
        \<and> (\<forall>p2. p_SkipAnswer P p1 = Inr p2 \<longrightarrow> remaining p2 < remaining p))"

lemma read_record_progress:
  assumes "dns_progress P remaining" and "p_AnswerHeader P p = Header ty ttl p1"
    and "read_record P ty ttl p1 = Inr (rs, p2)"
  shows "remaining p2 < remaining p"
  using assms unfolding dns_progress_def
  by (cases ty) (force simp: read_record_def split: sum.splits)+

lemma answer_loop_returns:
  "dns_progress P remaining \<Longrightarrow> \<exists>r. answer_loop P p a = Some r"
proof (induction "remaining p" arbitrary: p a rule: less_induct)
  case less
  show ?case
  proof (cases "p_AnswerHeader P p")
    case (Header ty ttl p1)
    show ?thesis
    proof (cases "read_record P ty ttl p1")
      case (Inr x)
      obtain rs p2 where x: "x = (rs, p2)" by (cases x)
      have "remaining p2 < remaining p"
        using read_record_progress[OF less.prems Header] Inr x by simp
      from less.hyps[OF this less.prems] obtain r where
        "answer_loop P p2 (a\<lparr>an_Addrs := an_Addrs a @ rs\<rparr>) = Some r" by blast
      then show ?thesis using Header Inr x by (subst answer_loop.simps) simp
    qed (use Header in \<open>subst answer_loop.simps, simp\<close>)
  qed (subst answer_loop.simps, simp)+
qed

text \<open>A parser over a message already split into records, to try the definitions on.\<close>

definition list_parser ::
  "string \<Rightarrow> (rr_type \<times> u32 \<times> bytes) list \<Rightarrow> (unit, (rr_type \<times> u32 \<times> bytes) list) dns_parser" where
  "list_parser qname rrs =
     \<lparr>p_Start = (\<lambda>msg. if msg = [] then Inl () else Inr (hd msg \<noteq> 0, rrs)),
      p_Question = (\<lambda>p. Inr (qname, p)),
      p_SkipAllQuestions = Inr,
      p_AnswerHeader = (\<lambda>p. case p of [] \<Rightarrow> SectionDone | (ty, ttl, r) # _ \<Rightarrow> Header ty ttl p),
      p_AResource = (\<lambda>p. case p of [] \<Rightarrow> Inl () | (_, _, r) # q \<Rightarrow> Inr (r, q)),
      p_AAAAResource = (\<lambda>p. case p of [] \<Rightarrow> Inl () | (_, _, r) # q \<Rightarrow> Inr (r, q)),
      p_SkipAnswer = (\<lambda>p. case p of [] \<Rightarrow> Inl () | _ # q \<Rightarrow> Inr q)\<rparr>"

lemma list_parser_progress: "dns_progress (list_parser qname rrs) length"
  by (auto simp: dns_progress_def list_parser_def split: list.splits)

lemma list_parser_reads: "dns_reads (list_parser qname rrs0) rrs rrs []"
proof (induction rrs)
  case (Cons rr rrs)
  obtain ty ttl r where "rr = (ty, ttl, r)" by (cases rr)
  then show ?case
    using Cons
    by (cases ty) (auto simp: list_parser_def intro: dns_reads.intros)
qed (rule reads_nil)

text \<open>
  C37: whatever the parser does with a message, as long as every record it reads is one fewer to
  come, parsing ends, with an answer or an error.
\<close>

theorem dns_Parse_returns:
  assumes "dns_progress P remaining"
  shows "\<exists>a err. dns_Parse P msg = Some (a, err)"
  using answer_loop_returns[OF assms]
  by (auto simp: dns_Parse_def Let_def split: sum.splits)

lemma dns_Parse_returns_witness:
  "\<exists>a err. dns_Parse (list_parser ''a.io'' [(TypeA, 60, [1, 2, 3, 4])]) [1] = Some (a, err)"
  by (rule dns_Parse_returns[OF list_parser_progress])

text \<open>
  C36: a well-formed response records all of its A and AAAA records, in order, with their TTLs in
  seconds, under the normalised question name and not under the names of the CNAME chain,
  and other records are skipped; a response whose question name is empty records nothing.
\<close>

theorem Observe_records:
  assumes "p_Start P msg = Inr (True, p0)" and "p_Question P p0 = Inr (qname, p1)"
    and "p_SkipAllQuestions P p1 = Inr p2" and "dns_reads P p2 rrs q" and "p_AnswerHeader P q = SectionDone"
  shows "cache_Observe P c msg now =
    (let addrs = concat (map rr_addr rrs); name = NormalizeDomain qname in
     if name = [] then Some (c, 0, None)
     else Some (cache_Record c \<lparr>an_Name = name, an_Addrs = addrs\<rparr> now, length addrs, None))"
proof -
  have "answer_loop P q a = Some (a, None)" for a
    using assms(5) by (subst answer_loop.simps) simp
  then show ?thesis
    using assms(1-3) answer_loop_reads[OF assms(4)]
    by (simp add: cache_Observe_def dns_Parse_def Let_def)
qed

lemma Observe_records_witness:
  "\<exists>c. cache_Observe (list_parser ''A.io.'' [(TypeOther, 60, []), (TypeA, 60, [1, 2, 3, 4])])
        (cache_New 0) [1] 0 = Some (c, 1, None)
     \<and> cache_Lookup c (Addr4 0x01020304) Minute = Some ''a.io''"
proof -
  let ?rrs = "[(TypeOther, 60, []), (TypeA, 60, [1, 2, 3, 4])] :: (rr_type \<times> u32 \<times> bytes) list"
  let ?P = "list_parser ''A.io.'' [(TypeOther, 60, []), (TypeA, 60, [1, 2, 3, 4])]"
  have n: "NormalizeDomain ''A.io.'' = ''a.io''" by code_simp
  have a: "concat (map rr_addr [(TypeOther, 60, []), (TypeA, 60, [1, 2, 3, 4])]) =
     [\<lparr>da_IP = Addr4 0x01020304, da_TTL = Minute\<rparr>]" by code_simp
  have "cache_Observe ?P (cache_New 0) [1] 0 =
    Some (cache_Record (cache_New 0) \<lparr>an_Name = ''a.io'', an_Addrs = [\<lparr>da_IP = Addr4 0x01020304, da_TTL = Minute\<rparr>]\<rparr> 0, 1, None)"
    by (subst Observe_records[where qname = "''A.io.''" and rrs = "?rrs" and q = "[]" and ?p0.0 = ?rrs
          and ?p1.0 = ?rrs and ?p2.0 = ?rrs])
       (simp_all only: list_parser_reads n a Let_def, simp_all add: list_parser_def)
  moreover have "cache_Lookup (cache_Record (cache_New 0)
      \<lparr>an_Name = ''a.io'', an_Addrs = [\<lparr>da_IP = Addr4 0x01020304, da_TTL = Minute\<rparr>]\<rparr> 0)
    (Addr4 0x01020304) Minute = Some ''a.io''"
    by (simp add: cache_Record_def Let_def cache_Lookup_def cache_put_def cache_New_def Minute_def Second_def)
  ultimately show ?thesis by blast
qed

end
