(* ===== verification/Packet.thy ===== *)
theory Packet
  imports Netip
begin

text \<open>
  \<^verbatim>\<open>internal/packet/packet.go\<close>: the fields egresswall reads out of a frame that starts at the
  IP header. Reading outside the frame is a panic in Go and the value \<open>Panic\<close> here, so that the
  guards of the code are what keeps it from happening.
\<close>

section \<open>Data\<close>

definition ProtoTCP :: byte where "ProtoTCP = 6"
definition ProtoUDP :: byte where "ProtoUDP = 17"

datatype packet_error = ErrShort | ErrUnhandled | Panic

record packet =
  pk_Src :: addr
  pk_Dst :: addr
  pk_Proto :: byte
  pk_SrcPort :: u16
  pk_DstPort :: u16
  pk_SYN :: bool
  pk_ACK :: bool
  pk_Payload :: bytes

definition IsTCP :: "packet \<Rightarrow> bool" where "IsTCP p \<longleftrightarrow> pk_Proto p = ProtoTCP"
definition IsUDP :: "packet \<Rightarrow> bool" where "IsUDP p \<longleftrightarrow> pk_Proto p = ProtoUDP"

text \<open>Slicing \<open>b[i:j]\<close> and indexing \<open>b[i]\<close>, passed on to the rest of the function.\<close>

definition slice :: "bytes \<Rightarrow> nat \<Rightarrow> nat \<Rightarrow> (bytes \<Rightarrow> packet_error + 'a) \<Rightarrow> packet_error + 'a" where
  "slice b i j k = (if i \<le> j \<and> j \<le> length b then k (take (j - i) (drop i b)) else Inl Panic)"

definition index :: "bytes \<Rightarrow> nat \<Rightarrow> (byte \<Rightarrow> packet_error + 'a) \<Rightarrow> packet_error + 'a" where
  "index b i k = (if i < length b then k (b ! i) else Inl Panic)"

definition uint16_at :: "bytes \<Rightarrow> nat \<Rightarrow> (u16 \<Rightarrow> packet_error + 'a) \<Rightarrow> packet_error + 'a" where
  "uint16_at b i k = slice b i (i + 2) (\<lambda>x. k (be_word x))"

section \<open>Parsing\<close>

definition parseTransport :: "packet \<Rightarrow> bytes \<Rightarrow> packet_error + packet" where
  "parseTransport p b =
     (if pk_Proto p = ProtoUDP then
        if length b < 8 then Inl ErrShort
        else
          uint16_at b 0 (\<lambda>sp.
          uint16_at b 2 (\<lambda>dp.
          slice b 8 (length b) (\<lambda>pay.
            Inr (p\<lparr>pk_SrcPort := sp, pk_DstPort := dp, pk_Payload := pay\<rparr>))))
      else if pk_Proto p = ProtoTCP then
        if length b < 20 then Inl ErrShort
        else
          index b 12 (\<lambda>b12.
            let off = unat (drop_bit 4 b12) * 4 in
            if off < 20 \<or> length b < off then Inl ErrShort
            else
              uint16_at b 0 (\<lambda>sp.
              uint16_at b 2 (\<lambda>dp.
              index b 13 (\<lambda>b13.
              slice b off (length b) (\<lambda>pay.
                Inr (p\<lparr>pk_SrcPort := sp, pk_DstPort := dp,
                       pk_SYN := (b13 AND 0x02 \<noteq> 0), pk_ACK := (b13 AND 0x10 \<noteq> 0),
                       pk_Payload := pay\<rparr>)))))
          )
      else Inl ErrUnhandled)"

definition no_transport :: "addr \<Rightarrow> addr \<Rightarrow> byte \<Rightarrow> packet" where
  "no_transport src dst proto =
     \<lparr>pk_Src = src, pk_Dst = dst, pk_Proto = proto, pk_SrcPort = 0, pk_DstPort = 0,
      pk_SYN = False, pk_ACK = False, pk_Payload = []\<rparr>"

definition parseV4 :: "bytes \<Rightarrow> packet_error + packet" where
  "parseV4 b =
     (if length b < 20 then Inl ErrShort
      else
        index b 0 (\<lambda>b0.
          let ihl = unat (b0 AND 0x0f) * 4 in
          if ihl < 20 \<or> length b < ihl then Inl ErrShort
          else
            uint16_at b 6 (\<lambda>flagsFrag.
            if flagsFrag AND 0x3fff \<noteq> 0 then Inl ErrUnhandled
            else
              uint16_at b 2 (\<lambda>tot.
              if unat tot < ihl then Inl ErrShort
              else
                slice b 0 (min (unat tot) (length b)) (\<lambda>b.
                slice b 12 16 (\<lambda>src.
                slice b 16 20 (\<lambda>dst.
                index b 9 (\<lambda>proto.
                slice b ihl (length b) (\<lambda>body.
                  parseTransport (no_transport (AddrFrom4 src) (AddrFrom4 dst) proto) body))))))))
     )"

definition parseV6 :: "bytes \<Rightarrow> packet_error + packet" where
  "parseV6 b =
     (if length b < 40 then Inl ErrShort
      else
        uint16_at b 4 (\<lambda>plen.
        if length b < 40 + unat plen then Inl ErrShort
        else
          slice b 8 24 (\<lambda>src.
          slice b 24 40 (\<lambda>dst.
          index b 6 (\<lambda>proto.
          slice b 40 (40 + unat plen) (\<lambda>body.
            parseTransport (no_transport (AddrFrom16 src) (AddrFrom16 dst) proto) body)))))
     )"

definition packet_Parse :: "bytes \<Rightarrow> packet_error + packet" where
  "packet_Parse b =
     (if length b < 1 then Inl ErrShort
      else
        index b 0 (\<lambda>b0.
          if drop_bit 4 b0 = 4 then parseV4 b
          else if drop_bit 4 b0 = 6 then parseV6 b
          else Inl ErrUnhandled))"

section \<open>Frames as the standards lay them out\<close>

text \<open>
  UDP and TCP segments, IPv4 and IPv6 headers with every field the parser does not look at left
  open: type of service, identification, lifetime, checksums, options and padding.
\<close>

definition udp_segment :: "u16 \<Rightarrow> u16 \<Rightarrow> u16 \<Rightarrow> u16 \<Rightarrow> bytes \<Rightarrow> bytes" where
  "udp_segment sp dp len ck pay = be16 sp @ be16 dp @ be16 len @ be16 ck @ pay"

definition tcp_segment ::
  "u16 \<Rightarrow> u16 \<Rightarrow> u32 \<Rightarrow> u32 \<Rightarrow> byte \<Rightarrow> byte \<Rightarrow> bytes \<Rightarrow> bytes \<Rightarrow> bytes \<Rightarrow> bytes" where
  "tcp_segment sp dp sq ak res flags wcu opts pay =
     be16 sp @ be16 dp @ word_bytes 4 sq @ word_bytes 4 ak
     @ [push_bit 4 (of_nat (5 + length opts div 4)) OR (res AND 0x0f), flags] @ wcu @ opts @ pay"

definition ipv4_frame ::
  "byte \<Rightarrow> u16 \<Rightarrow> u16 \<Rightarrow> byte \<Rightarrow> byte \<Rightarrow> u16 \<Rightarrow> u32 \<Rightarrow> u32 \<Rightarrow> bytes \<Rightarrow> bytes \<Rightarrow> bytes \<Rightarrow> bytes" where
  "ipv4_frame tos ident flags ttl proto ck src dst opts body pad =
     [0x40 OR of_nat (5 + length opts div 4), tos]
     @ be16 (of_nat (20 + length opts + length body)) @ be16 ident @ be16 flags
     @ [ttl, proto] @ be16 ck @ word_bytes 4 src @ word_bytes 4 dst @ opts @ body @ pad"

definition ipv6_frame ::
  "byte \<Rightarrow> bytes \<Rightarrow> byte \<Rightarrow> byte \<Rightarrow> u128 \<Rightarrow> u128 \<Rightarrow> bytes \<Rightarrow> bytes \<Rightarrow> bytes" where
  "ipv6_frame tc flow proto hops src dst body pad =
     [0x60 OR (tc AND 0x0f)] @ flow @ be16 (of_nat (length body)) @ [proto, hops]
     @ word_bytes 16 src @ word_bytes 16 dst @ body @ pad"

section \<open>Lemmas\<close>

lemma be_word_be16 [simp]: "be_word (be16 v) = v"
  unfolding be16_eq_word_bytes by (rule be_word_word_bytes) simp

lemma be_word_bytes4 [simp]: "be_word (word_bytes 4 w) = (w :: u32)"
  by (rule be_word_word_bytes) simp

lemma be_word_bytes16 [simp]: "be_word (word_bytes 16 w) = (w :: u128)"
  by (rule be_word_word_bytes) simp

lemmas frame_simps = slice_def index_def uint16_at_def Let_def

lemma parseTransport_no_panic: "parseTransport p b \<noteq> Inl Panic"
  by (auto simp: parseTransport_def frame_simps)

lemma parseV4_no_panic: "parseV4 b \<noteq> Inl Panic"
proof -
  have "unat (b ! 0 AND 0x0f) * 4 \<le> min (unat (be_word (take 2 (drop 2 b)) :: u16)) (length b)"
    if "\<not> unat (be_word (take 2 (drop 2 b)) :: u16) < unat (b ! 0 AND 0x0f) * 4"
      "\<not> length b < unat (b ! 0 AND 0x0f) * 4"
    using that by simp
  then show ?thesis
    using parseTransport_no_panic by (auto simp: parseV4_def frame_simps)
qed

lemma parseV6_no_panic: "parseV6 b \<noteq> Inl Panic"
  using parseTransport_no_panic by (auto simp: parseV6_def frame_simps)

lemma parseTransport_udp:
  "pk_Proto p = ProtoUDP \<Longrightarrow>
     parseTransport p (udp_segment sp dp len ck pay) =
       Inr (p\<lparr>pk_SrcPort := sp, pk_DstPort := dp, pk_Payload := pay\<rparr>)"
  by (simp add: parseTransport_def udp_segment_def frame_simps)

lemma tcp_offset_byte:
  assumes "n \<le> 15"
  shows "drop_bit 4 (push_bit 4 (of_nat n) OR (res AND 0x0f) :: byte) = of_nat n"
    "unat (of_nat n :: byte) = n"
proof -
  have "list_all (\<lambda>n. drop_bit 4 (push_bit 4 (of_nat n) :: byte) = of_nat n \<and> unat (of_nat n :: byte) = n) [0..<16]"
    by code_simp
  then have n: "drop_bit 4 (push_bit 4 (of_nat n) :: byte) = of_nat n" "unat (of_nat n :: byte) = n"
    using assms by (auto simp: list_all_iff)
  have "drop_bit 4 (res AND 0x0f :: byte) = 0"
    by (rule bit_word_eqI) (auto simp: bit_drop_bit_eq bit_and_iff bit_0_eq simp flip: mask_eq_exp_minus_1)
  with n show "drop_bit 4 (push_bit 4 (of_nat n) OR (res AND 0x0f) :: byte) = of_nat n"
    "unat (of_nat n :: byte) = n"
    by (simp_all add: drop_bit_or)
qed

lemma parseTransport_tcp:
  assumes "pk_Proto p = ProtoTCP" and "length wcu = 6" and "length opts = 4 * k" and "k \<le> 10"
  shows "parseTransport p (tcp_segment sp dp sq ak res flags wcu opts pay) =
       Inr (p\<lparr>pk_SrcPort := sp, pk_DstPort := dp, pk_SYN := (flags AND 0x02 \<noteq> 0),
              pk_ACK := (flags AND 0x10 \<noteq> 0), pk_Payload := pay\<rparr>)"
proof -
  note o = tcp_offset_byte[of "5 + k"]
  show ?thesis
    using assms o
    by (simp add: parseTransport_def tcp_segment_def frame_simps ProtoTCP_def ProtoUDP_def
        nth_append drop_Cons' del: of_nat_add)
qed

lemma ihl_byte:
  assumes "n \<le> 15"
  shows "drop_bit 4 (0x40 OR of_nat n :: byte) = 4" "unat ((0x40 OR of_nat n) AND 0x0f :: byte) = n"
proof -
  have "list_all (\<lambda>n. drop_bit 4 (0x40 OR of_nat n :: byte) = 4
      \<and> unat ((0x40 OR of_nat n) AND 0x0f :: byte) = n) [0..<16]"
    by code_simp
  then show "drop_bit 4 (0x40 OR of_nat n :: byte) = 4" "unat ((0x40 OR of_nat n) AND 0x0f :: byte) = n"
    using assms by (auto simp: list_all_iff)
qed

lemma parseV4_frame:
  assumes "length opts = 4 * k" and "k \<le> 10" and "flags AND 0x3fff = 0"
    and "20 + length opts + length body < 65536"
  shows "packet_Parse (ipv4_frame tos ident flags ttl proto ck src dst opts body pad) =
    parseTransport (no_transport (Addr4 src) (Addr4 dst) proto) body"
proof -
  note i = ihl_byte[of "5 + k"]
  have u: "unat (of_nat (20 + length opts + length body) :: u16) = 20 + length opts + length body"
  proof -
    have "unat (of_nat n :: u16) = n" if "n < 65536" for n using that by (simp add: unat_of_nat)
    then show ?thesis using assms(4) by blast
  qed
  show ?thesis
    using assms i u
    by (simp add: packet_Parse_def parseV4_def ipv4_frame_def frame_simps AddrFrom4_def
        nth_append drop_take drop_Cons' del: of_nat_add)
qed


lemma version6_byte: "drop_bit 4 (0x60 OR (tc AND 0x0f) :: byte) = 6"
proof -
  have "drop_bit 4 (tc AND 0x0f :: byte) = 0"
    by (rule bit_word_eqI) (auto simp: bit_drop_bit_eq bit_and_iff bit_0_eq simp flip: mask_eq_exp_minus_1)
  then show ?thesis by (simp add: drop_bit_or)
qed

lemma parseV6_frame:
  assumes "length flow = 3" and "length body < 65536"
  shows "packet_Parse (ipv6_frame tc flow proto hops src dst body pad) =
    parseTransport (no_transport (Addr6 src []) (Addr6 dst []) proto) body"
proof -
  have u: "unat (of_nat (length body) :: u16) = length body"
    using assms(2) by (simp add: unat_of_nat)
  show ?thesis
    using assms u
    by (simp add: packet_Parse_def parseV6_def ipv6_frame_def frame_simps AddrFrom16_def version6_byte
        nth_append)
qed

lemma parseTransport_InrD:
  assumes "parseTransport p b = Inr q"
  shows "pk_Src q = pk_Src p \<and> pk_Dst q = pk_Dst p \<and> (IsTCP q \<or> IsUDP q)
    \<and> (IsUDP q \<longrightarrow> pk_SYN q = pk_SYN p \<and> pk_ACK q = pk_ACK p)
    \<and> suffix (pk_Payload q) b \<and> length (pk_Payload q) + 8 \<le> length b"
  using assms
  by (auto simp: parseTransport_def frame_simps IsTCP_def IsUDP_def ProtoTCP_def ProtoUDP_def
      suffix_drop split: if_splits)

lemma sublist_drop_take: "suffix s (drop i (take j b)) \<Longrightarrow> sublist s b"
  by (metis sublist_drop sublist_order.order_trans sublist_take suffix_imp_sublist)

lemma parseV4_InrD:
  assumes "parseV4 b = Inr p"
  obtains src dst proto i j where
    "parseTransport (no_transport (AddrFrom4 src) (AddrFrom4 dst) proto) (drop i (take j b)) = Inr p"
    "20 \<le> i" "length (drop i (take j b)) + i \<le> length b"
proof -
  let ?i = "unat (b ! 0 AND 0x0f) * 4" and ?t = "unat (be_word (take 2 (drop 2 b)) :: u16)"
  have "parseTransport (no_transport
      (AddrFrom4 (take 4 (drop 12 (take (min ?t (length b)) b))))
      (AddrFrom4 (take 4 (drop 16 (take (min ?t (length b)) b))))
      (take (min ?t (length b)) b ! 9))
    (drop ?i (take (min ?t (length b)) b)) = Inr p \<and> 20 \<le> ?i \<and> ?i \<le> length b \<and> ?i \<le> ?t"
    using assms by (auto simp: parseV4_def frame_simps not_less split: if_splits)
  then show thesis by (elim conjE) (rule that, assumption, auto)
qed

lemma parseV6_InrD:
  assumes "parseV6 b = Inr p"
  obtains src dst proto i j where
    "parseTransport (no_transport (AddrFrom16 src) (AddrFrom16 dst) proto) (drop i (take j b)) = Inr p"
    "20 \<le> i" "length (drop i (take j b)) + i \<le> length b"
proof -
  let ?n = "unat (be_word (take 2 (drop 4 b)) :: u16)"
  have "parseTransport (no_transport (AddrFrom16 (take 16 (drop 8 b)))
      (AddrFrom16 (take 16 (drop 24 b))) (b ! 6)) (drop 40 (take (40 + ?n) b)) = Inr p
      \<and> 40 + ?n \<le> length b"
    using assms by (auto simp: parseV6_def frame_simps not_less drop_take split: if_splits)
  then show thesis by (elim conjE) (rule that, assumption, auto)
qed

text \<open>
  C15: the parser never reads outside the frame it was given, whatever bytes arrive from the
  network: the guards make every slice and index in range.
\<close>

theorem Parse_no_panic: "packet_Parse b \<noteq> Inl Panic"
  using parseV4_no_panic parseV6_no_panic by (auto simp: packet_Parse_def frame_simps)

text \<open>
  Whatever the parser accepts is TCP or UDP between two addresses of one family without a
  zone; a UDP packet carries no TCP flag, and the payload is a stretch of the frame that
  starts after the IP and transport headers.
\<close>

theorem Parse_sound:
  assumes "packet_Parse b = Inr p"
  shows "(IsTCP p \<or> IsUDP p)
    \<and> (Is4 (pk_Src p) \<and> Is4 (pk_Dst p) \<or> Is6 (pk_Src p) \<and> Is6 (pk_Dst p))
    \<and> \<not> hasZone (pk_Src p) \<and> \<not> hasZone (pk_Dst p)
    \<and> (IsUDP p \<longrightarrow> \<not> pk_SYN p \<and> \<not> pk_ACK p)
    \<and> sublist (pk_Payload p) b \<and> length (pk_Payload p) + 28 \<le> length b"
proof -
  consider "parseV4 b = Inr p" | "parseV6 b = Inr p"
    using assms by (auto simp: packet_Parse_def frame_simps split: if_splits)
  then show ?thesis
  proof cases
    case 1
    then obtain src dst proto i j where
      t: "parseTransport (no_transport (AddrFrom4 src) (AddrFrom4 dst) proto) (drop i (take j b)) = Inr p"
      "20 \<le> i" "length (drop i (take j b)) + i \<le> length b"
      by (rule parseV4_InrD)
    then show ?thesis
      using parseTransport_InrD[OF t(1)] sublist_drop_take
      by (auto simp: no_transport_def AddrFrom4_def)
  next
    case 2
    then obtain src dst proto i j where
      t: "parseTransport (no_transport (AddrFrom16 src) (AddrFrom16 dst) proto) (drop i (take j b)) = Inr p"
      "20 \<le> i" "length (drop i (take j b)) + i \<le> length b"
      by (rule parseV6_InrD)
    then show ?thesis
      using parseTransport_InrD[OF t(1)] sublist_drop_take
      by (auto simp: no_transport_def AddrFrom16_def)
  qed
qed

text \<open>
  C35: an unfragmented IPv4 frame carrying TCP parses to its own addresses, ports, flags and
  payload, whatever its options, its other header fields and the padding behind it.
\<close>

theorem Parse_ipv4_tcp:
  assumes "length opts = 4 * k" and "k \<le> 10" and "flags AND 0x3fff = 0"
    and "length wcu = 6" and "length topts = 4 * m" and "m \<le> 10"
    and "body = tcp_segment sp dp sq ak res tflags wcu topts pay"
    and "20 + length opts + length body < 65536"
  shows "packet_Parse (ipv4_frame tos ident flags ttl ProtoTCP ck src dst opts body pad) =
    Inr \<lparr>pk_Src = Addr4 src, pk_Dst = Addr4 dst, pk_Proto = ProtoTCP, pk_SrcPort = sp, pk_DstPort = dp,
         pk_SYN = (tflags AND 0x02 \<noteq> 0), pk_ACK = (tflags AND 0x10 \<noteq> 0), pk_Payload = pay\<rparr>"
  unfolding parseV4_frame[OF assms(1,2,3,8)] unfolding assms(7)
  using assms(4-6) by (simp add: parseTransport_tcp no_transport_def)

lemma Parse_ipv4_tcp_witness:
  "packet_Parse (ipv4_frame 0 0 0x4000 64 ProtoTCP 0 0x0a000002 0x05060708 []
       (tcp_segment 50000 443 1 0 0 0x02 [0, 0, 0, 0, 0, 0] [2, 4, 5, 180] []) [0, 0]) =
   Inr \<lparr>pk_Src = Addr4 0x0a000002, pk_Dst = Addr4 0x05060708, pk_Proto = ProtoTCP,
        pk_SrcPort = 50000, pk_DstPort = 443, pk_SYN = True, pk_ACK = False, pk_Payload = []\<rparr>"
proof -
  let ?body = "tcp_segment 50000 443 1 0 0 0x02 [0, 0, 0, 0, 0, 0] [2, 4, 5, 180] []"
  have "length ?body = 24" by (simp add: tcp_segment_def)
  then show ?thesis
    by (subst Parse_ipv4_tcp[of _ 0 _ "[0, 0, 0, 0, 0, 0]" "[2, 4, 5, 180]" 1]) auto
qed

text \<open>
  An IPv6 frame without extension headers carrying UDP parses to its own addresses, ports
  and payload.
\<close>

theorem Parse_ipv6_udp:
  assumes "length flow = 3" and "body = udp_segment sp dp len ck pay" and "length body < 65536"
  shows "packet_Parse (ipv6_frame tc flow ProtoUDP hops src dst body pad) =
    Inr \<lparr>pk_Src = Addr6 src [], pk_Dst = Addr6 dst [], pk_Proto = ProtoUDP, pk_SrcPort = sp,
         pk_DstPort = dp, pk_SYN = False, pk_ACK = False, pk_Payload = pay\<rparr>"
  unfolding parseV6_frame[OF assms(1,3)] unfolding assms(2)
  by (simp add: parseTransport_udp no_transport_def)

lemma Parse_ipv6_udp_witness:
  "packet_Parse (ipv6_frame 0 [0, 0, 0] ProtoUDP 64 1 2 (udp_segment 53 40000 9 0 [7]) []) =
   Inr \<lparr>pk_Src = Addr6 1 [], pk_Dst = Addr6 2 [], pk_Proto = ProtoUDP, pk_SrcPort = 53,
        pk_DstPort = 40000, pk_SYN = False, pk_ACK = False, pk_Payload = [7]\<rparr>"
  by (rule Parse_ipv6_udp) (simp_all add: udp_segment_def)

lemma Parse_sound_witness:
  "\<exists>p. packet_Parse (ipv6_frame 0 [0, 0, 0] ProtoUDP 64 1 2 (udp_segment 53 40000 9 0 [7]) []) = Inr p
     \<and> (IsTCP p \<or> IsUDP p) \<and> Is6 (pk_Dst p) \<and> \<not> pk_SYN p"
proof -
  have f: "packet_Parse (ipv6_frame 0 [0, 0, 0] ProtoUDP 64 1 2 (udp_segment 53 40000 9 0 [7]) []) =
    parseTransport (no_transport (Addr6 1 []) (Addr6 2 []) ProtoUDP) (udp_segment 53 40000 9 0 [7])"
    by (rule parseV6_frame) (simp_all add: udp_segment_def)
  then obtain p where p: "packet_Parse (ipv6_frame 0 [0, 0, 0] ProtoUDP 64 1 2
      (udp_segment 53 40000 9 0 [7]) []) = Inr p" "pk_Dst p = Addr6 2 []" "IsUDP p"
    by (simp add: parseTransport_udp no_transport_def IsUDP_def)
  show ?thesis using Parse_sound[OF p(1)] p by auto
qed

end
