(* ===== verification/Learn.thy ===== *)
theory Learn
  imports Dnswatch Packet "HOL-Library.Product_Lexorder"
begin

text \<open>
  \<^verbatim>\<open>internal/learn/learn.go\<close>: the observer that turns packets into a list of destinations. The
  mutex makes each operation atomic and is not modelled. A Go map is a map, and a write to a
  missing inner map, which panics in Go, is an error of the model. \<^verbatim>\<open>sort.Slice\<close> is a sort by the
  key its less function compares; the elements it is used on differ in that key.
\<close>

section \<open>State\<close>

record learn_entry =
  le_Host :: string
  le_Domain :: bool
  le_Port :: u16
  le_Proto :: string
  le_First :: time
  le_Last :: time
  le_Hits :: int
  le_IPs :: "addr list"
  le_Origins :: "string \<Rightarrow> int option"

record flow_key =
  fk_host :: string
  fk_port :: u16
  fk_proto :: string

record udp_tuple =
  ut_peer :: addr
  ut_peerPort :: u16
  ut_local :: u16

record observer =
  ob_DNS :: cache
  ob_entries :: "flow_key \<Rightarrow> learn_entry option"
  ob_ips :: "flow_key \<Rightarrow> addr set option"
  ob_origins :: "flow_key \<Rightarrow> (string \<Rightarrow> int option) option"
  ob_udpIn :: "udp_tuple \<Rightarrow> time option"
  ob_udpOut :: "udp_tuple \<Rightarrow> time option"

text \<open>A frame that never returns from the DNS parser, and the write to a missing map.\<close>

datatype observer_error = DnsDiverges | NilMapWrite

definition replyWindow :: duration where "replyWindow = Minute"

definition NewObserver :: "cache \<Rightarrow> observer" where
  "NewObserver dns =
     \<lparr>ob_DNS = dns, ob_entries = (\<lambda>_. None), ob_ips = (\<lambda>_. None), ob_origins = (\<lambda>_. None),
      ob_udpIn = (\<lambda>_. None), ob_udpOut = (\<lambda>_. None)\<rparr>"

section \<open>Recording a flow\<close>

definition new_entry :: "string \<Rightarrow> bool \<Rightarrow> u16 \<Rightarrow> string \<Rightarrow> time \<Rightarrow> learn_entry" where
  "new_entry host domain port proto now =
     \<lparr>le_Host = host, le_Domain = domain, le_Port = port, le_Proto = proto, le_First = now,
      le_Last = zero_time, le_Hits = 0, le_IPs = [], le_Origins = (\<lambda>_. None)\<rparr>"

text \<open>
  \<^verbatim>\<open>record\<close>: the second component is the entry \<^verbatim>\<open>OnNew\<close> is called with, if it is.
\<close>

definition obs_record ::
  "addr \<Rightarrow> u16 \<Rightarrow> string \<Rightarrow> string \<Rightarrow> time \<Rightarrow> observer \<Rightarrow>
     observer_error + (observer \<times> learn_entry option)" where
  "obs_record ip port proto origin now ob =
     (let (host, domain) = (case cache_Lookup (ob_DNS ob) ip now of
                              Some name \<Rightarrow> (name, True) | None \<Rightarrow> (Addr_String ip, False));
          k = \<lparr>fk_host = host, fk_port = port, fk_proto = proto\<rparr>;
          seen = (ob_entries ob k \<noteq> None);
          ob = (if seen then ob
                else ob\<lparr>ob_entries := (ob_entries ob)(k \<mapsto> new_entry host domain port proto now),
                        ob_ips := (ob_ips ob)(k \<mapsto> {}),
                        ob_origins := (ob_origins ob)(k \<mapsto> (\<lambda>_. None))\<rparr>);
          e = the (ob_entries ob k);
          e = e\<lparr>le_Hits := le_Hits e + 1, le_Last := now\<rparr>;
          ob = ob\<lparr>ob_entries := (ob_entries ob)(k \<mapsto> e)\<rparr> in
      case ob_ips ob k of
        None \<Rightarrow> Inl NilMapWrite
      | Some is \<Rightarrow>
          (case ob_origins ob k of
             None \<Rightarrow> Inl NilMapWrite
           | Some os \<Rightarrow>
               Inr (ob\<lparr>ob_ips := (ob_ips ob)(k \<mapsto> insert ip is),
                       ob_origins := (ob_origins ob)(k \<mapsto>
                         os(origin \<mapsto> (case os origin of None \<Rightarrow> 0 | Some n \<Rightarrow> n) + 1))\<rparr>,
                    if seen then None else Some e)))"

section \<open>One packet\<close>

text \<open>
  \<open>stale m t now\<close>: the condition \<^verbatim>\<open>!ok || now.Sub(at) > replyWindow\<close> on a lookup in a reply table.
\<close>

definition stale :: "(udp_tuple \<Rightarrow> time option) \<Rightarrow> udp_tuple \<Rightarrow> time \<Rightarrow> bool" where
  "stale m t now = (case m t of None \<Rightarrow> True | Some at \<Rightarrow> replyWindow < now - at)"

definition packet_in ::
  "('e, 'p) dns_parser \<Rightarrow> packet \<Rightarrow> time \<Rightarrow> observer \<Rightarrow> observer_error + observer" where
  "packet_in P p now ob =
     (if IsUDP p then
        (case (if pk_SrcPort p = 53 then
                 map_option fst (cache_Observe P (ob_DNS ob) (pk_Payload p) now)
               else Some (ob_DNS ob)) of
           None \<Rightarrow> Inl DnsDiverges
         | Some dns \<Rightarrow>
             (let t = \<lparr>ut_peer = pk_Src p, ut_peerPort = pk_SrcPort p, ut_local = pk_DstPort p\<rparr>;
                  ob = ob\<lparr>ob_DNS := dns\<rparr> in
              Inr (if stale (ob_udpOut ob) t now
                   then ob\<lparr>ob_udpIn := (ob_udpIn ob)(t \<mapsto> now)\<rparr> else ob)))
      else Inr ob)"

text \<open>
  The outgoing half up to the call of \<^verbatim>\<open>record\<close>: the protocol's name if the packet opens a flow,
  and the observer with its reply tables updated.
\<close>

definition packet_out :: "packet \<Rightarrow> time \<Rightarrow> observer \<Rightarrow> string option \<times> observer" where
  "packet_out p now ob =
     (if \<not> IsValid (pk_Dst p) \<or> IsLoopback (pk_Dst p) \<or> IsMulticast (pk_Dst p)
         \<or> IsUnspecified (pk_Dst p) then (None, ob)
      else if IsTCP p then
        (if \<not> pk_SYN p \<or> pk_ACK p then (None, ob) else (Some ''tcp'', ob))
      else if IsUDP p then
        (let t = \<lparr>ut_peer = pk_Dst p, ut_peerPort = pk_DstPort p, ut_local = pk_SrcPort p\<rparr>;
             ob' = (if stale (ob_udpIn ob) t now
                    then ob\<lparr>ob_udpOut := (ob_udpOut ob)(t \<mapsto> now)\<rparr> else ob) in
         case ob_udpIn ob t of
           Some at \<Rightarrow> if now - at < replyWindow then (None, ob') else (Some ''udp'', ob')
         | None \<Rightarrow> (Some ''udp'', ob'))
      else (None, ob))"

text \<open>The callback \<^verbatim>\<open>Owner\<close>, when there is one, names the cgroup behind a local address.\<close>

type_synonym owner = "(addr \<Rightarrow> u16 \<Rightarrow> string \<Rightarrow> string) option"

definition origin_of :: "owner \<Rightarrow> packet \<Rightarrow> string \<Rightarrow> string" where
  "origin_of own p proto =
     (case own of None \<Rightarrow> [] | Some f \<Rightarrow> f (pk_Src p) (pk_SrcPort p) proto)"

definition obs_Packet ::
  "('e, 'p) dns_parser \<Rightarrow> owner \<Rightarrow> packet \<Rightarrow> bool \<Rightarrow> time \<Rightarrow> observer \<Rightarrow>
     observer_error + (observer \<times> learn_entry option)" where
  "obs_Packet P own p outgoing now ob =
     (if \<not> outgoing then
        (case packet_in P p now ob of Inl e \<Rightarrow> Inl e | Inr ob \<Rightarrow> Inr (ob, None))
      else
        case packet_out p now ob of
          (None, ob) \<Rightarrow> Inr (ob, None)
        | (Some proto, ob) \<Rightarrow>
            obs_record (Unmap (pk_Dst p)) (pk_DstPort p) proto (origin_of own p proto) now ob)"

section \<open>Reading the observer\<close>

text \<open>
  The copy \<^verbatim>\<open>Entries\<close> makes of an entry and the order of its result; \<open>ks\<close> is the order in which
  the iteration visits the map of entries.
\<close>

definition entry_copy :: "observer \<Rightarrow> flow_key \<Rightarrow> learn_entry \<Rightarrow> learn_entry" where
  "entry_copy ob k e =
     e\<lparr>le_IPs := le_IPs e @ (case ob_ips ob k of None \<Rightarrow> [] | Some is \<Rightarrow> sorted_list_of_set is),
       le_Origins := (case ob_origins ob k of None \<Rightarrow> (\<lambda>_. None) | Some os \<Rightarrow> os)\<rparr>"

definition entry_key :: "learn_entry \<Rightarrow> bool \<times> string \<times> u16 \<times> string" where
  "entry_key e = (\<not> le_Domain e, le_Host e, le_Port e, le_Proto e)"

definition obs_Entries :: "flow_key list \<Rightarrow> observer \<Rightarrow> learn_entry list" where
  "obs_Entries ks ob =
     sort_key entry_key
       (concat (map (\<lambda>k. case ob_entries ob k of None \<Rightarrow> [] | Some e \<Rightarrow> [entry_copy ob k e]) ks))"

definition sweep_table :: "time \<Rightarrow> (udp_tuple \<Rightarrow> time option) \<Rightarrow> udp_tuple \<Rightarrow> time option" where
  "sweep_table now m =
     (\<lambda>t. case m t of None \<Rightarrow> None | Some at \<Rightarrow> if replyWindow < now - at then None else Some at)"

definition obs_Sweep :: "time \<Rightarrow> observer \<Rightarrow> observer" where
  "obs_Sweep now ob =
     ob\<lparr>ob_udpIn := sweep_table now (ob_udpIn ob), ob_udpOut := sweep_table now (ob_udpOut ob)\<rparr>"

section \<open>The order of the entries\<close>

text \<open>The less function of \<^verbatim>\<open>Entries\<close>, word for word.\<close>

definition entry_less :: "learn_entry \<Rightarrow> learn_entry \<Rightarrow> bool" where
  "entry_less a b =
     (if le_Domain a \<noteq> le_Domain b then le_Domain a
      else if le_Host a \<noteq> le_Host b then le_Host a < le_Host b
      else if le_Port a \<noteq> le_Port b then le_Port a < le_Port b
      else le_Proto a < le_Proto b)"

lemma entry_less_key: "entry_less a b \<longleftrightarrow> entry_key a < entry_key b"
  by (auto simp: entry_less_def entry_key_def less_prod_def')

section \<open>The log behind an observer\<close>

text \<open>
  What the observer is a summary of: the flows in the order they were seen, each with its key,
  whether the host is a name, the address, the cgroup and the time.
\<close>

record flow_rec =
  fr_key :: flow_key
  fr_domain :: bool
  fr_ip :: addr
  fr_origin :: string
  fr_time :: time

definition flows_to :: "flow_key \<Rightarrow> flow_rec list \<Rightarrow> flow_rec list" where
  "flows_to k L = filter (\<lambda>r. fr_key r = k) L"

definition log_entry :: "flow_rec list \<Rightarrow> flow_key \<Rightarrow> learn_entry option" where
  "log_entry L k =
     (let fs = flows_to k L in
      if fs = [] then None
      else Some \<lparr>le_Host = fk_host k, le_Domain = fr_domain (hd fs), le_Port = fk_port k,
                 le_Proto = fk_proto k, le_First = fr_time (hd fs), le_Last = fr_time (last fs),
                 le_Hits = int (length fs), le_IPs = [], le_Origins = (\<lambda>_. None)\<rparr>)"

definition log_ips :: "flow_rec list \<Rightarrow> flow_key \<Rightarrow> addr set option" where
  "log_ips L k = (let fs = flows_to k L in if fs = [] then None else Some (fr_ip ` set fs))"

definition origin_count :: "flow_rec list \<Rightarrow> string \<Rightarrow> int option" where
  "origin_count fs cg =
     (let n = length (filter (\<lambda>r. fr_origin r = cg) fs) in if n = 0 then None else Some (int n))"

definition log_origins :: "flow_rec list \<Rightarrow> flow_key \<Rightarrow> (string \<Rightarrow> int option) option" where
  "log_origins L k = (let fs = flows_to k L in if fs = [] then None else Some (origin_count fs))"

definition summarises :: "flow_rec list \<Rightarrow> observer \<Rightarrow> bool" where
  "summarises L ob \<longleftrightarrow> ob_entries ob = log_entry L \<and> ob_ips ob = log_ips L \<and> ob_origins ob = log_origins L"

text \<open>The flow a lookup in the DNS cache makes of an address.\<close>

definition flow_rec_of :: "cache \<Rightarrow> addr \<Rightarrow> u16 \<Rightarrow> string \<Rightarrow> string \<Rightarrow> time \<Rightarrow> flow_rec" where
  "flow_rec_of dns ip port proto origin now =
     (let name = cache_Lookup dns ip now in
      \<lparr>fr_key = \<lparr>fk_host = (case name of Some n \<Rightarrow> n | None \<Rightarrow> Addr_String ip), fk_port = port, fk_proto = proto\<rparr>,
       fr_domain = (name \<noteq> None), fr_ip = ip, fr_origin = origin, fr_time = now\<rparr>)"

lemma flows_to_snoc:
  "flows_to k (L @ [r]) = flows_to k L @ (if fr_key r = k then [r] else [])"
  by (simp add: flows_to_def)

lemma origin_count_snoc:
  "origin_count (fs @ [r]) =
     (origin_count fs)(fr_origin r \<mapsto> (case origin_count fs (fr_origin r) of None \<Rightarrow> 0 | Some n \<Rightarrow> n) + 1)"
  by (auto simp: origin_count_def fun_eq_iff Let_def)

lemma origin_count_Nil [simp]: "origin_count [] = (\<lambda>_. None)"
  by (simp add: origin_count_def fun_eq_iff)

text \<open>Recording a flow appends it to the log; the inner maps it writes to are there.\<close>

lemma obs_record_summarises:
  fixes ip port proto origin now
  assumes "summarises L ob"
  defines "r \<equiv> flow_rec_of (ob_DNS ob) ip port proto origin now"
  shows "\<exists>ob' ev. obs_record ip port proto origin now ob = Inr (ob', ev)
    \<and> summarises (L @ [r]) ob' \<and> ob_DNS ob' = ob_DNS ob \<and> ob_udpIn ob' = ob_udpIn ob
    \<and> ob_udpOut ob' = ob_udpOut ob
    \<and> ev = (if flows_to (fr_key r) L = [] then log_entry (L @ [r]) (fr_key r) else None)"
proof -
  let ?k = "fr_key r" and ?fs = "flows_to (fr_key r) L"
  have ent: "ob_entries ob = log_entry L" "ob_ips ob = log_ips L" "ob_origins ob = log_origins L"
    using assms(1) by (simp_all add: summarises_def)
  have k: "fk_port ?k = port" "fk_proto ?k = proto" "fr_ip r = ip" "fr_origin r = origin" "fr_time r = now"
    by (simp_all add: r_def flow_rec_of_def Let_def)
  obtain host domain where hd: "(case cache_Lookup (ob_DNS ob) ip now of Some name \<Rightarrow> (name, True)
      | None \<Rightarrow> (Addr_String ip, False)) = (host, domain)"
    by (cases "(case cache_Lookup (ob_DNS ob) ip now of Some name \<Rightarrow> (name, True)
      | None \<Rightarrow> (Addr_String ip, False))")
  then have kk: "?k = \<lparr>fk_host = host, fk_port = port, fk_proto = proto\<rparr>" "fr_domain r = domain"
    by (auto simp: r_def flow_rec_of_def Let_def split: option.splits)
  have other: "flows_to k (L @ [r]) = flows_to k L" if "k \<noteq> ?k" for k
    using that by (simp add: flows_to_snoc)
  have same: "flows_to ?k (L @ [r]) = ?fs @ [r]" by (simp add: flows_to_snoc)
  have e: "log_entry (L @ [r]) = (log_entry L)(?k := log_entry (L @ [r]) ?k)"
    "log_ips (L @ [r]) = (log_ips L)(?k \<mapsto> insert ip (fr_ip ` set ?fs))"
    "log_origins (L @ [r]) = (log_origins L)(?k \<mapsto> (origin_count ?fs)(origin \<mapsto>
        (case origin_count ?fs origin of None \<Rightarrow> 0 | Some n \<Rightarrow> n) + 1))"
    using other same k
    by (auto simp: fun_eq_iff log_entry_def log_ips_def log_origins_def Let_def origin_count_snoc)
  show ?thesis
  proof (cases "?fs = []")
    case True
    then have "log_entry L ?k = None" by (simp add: log_entry_def)
    moreover have "log_entry (L @ [r]) ?k = Some ((new_entry host domain port proto now)\<lparr>le_Hits := 1, le_Last := now\<rparr>)"
      using True same k kk by (simp add: log_entry_def new_entry_def)
    ultimately show ?thesis
      using True e kk(1) ent
      by (auto simp: obs_record_def hd Let_def summarises_def new_entry_def)
  next
    case False
    then have l: "log_entry L ?k \<noteq> None" "log_ips L ?k = Some (fr_ip ` set ?fs)"
      "log_origins L ?k = Some (origin_count ?fs)"
      by (simp_all add: log_entry_def log_ips_def log_origins_def Let_def)
    moreover have "log_entry (L @ [r]) ?k =
        Some ((the (log_entry L ?k))\<lparr>le_Hits := le_Hits (the (log_entry L ?k)) + 1, le_Last := now\<rparr>)"
      using False same k kk by (simp add: log_entry_def Let_def)
    ultimately show ?thesis
      using False e kk(1) ent
      by (auto simp: obs_record_def hd Let_def summarises_def)
  qed
qed

section \<open>Runs\<close>

text \<open>
  What happens to an observer and its cache: a packet, a sweep of the reply tables, a purge of
  the cache. A run stops at the first frame the DNS parser does not return from.
\<close>

datatype obs_op = ObPacket packet bool time | ObSweep time | ObPurge time

fun obs_step :: "('e, 'p) dns_parser \<Rightarrow> owner \<Rightarrow> obs_op \<Rightarrow> observer \<Rightarrow> observer_error + observer" where
  "obs_step P own (ObPacket p outgoing now) ob =
     (case obs_Packet P own p outgoing now ob of Inl e \<Rightarrow> Inl e | Inr (ob, _) \<Rightarrow> Inr ob)"
| "obs_step P own (ObSweep now) ob = Inr (obs_Sweep now ob)"
| "obs_step P own (ObPurge now) ob = Inr (ob\<lparr>ob_DNS := cache_Purge (ob_DNS ob) now\<rparr>)"

text \<open>The flow a step adds: an outgoing packet that opens one, seen with the state before it.\<close>

fun step_flow :: "owner \<Rightarrow> obs_op \<Rightarrow> observer \<Rightarrow> flow_rec list" where
  "step_flow own (ObPacket p True now) ob =
     (case fst (packet_out p now ob) of
        None \<Rightarrow> []
      | Some proto \<Rightarrow>
          [flow_rec_of (ob_DNS ob) (Unmap (pk_Dst p)) (pk_DstPort p) proto (origin_of own p proto) now])"
| "step_flow own _ ob = []"

fun run_log :: "('e, 'p) dns_parser \<Rightarrow> owner \<Rightarrow> obs_op list \<Rightarrow> observer \<Rightarrow> flow_rec list" where
  "run_log P own [] ob = []"
| "run_log P own (x # xs) ob =
     step_flow own x ob @ (case obs_step P own x ob of Inl _ \<Rightarrow> [] | Inr ob' \<Rightarrow> run_log P own xs ob')"

lemma packet_out_keeps:
  "packet_out p now ob = (r, ob') \<Longrightarrow> ob_DNS ob' = ob_DNS ob \<and> ob_entries ob' = ob_entries ob
     \<and> ob_ips ob' = ob_ips ob \<and> ob_origins ob' = ob_origins ob \<and> ob_udpIn ob' = ob_udpIn ob"
  by (auto simp: packet_out_def Let_def split: if_splits option.splits)

lemma packet_in_keeps:
  "packet_in P p now ob = Inr ob' \<Longrightarrow> ob_entries ob' = ob_entries ob
     \<and> ob_ips ob' = ob_ips ob \<and> ob_origins ob' = ob_origins ob \<and> ob_udpOut ob' = ob_udpOut ob"
  by (auto simp: packet_in_def Let_def split: if_splits option.splits)

lemma packet_in_error: "packet_in P p now ob = Inl e \<Longrightarrow> e = DnsDiverges"
  by (auto simp: packet_in_def Let_def split: if_splits option.splits)

lemma step_summarises:
  assumes "summarises L ob"
  shows "case obs_step P own x ob of Inl e \<Rightarrow> e = DnsDiverges | Inr ob' \<Rightarrow> summarises (L @ step_flow own x ob) ob'"
proof (cases x)
  case (ObPacket p outgoing now)
  show ?thesis
  proof (cases outgoing)
    case False
    then show ?thesis
      using ObPacket assms packet_in_keeps[of P p now ob] packet_in_error[of P p now ob]
      by (cases "packet_in P p now ob") (auto simp: obs_Packet_def summarises_def)
  next
    case True
    obtain pr ob1 where po: "packet_out p now ob = (pr, ob1)" by (cases "packet_out p now ob")
    from packet_out_keeps[OF po] assms have s1: "summarises L ob1" and d: "ob_DNS ob1 = ob_DNS ob"
      by (simp_all add: summarises_def)
    show ?thesis
    proof (cases pr)
      case None
      then show ?thesis using True ObPacket po s1 by (simp add: obs_Packet_def)
    next
      case (Some proto)
      then show ?thesis
        using obs_record_summarises[OF s1, of "Unmap (pk_Dst p)" "pk_DstPort p" proto
            "origin_of own p proto" now] True ObPacket po d
        by (auto simp: obs_Packet_def)
    qed
  qed
qed (use assms in \<open>simp_all add: summarises_def obs_Sweep_def\<close>)

lemma run_summarises:
  "summarises L ob \<Longrightarrow>
     case fold_res (obs_step P own) xs ob of
       Inl e \<Rightarrow> e = DnsDiverges
     | Inr ob' \<Rightarrow> summarises (L @ run_log P own xs ob) ob'"
proof (induction xs arbitrary: L ob)
  case (Cons x xs)
  show ?case
  proof (cases "obs_step P own x ob")
    case (Inl e)
    then show ?thesis using step_summarises[OF Cons.prems, where P = P and own = own and x = x] by simp
  next
    case (Inr ob1)
    then have "summarises (L @ step_flow own x ob) ob1"
      using step_summarises[OF Cons.prems, where P = P and own = own and x = x] by simp
    from Cons.IH[OF this] Inr show ?thesis
      by (cases "fold_res (obs_step P own) xs ob1") simp_all
  qed
qed simp

lemma NewObserver_summarises: "summarises [] (NewObserver dns)"
  by (auto simp: summarises_def NewObserver_def log_entry_def log_ips_def log_origins_def flows_to_def)

text \<open>A log has one origin per flow: the counts of the origins add up to the hits.\<close>

lemma origin_count_total:
  "dom (origin_count fs) = fr_origin ` set fs"
  "(\<Sum>cg \<in> fr_origin ` set fs. the (origin_count fs cg)) = int (length fs)"
proof -
  show d: "dom (origin_count fs) = fr_origin ` set fs"
    by (auto simp: origin_count_def Let_def filter_empty_conv split: if_splits)
  have "the (origin_count fs cg) = int (length (filter (\<lambda>r. fr_origin r = cg) fs))"
    if "cg \<in> fr_origin ` set fs" for cg
    using that by (auto simp: origin_count_def Let_def filter_empty_conv)
  moreover have "(\<Sum>cg \<in> fr_origin ` set fs. length (filter (\<lambda>r. fr_origin r = cg) fs)) = length fs"
  proof (induction fs)
    case (Cons r fs)
    have "(\<Sum>cg \<in> fr_origin ` set (r # fs). length (filter (\<lambda>x. fr_origin x = cg) fs)) = length fs"
    proof -
      have "(\<Sum>cg \<in> fr_origin ` set (r # fs). length (filter (\<lambda>x. fr_origin x = cg) fs)) =
        (\<Sum>cg \<in> fr_origin ` set fs. length (filter (\<lambda>x. fr_origin x = cg) fs))"
        by (rule sum.mono_neutral_right) (auto simp: filter_empty_conv)
      with Cons show ?thesis by simp
    qed
    moreover have "(\<Sum>cg \<in> fr_origin ` set (r # fs). length (filter (\<lambda>x. fr_origin x = cg) (r # fs))) =
      (\<Sum>cg \<in> fr_origin ` set (r # fs). (if fr_origin r = cg then 1 else 0) + length (filter (\<lambda>x. fr_origin x = cg) fs))"
      by (rule sum.cong) auto
    ultimately show ?case by (simp add: sum.distrib)
  qed simp
  ultimately show "(\<Sum>cg \<in> fr_origin ` set fs. the (origin_count fs cg)) = int (length fs)"
    by (simp flip: of_nat_sum)
qed


section \<open>Sweeping the reply tables\<close>

fun op_time :: "obs_op \<Rightarrow> time" where
  "op_time (ObPacket _ _ now) = now"
| "op_time (ObSweep now) = now"
| "op_time (ObPurge now) = now"

text \<open>Two reply tables that no lookup from \<open>now\<close> on can tell apart.\<close>

definition same_table ::
  "time \<Rightarrow> (udp_tuple \<Rightarrow> time option) \<Rightarrow> (udp_tuple \<Rightarrow> time option) \<Rightarrow> bool" where
  "same_table now m m' \<longleftrightarrow> (\<forall>t. m t = m' t \<or> stale m t now \<and> stale m' t now)"

definition same_view :: "time \<Rightarrow> observer \<Rightarrow> observer \<Rightarrow> bool" where
  "same_view now a b \<longleftrightarrow> ob_DNS a = ob_DNS b \<and> ob_entries a = ob_entries b \<and> ob_ips a = ob_ips b
     \<and> ob_origins a = ob_origins b \<and> same_table now (ob_udpIn a) (ob_udpIn b)
     \<and> same_table now (ob_udpOut a) (ob_udpOut b)"

lemma stale_later: "stale m t now \<Longrightarrow> now \<le> now' \<Longrightarrow> stale m t now'"
  by (auto simp: stale_def split: option.splits)

lemma same_table_stale: "same_table now m m' \<Longrightarrow> now \<le> now' \<Longrightarrow> stale m t now' = stale m' t now'"
  unfolding same_table_def by (metis stale_def stale_later)

lemma same_table_upd: "same_table now m m' \<Longrightarrow> same_table now (m(t \<mapsto> x)) (m'(t \<mapsto> x))"
  by (auto simp: same_table_def stale_def)

lemma same_table_sweep:
  "same_table now m m' \<Longrightarrow> now \<le> s \<Longrightarrow> same_table now (sweep_table s m) (sweep_table s m')"
proof -
  assume a: "same_table now m m'" "now \<le> s"
  have "sweep_table s m t = sweep_table s m' t" for t
  proof (cases "m t = m' t")
    case True
    then show ?thesis by (simp add: sweep_table_def)
  next
    case False
    then have "stale m t s" "stale m' t s" using a stale_later unfolding same_table_def by blast+
    then show ?thesis by (auto simp: sweep_table_def stale_def split: option.splits)
  qed
  then show ?thesis by (simp add: same_table_def)
qed

lemma sweep_same_table: "same_table s (sweep_table s m) m"
  by (auto simp: same_table_def sweep_table_def stale_def split: option.splits)

lemma sweep_same_view: "same_view s (obs_Sweep s ob) ob"
  by (simp add: same_view_def obs_Sweep_def sweep_same_table)

lemma packet_in_same:
  assumes "same_view s a b" and "s \<le> now"
  shows "rel_sum (=) (same_view s) (packet_in P p now a) (packet_in P p now b)"
  using assms same_table_stale[of s "ob_udpOut a" "ob_udpOut b" now]
  by (auto simp: packet_in_def same_view_def Let_def same_table_upd split: option.splits if_splits)

lemma same_table_cases:
  "same_table s m m' \<Longrightarrow> s \<le> now \<Longrightarrow> m t = m' t \<or> stale m t now \<and> stale m' t now"
  using stale_later unfolding same_table_def by blast

lemma packet_out_same:
  assumes "same_view s a b" and "s \<le> now"
  shows "rel_prod (=) (same_view s) (packet_out p now a) (packet_out p now b)"
proof -
  let ?t = "\<lparr>ut_peer = pk_Dst p, ut_peerPort = pk_DstPort p, ut_local = pk_SrcPort p\<rparr>"
  have "same_table s (ob_udpIn a) (ob_udpIn b)" using assms(1) by (simp add: same_view_def)
  then consider "ob_udpIn a ?t = ob_udpIn b ?t" | "stale (ob_udpIn a) ?t now" "stale (ob_udpIn b) ?t now"
    using same_table_cases[OF _ assms(2)] by blast
  then show ?thesis
  proof cases
    case 1
    then have "stale (ob_udpIn a) ?t now = stale (ob_udpIn b) ?t now" by (simp add: stale_def)
    then show ?thesis
      using 1 assms(1) by (auto simp: packet_out_def Let_def same_view_def same_table_upd split: option.splits)
  next
    case 2
    then have "\<forall>at. ob_udpIn a ?t = Some at \<longrightarrow> \<not> now - at < replyWindow"
      "\<forall>at. ob_udpIn b ?t = Some at \<longrightarrow> \<not> now - at < replyWindow"
      by (auto simp: stale_def)
    then show ?thesis
      using 2 assms(1) by (auto simp: packet_out_def Let_def same_view_def same_table_upd split: option.splits)
  qed
qed

lemma obs_record_tables:
  "obs_record ip port proto origin now (ob\<lparr>ob_udpIn := x, ob_udpOut := y\<rparr>) =
     map_sum id (map_prod (\<lambda>ob. ob\<lparr>ob_udpIn := x, ob_udpOut := y\<rparr>) id) (obs_record ip port proto origin now ob)"
proof -
  obtain host domain where hd: "(case cache_Lookup (ob_DNS ob) ip now of Some name \<Rightarrow> (name, True)
      | None \<Rightarrow> (Addr_String ip, False)) = (host, domain)"
    by (cases "(case cache_Lookup (ob_DNS ob) ip now of Some name \<Rightarrow> (name, True)
      | None \<Rightarrow> (Addr_String ip, False))")
  let ?k = "\<lparr>fk_host = host, fk_port = port, fk_proto = proto\<rparr>"
  show ?thesis
    by (cases "ob_entries ob ?k"; cases "ob_ips ob ?k"; cases "ob_origins ob ?k")
       (simp_all add: obs_record_def hd Let_def)
qed

lemma obs_record_same:
  assumes "same_view s a b"
  shows "rel_sum (=) (rel_prod (same_view s) (=)) (obs_record ip port proto origin now a) (obs_record ip port proto origin now b)"
proof -
  have b: "b = a\<lparr>ob_udpIn := ob_udpIn b, ob_udpOut := ob_udpOut b\<rparr>" using assms by (simp add: same_view_def)
  show ?thesis
  proof (cases "obs_record ip port proto origin now a")
    case (Inl e)
    then show ?thesis by (subst b) (simp add: obs_record_tables)
  next
    case (Inr r)
    obtain a' ev where r: "r = (a', ev)" by (cases r)
    have "a' = a'\<lparr>ob_udpIn := ob_udpIn a, ob_udpOut := ob_udpOut a\<rparr>"
      using Inr obs_record_tables[where x = "ob_udpIn a" and y = "ob_udpOut a" and ob = a
          and ip = ip and port = port and proto = proto and origin = origin and now = now]
      unfolding r by simp
    from arg_cong[OF this, of ob_udpIn] arg_cong[OF this, of ob_udpOut]
    have "ob_udpIn a' = ob_udpIn a \<and> ob_udpOut a' = ob_udpOut a" by simp
    then show ?thesis
      using Inr assms unfolding r by (subst b) (simp add: obs_record_tables same_view_def)
  qed
qed

lemma obs_Packet_same:
  assumes "same_view s a b" and "s \<le> now"
  shows "rel_sum (=) (rel_prod (same_view s) (=)) (obs_Packet P own p outgoing now a) (obs_Packet P own p outgoing now b)"
proof (cases outgoing)
  case False
  then show ?thesis
    using packet_in_same[OF assms, of P p]
    by (cases "packet_in P p now a"; cases "packet_in P p now b") (simp_all add: obs_Packet_def)
next
  case True
  obtain pa a1 pb b1 where e: "packet_out p now a = (pa, a1)" "packet_out p now b = (pb, b1)"
    by (cases "packet_out p now a"; cases "packet_out p now b")
  with packet_out_same[OF assms, of p] have "pa = pb" "same_view s a1 b1" by simp_all
  then show ?thesis
    using True e obs_record_same[OF \<open>same_view s a1 b1\<close>] by (cases pb) (simp_all add: obs_Packet_def)
qed

lemma step_same:
  assumes "same_view s a b" and "s \<le> op_time x"
  shows "rel_sum (=) (same_view s) (obs_step P own x a) (obs_step P own x b)"
proof (cases x)
  case (ObPacket p outgoing now)
  have "s \<le> now" using assms(2) ObPacket by simp
  from obs_Packet_same[OF assms(1) this, of P own p outgoing] ObPacket show ?thesis
    by (cases "obs_Packet P own p outgoing now a"; cases "obs_Packet P own p outgoing now b") auto
next
  case (ObSweep now)
  then show ?thesis using assms same_table_sweep by (simp add: same_view_def obs_Sweep_def)
next
  case (ObPurge now)
  then show ?thesis using assms by (simp add: same_view_def)
qed

lemma run_same:
  "same_view s a b \<Longrightarrow> \<forall>x \<in> set xs. s \<le> op_time x \<Longrightarrow>
     rel_sum (=) (same_view s) (fold_res (obs_step P own) xs a) (fold_res (obs_step P own) xs b)"
proof (induction xs arbitrary: a b)
  case (Cons x xs)
  have "rel_sum (=) (same_view s) (obs_step P own x a) (obs_step P own x b)"
    using Cons.prems by (intro step_same) simp_all
  then show ?case
    using Cons.IH Cons.prems(2) by (cases "obs_step P own x a"; cases "obs_step P own x b") simp_all
qed simp

section \<open>What Entries returns\<close>

definition key_of :: "learn_entry \<Rightarrow> flow_key" where
  "key_of e = \<lparr>fk_host = le_Host e, fk_port = le_Port e, fk_proto = le_Proto e\<rparr>"

text \<open>The entry of a destination, read off the log.\<close>

definition log_view :: "flow_rec list \<Rightarrow> flow_key \<Rightarrow> learn_entry" where
  "log_view L k =
     (let fs = flows_to k L in
      \<lparr>le_Host = fk_host k, le_Domain = fr_domain (hd fs), le_Port = fk_port k,
       le_Proto = fk_proto k, le_First = fr_time (hd fs), le_Last = fr_time (last fs),
       le_Hits = int (length fs), le_IPs = sorted_list_of_set (fr_ip ` set fs),
       le_Origins = origin_count fs\<rparr>)"

lemma key_of_view [simp]: "key_of (log_view L k) = k"
  by (simp add: key_of_def log_view_def Let_def)

lemma flows_to_Nil_iff: "flows_to k L = [] \<longleftrightarrow> k \<notin> fr_key ` set L"
  by (auto simp: flows_to_def filter_empty_conv)

lemma summarises_dom: "summarises L ob \<Longrightarrow> dom (ob_entries ob) = fr_key ` set L"
  by (auto simp: summarises_def log_entry_def Let_def flows_to_Nil_iff split: if_splits)

lemma summarises_copy:
  assumes "summarises L ob" and "k \<in> dom (ob_entries ob)"
  shows "\<exists>e. ob_entries ob k = Some e \<and> entry_copy ob k e = log_view L k"
proof -
  have "flows_to k L \<noteq> []" using assms summarises_dom flows_to_Nil_iff by blast
  then show ?thesis
    using assms(1)
    by (simp add: summarises_def log_entry_def log_ips_def log_origins_def Let_def entry_copy_def log_view_def)
qed

lemma summarises_entries:
  assumes "summarises L ob" and "set ks = dom (ob_entries ob)"
  shows "concat (map (\<lambda>k. case ob_entries ob k of None \<Rightarrow> [] | Some e \<Rightarrow> [entry_copy ob k e]) ks) = map (log_view L) ks"
proof -
  have "(case ob_entries ob k of None \<Rightarrow> [] | Some e \<Rightarrow> [entry_copy ob k e]) = [log_view L k]" if "k \<in> set ks" for k
    using summarises_copy[OF assms(1), of k] that assms(2) by auto
  then have "map (\<lambda>k. case ob_entries ob k of None \<Rightarrow> [] | Some e \<Rightarrow> [entry_copy ob k e]) ks =
      map (\<lambda>k. [log_view L k]) ks" by (intro map_cong) simp_all
  then show ?thesis by (simp only: concat_map_singleton)
qed

lemma entry_key_view_inj: "entry_key (log_view L k) = entry_key (log_view L k') \<Longrightarrow> k = k'"
  by (auto simp: entry_key_def log_view_def Let_def intro: flow_key.equality)

lemma sorted_distinct_wrt:
  "sorted (map f xs) \<Longrightarrow> distinct (map f xs) \<Longrightarrow> sorted_wrt (\<lambda>a b. f a < f b) xs"
  by (induction xs) (auto simp: less_le image_iff)

lemma Entries_of_log:
  assumes "summarises L ob" and "set ks = dom (ob_entries ob)" and "distinct ks"
  shows "obs_Entries ks ob = sort_key entry_key (map (log_view L) ks)"
    and "sorted_wrt entry_less (obs_Entries ks ob)"
    and "mset (obs_Entries ks ob) = mset (map (log_view L) ks)"
proof -
  show e: "obs_Entries ks ob = sort_key entry_key (map (log_view L) ks)"
    by (simp only: obs_Entries_def summarises_entries[OF assms(1,2)])
  then show "mset (obs_Entries ks ob) = mset (map (log_view L) ks)" by simp
  have "distinct (map entry_key (map (log_view L) ks))"
    using assms(3) entry_key_view_inj by (auto simp: distinct_map inj_on_def)
  moreover have "mset (map entry_key (obs_Entries ks ob)) = mset (map entry_key (map (log_view L) ks))"
    by (simp add: e multiset.map_comp)
  ultimately have "distinct (map entry_key (obs_Entries ks ob))"
    by (metis mset_eq_imp_distinct_iff)
  moreover have "sorted (map entry_key (obs_Entries ks ob))" by (simp add: e)
  moreover have "entry_less = (\<lambda>a b. entry_key a < entry_key b)" by (simp add: fun_eq_iff entry_less_key)
  ultimately show "sorted_wrt entry_less (obs_Entries ks ob)"
    using sorted_distinct_wrt[of entry_key] by simp
qed

lemma run_summarises_Inr:
  "fold_res (obs_step P own) xs (NewObserver dns) = Inr ob \<Longrightarrow> summarises (run_log P own xs (NewObserver dns)) ob"
  using run_summarises[OF NewObserver_summarises[of dns], of P own xs] by simp

section \<open>UDP conversations\<close>

text \<open>The two directions of one UDP conversation.\<close>

definition sends_on :: "udp_tuple \<Rightarrow> packet \<Rightarrow> bool" where
  "sends_on t p \<longleftrightarrow> IsUDP p \<and> t = \<lparr>ut_peer = pk_Dst p, ut_peerPort = pk_DstPort p, ut_local = pk_SrcPort p\<rparr>"

definition receives_on :: "udp_tuple \<Rightarrow> packet \<Rightarrow> bool" where
  "receives_on t p \<longleftrightarrow> IsUDP p \<and> t = \<lparr>ut_peer = pk_Src p, ut_peerPort = pk_SrcPort p, ut_local = pk_DstPort p\<rparr>"

definition routable :: "addr \<Rightarrow> bool" where
  "routable a \<longleftrightarrow> IsValid a \<and> \<not> IsLoopback a \<and> \<not> IsMulticast a \<and> \<not> IsUnspecified a"

lemma UDP_not_TCP: "IsUDP p \<Longrightarrow> \<not> IsTCP p"
  by (simp add: IsUDP_def IsTCP_def ProtoUDP_def ProtoTCP_def)

text \<open>
  Everything the peer sends comes within \<open>replyWindow\<close> of our last packet, the first one's time
  being \<open>sent\<close>; our replies come sooner than \<open>replyWindow\<close> after the peer's last packet, \<open>got\<close>.
\<close>

fun answered :: "udp_tuple \<Rightarrow> time \<Rightarrow> obs_op list \<Rightarrow> bool" where
  "answered t sent [] = True"
| "answered t sent (ObPacket p outgoing now # xs) =
     (if outgoing \<and> sends_on t p then answered t now xs
      else (\<not> outgoing \<and> receives_on t p \<longrightarrow> now - sent \<le> replyWindow) \<and> answered t sent xs)"
| "answered t sent (_ # xs) = answered t sent xs"

fun prompt :: "udp_tuple \<Rightarrow> time \<Rightarrow> obs_op list \<Rightarrow> bool" where
  "prompt t got [] = True"
| "prompt t got (ObPacket p outgoing now # xs) =
     (if \<not> outgoing \<and> receives_on t p then prompt t now xs
      else (outgoing \<and> sends_on t p \<longrightarrow> now - got < replyWindow) \<and> prompt t got xs)"
| "prompt t got (_ # xs) = prompt t got xs"

definition opened_by_us :: "udp_tuple \<Rightarrow> time \<Rightarrow> time \<Rightarrow> observer \<Rightarrow> bool" where
  "opened_by_us t sent now ob \<longleftrightarrow> ob_udpIn ob t = None
     \<and> (now - sent \<le> replyWindow \<longrightarrow> ob_udpOut ob t = Some sent)"

definition opened_by_peer :: "udp_tuple \<Rightarrow> time \<Rightarrow> time \<Rightarrow> observer \<Rightarrow> bool" where
  "opened_by_peer t got now ob \<longleftrightarrow> ob_udpOut ob t = None
     \<and> (now - got < replyWindow \<longrightarrow> ob_udpIn ob t = Some got)"

lemma packet_out_tables:
  "ob_udpOut (snd (packet_out p now ob)) =
     (if routable (pk_Dst p) \<and> IsUDP p
         \<and> stale (ob_udpIn ob) \<lparr>ut_peer = pk_Dst p, ut_peerPort = pk_DstPort p, ut_local = pk_SrcPort p\<rparr> now
      then (ob_udpOut ob)(\<lparr>ut_peer = pk_Dst p, ut_peerPort = pk_DstPort p, ut_local = pk_SrcPort p\<rparr> \<mapsto> now)
      else ob_udpOut ob)"
  using UDP_not_TCP[of p] by (auto simp: packet_out_def routable_def Let_def split: option.splits)

lemma packet_in_tables:
  "packet_in P p now ob = Inr ob' \<Longrightarrow> ob_udpIn ob' =
     (if IsUDP p \<and> stale (ob_udpOut ob) \<lparr>ut_peer = pk_Src p, ut_peerPort = pk_SrcPort p, ut_local = pk_DstPort p\<rparr> now
      then (ob_udpIn ob)(\<lparr>ut_peer = pk_Src p, ut_peerPort = pk_SrcPort p, ut_local = pk_DstPort p\<rparr> \<mapsto> now)
      else ob_udpIn ob)"
  by (auto simp: packet_in_def Let_def split: option.splits if_splits)

lemma obs_record_keeps_tables:
  "obs_record ip port proto origin now ob = Inr (ob', ev) \<Longrightarrow>
     ob_udpIn ob' = ob_udpIn ob \<and> ob_udpOut ob' = ob_udpOut ob"
proof -
  assume a: "obs_record ip port proto origin now ob = Inr (ob', ev)"
  then have "ob' = ob'\<lparr>ob_udpIn := ob_udpIn ob, ob_udpOut := ob_udpOut ob\<rparr>"
    using obs_record_tables[where x = "ob_udpIn ob" and y = "ob_udpOut ob" and ob = ob
        and ip = ip and port = port and proto = proto and origin = origin and now = now]
    by simp
  from arg_cong[OF this, of ob_udpIn] arg_cong[OF this, of ob_udpOut] show ?thesis by simp
qed

text \<open>What one packet does to the two reply tables.\<close>

lemma obs_Packet_tables:
  assumes "obs_Packet P own p outgoing now ob = Inr (ob', ev)"
  shows "ob_udpOut ob' = (if outgoing then ob_udpOut (snd (packet_out p now ob)) else ob_udpOut ob)"
    "outgoing \<Longrightarrow> ob_udpIn ob' = ob_udpIn ob"
    "\<not> outgoing \<Longrightarrow> packet_in P p now ob = Inr ob'"
proof -
  obtain pr ob1 where po: "packet_out p now ob = (pr, ob1)" by (cases "packet_out p now ob")
  have k: "ob_udpIn ob1 = ob_udpIn ob" using packet_out_keeps[OF po] by simp
  show "\<not> outgoing \<Longrightarrow> packet_in P p now ob = Inr ob'"
    using assms by (auto simp: obs_Packet_def split: sum.splits)
  then show "ob_udpOut ob' = (if outgoing then ob_udpOut (snd (packet_out p now ob)) else ob_udpOut ob)"
    using assms po packet_in_keeps[of P p now ob ob'] obs_record_keeps_tables
    by (auto simp: obs_Packet_def split: sum.splits option.splits)
  show "outgoing \<Longrightarrow> ob_udpIn ob' = ob_udpIn ob"
    using assms po k obs_record_keeps_tables by (auto simp: obs_Packet_def split: sum.splits option.splits)
qed

lemma sweep_table_None [simp]: "m t = None \<Longrightarrow> sweep_table s m t = None"
  by (simp add: sweep_table_def)

lemma sweep_table_fresh: "m t = Some at \<Longrightarrow> s - at \<le> replyWindow \<Longrightarrow> sweep_table s m t = Some at"
  by (simp add: sweep_table_def)

fun sends_step :: "udp_tuple \<Rightarrow> obs_op \<Rightarrow> bool" where
  "sends_step t (ObPacket p outgoing now) = (outgoing \<and> sends_on t p)"
| "sends_step t _ = False"

fun receives_step :: "udp_tuple \<Rightarrow> obs_op \<Rightarrow> bool" where
  "receives_step t (ObPacket p outgoing now) = (\<not> outgoing \<and> receives_on t p)"
| "receives_step t _ = False"

lemma opened_by_us_step:
  assumes "opened_by_us t sent s ob" and "s \<le> op_time x" and "answered t sent (x # xs)"
    and "routable (ut_peer t)" and "obs_step P own x ob = Inr ob'"
  shows "opened_by_us t (if sends_step t x then op_time x else sent) (op_time x) ob'
    \<and> answered t (if sends_step t x then op_time x else sent) xs"
proof (cases x)
  case (ObPacket p outgoing now)
  then obtain ev where pk: "obs_Packet P own p outgoing now ob = Inr (ob', ev)"
    using assms(5) by (auto split: sum.splits)
  note tb = obs_Packet_tables[OF pk]
  show ?thesis
  proof (cases outgoing)
    case True
    then show ?thesis
      using ObPacket assms tb
      by (auto simp: opened_by_us_def packet_out_tables sends_on_def stale_def split: if_splits)
  next
    case False
    then show ?thesis
      using ObPacket assms tb(1) packet_in_tables[OF tb(3)]
      by (auto simp: opened_by_us_def receives_on_def stale_def)
  qed
next
  case (ObSweep now)
  then show ?thesis
    using assms by (auto simp: opened_by_us_def obs_Sweep_def sweep_table_fresh)
next
  case (ObPurge now)
  then show ?thesis using assms by (auto simp: opened_by_us_def)
qed

lemma opened_by_peer_step:
  assumes "opened_by_peer t got s ob" and "s \<le> op_time x" and "prompt t got (x # xs)"
    and "obs_step P own x ob = Inr ob'"
  shows "opened_by_peer t (if receives_step t x then op_time x else got) (op_time x) ob'
    \<and> prompt t (if receives_step t x then op_time x else got) xs"
proof (cases x)
  case (ObPacket p outgoing now)
  then obtain ev where pk: "obs_Packet P own p outgoing now ob = Inr (ob', ev)"
    using assms(4) by (auto split: sum.splits)
  note tb = obs_Packet_tables[OF pk]
  show ?thesis
  proof (cases outgoing)
    case True
    then show ?thesis
      using ObPacket assms tb
      by (auto simp: opened_by_peer_def packet_out_tables sends_on_def stale_def split: if_splits)
  next
    case False
    then show ?thesis
      using ObPacket assms tb(1) packet_in_tables[OF tb(3)]
      by (auto simp: opened_by_peer_def receives_on_def stale_def)
  qed
next
  case (ObSweep now)
  then show ?thesis
    using assms by (auto simp: opened_by_peer_def obs_Sweep_def sweep_table_fresh)
next
  case (ObPurge now)
  then show ?thesis using assms by (auto simp: opened_by_peer_def)
qed

lemma sends_flow:
  assumes "sends_on t p" and "routable (ut_peer t)"
  shows "step_flow own (ObPacket p True now) ob \<noteq> [] \<longleftrightarrow>
    (case ob_udpIn ob t of None \<Rightarrow> True | Some at \<Rightarrow> replyWindow \<le> now - at)"
  using assms UDP_not_TCP[of p]
  by (auto simp: sends_on_def routable_def packet_out_def Let_def split: option.splits)

lemma opened_by_us_run:
  assumes "opened_by_us t sent s ob" and "sorted (s # map op_time (pre @ post))"
    and "answered t sent (pre @ post)" and "routable (ut_peer t)"
    and "fold_res (obs_step P own) pre ob = Inr ob'"
  shows "ob_udpIn ob' t = None"
  using assms
proof (induction pre arbitrary: sent s ob)
  case (Cons x pre)
  obtain ob1 where x: "obs_step P own x ob = Inr ob1" "fold_res (obs_step P own) pre ob1 = Inr ob'"
    using Cons.prems(5) by (auto split: sum.splits)
  have "opened_by_us t (if sends_step t x then op_time x else sent) (op_time x) ob1
    \<and> answered t (if sends_step t x then op_time x else sent) (pre @ post)"
    by (rule opened_by_us_step[OF Cons.prems(1) _ _ Cons.prems(4) x(1)]) (use Cons.prems in auto)
  then show ?case using Cons.IH[OF _ _ _ Cons.prems(4) x(2)] Cons.prems(2) by auto
qed (simp add: opened_by_us_def)

lemma opened_by_peer_run:
  assumes "opened_by_peer t got s ob" and "sorted (s # map op_time (pre @ x # post))"
    and "prompt t got (pre @ x # post)" and "sends_step t x"
    and "fold_res (obs_step P own) pre ob = Inr ob'"
  shows "\<exists>at. ob_udpIn ob' t = Some at \<and> op_time x - at < replyWindow"
  using assms
proof (induction pre arbitrary: got s ob)
  case Nil
  then show ?case by (cases x) (auto simp: opened_by_peer_def)
next
  case (Cons y pre)
  obtain ob1 where y: "obs_step P own y ob = Inr ob1" "fold_res (obs_step P own) pre ob1 = Inr ob'"
    using Cons.prems(5) by (auto split: sum.splits)
  have "opened_by_peer t (if receives_step t y then op_time y else got) (op_time y) ob1
    \<and> prompt t (if receives_step t y then op_time y else got) (pre @ x # post)"
    by (rule opened_by_peer_step[OF Cons.prems(1) _ _ y(1)]) (use Cons.prems in auto)
  then show ?case using Cons.IH[OF _ _ _ Cons.prems(4) y(2)] Cons.prems(2) by auto
qed


section \<open>Calls of OnNew\<close>

fun step_new :: "('e, 'p) dns_parser \<Rightarrow> owner \<Rightarrow> obs_op \<Rightarrow> observer \<Rightarrow> learn_entry list" where
  "step_new P own (ObPacket p outgoing now) ob =
     (case obs_Packet P own p outgoing now ob of Inr (_, Some e) \<Rightarrow> [e] | _ \<Rightarrow> [])"
| "step_new P own _ ob = []"

fun run_new :: "('e, 'p) dns_parser \<Rightarrow> owner \<Rightarrow> obs_op list \<Rightarrow> observer \<Rightarrow> learn_entry list" where
  "run_new P own [] ob = []"
| "run_new P own (x # xs) ob =
     step_new P own x ob @ (case obs_step P own x ob of Inl _ \<Rightarrow> [] | Inr ob' \<Rightarrow> run_new P own xs ob')"

lemma key_of_log_entry: "log_entry L k = Some e \<Longrightarrow> key_of e = k"
  by (auto simp: log_entry_def key_of_def Let_def split: if_splits)

lemma step_new_keys:
  assumes "summarises L ob"
  shows "map key_of (step_new P own x ob) = filter (\<lambda>k. k \<notin> fr_key ` set L) (map fr_key (step_flow own x ob))"
proof (cases x)
  case (ObPacket p outgoing now)
  obtain pr ob1 where po: "packet_out p now ob = (pr, ob1)" by (cases "packet_out p now ob")
  from packet_out_keeps[OF po] assms have s1: "summarises L ob1" and d: "ob_DNS ob1 = ob_DNS ob"
    by (simp_all add: summarises_def)
  show ?thesis
  proof (cases "outgoing \<and> pr \<noteq> None")
    case False
    then show ?thesis
      using ObPacket po by (cases outgoing) (auto simp: obs_Packet_def split: sum.splits)
  next
    case True
    then obtain proto where pr: "pr = Some proto" by auto
    define r where "r = flow_rec_of (ob_DNS ob1) (Unmap (pk_Dst p)) (pk_DstPort p) proto (origin_of own p proto) now"
    obtain ob' ev where o: "obs_record (Unmap (pk_Dst p)) (pk_DstPort p) proto (origin_of own p proto) now ob1 = Inr (ob', ev)"
      "ev = (if flows_to (fr_key r) L = [] then log_entry (L @ [r]) (fr_key r) else None)"
      using obs_record_summarises[OF s1] unfolding r_def by blast
    have f: "step_flow own x ob = [r]" using True ObPacket po pr d by (simp add: r_def)
    show ?thesis
    proof (cases "flows_to (fr_key r) L = []")
      case False
      then show ?thesis
        using True ObPacket po pr o f flows_to_Nil_iff[of "fr_key r" L] by (auto simp: obs_Packet_def)
    next
      case new: True
      then obtain e where "log_entry (L @ [r]) (fr_key r) = Some e"
        by (auto simp: log_entry_def flows_to_snoc Let_def)
      then show ?thesis
        using new True ObPacket po pr o f flows_to_Nil_iff[of "fr_key r" L] key_of_log_entry
        by (auto simp: obs_Packet_def)
    qed
  qed
qed simp_all

lemma step_flow_single: "length (step_flow own x ob) \<le> 1"
  by (cases "(own, x, ob)" rule: step_flow.cases) (auto split: option.splits)

lemma run_new_keys:
  "summarises L ob \<Longrightarrow>
     distinct (map key_of (run_new P own xs ob))
     \<and> set (map key_of (run_new P own xs ob)) = fr_key ` set (run_log P own xs ob) - fr_key ` set L"
proof (induction xs arbitrary: L ob)
  case (Cons x xs)
  note sk = step_new_keys[OF Cons.prems, of P own x]
  have d: "distinct (map key_of (step_new P own x ob))"
    using step_flow_single[of own x ob] unfolding sk by (cases "step_flow own x ob") auto
  have s: "set (map key_of (step_new P own x ob)) = fr_key ` set (step_flow own x ob) - fr_key ` set L"
    unfolding sk by auto
  show ?case
  proof (cases "obs_step P own x ob")
    case (Inl e)
    then show ?thesis using d s by simp
  next
    case (Inr ob1)
    then have "summarises (L @ step_flow own x ob) ob1"
      using step_summarises[OF Cons.prems, where P = P and own = own and x = x] by simp
    from Cons.IH[OF this] Inr d s show ?thesis by auto
  qed
qed simp

text \<open>A packet to 5.6.7.8, its answer and the destination it makes.\<close>

definition example_out :: packet where
  "example_out =
     \<lparr>pk_Src = Addr4 0x0a000002, pk_Dst = Addr4 0x05060708, pk_Proto = ProtoUDP, pk_SrcPort = 5000,
      pk_DstPort = 443, pk_SYN = False, pk_ACK = False, pk_Payload = []\<rparr>"

definition example_back :: packet where
  "example_back =
     \<lparr>pk_Src = Addr4 0x05060708, pk_Dst = Addr4 0x0a000002, pk_Proto = ProtoUDP, pk_SrcPort = 443,
      pk_DstPort = 5000, pk_SYN = False, pk_ACK = False, pk_Payload = []\<rparr>"

definition example_tuple :: udp_tuple where
  "example_tuple = \<lparr>ut_peer = Addr4 0x05060708, ut_peerPort = 443, ut_local = 5000\<rparr>"

lemma example_routable: "routable (ut_peer example_tuple)"
  by code_simp

lemma example_packets: "sends_on example_tuple example_out" "receives_on example_tuple example_back"
  by code_simp+

lemma example_packet_in:
  "fold_res (obs_step P own) [ObPacket example_back False s] (NewObserver dns) =
     Inr ((NewObserver dns)\<lparr>ob_udpIn := [example_tuple \<mapsto> s]\<rparr>)"
  by (simp add: obs_Packet_def packet_in_def IsUDP_def example_back_def NewObserver_def stale_def
      example_tuple_def)

lemma example_packet_out:
  "case fold_res (obs_step P own) [ObPacket example_out True s] (NewObserver dns) of
     Inl _ \<Rightarrow> False
   | Inr ob \<Rightarrow> dom (ob_entries ob) = fr_key ` set (step_flow own (ObPacket example_out True s) (NewObserver dns))"
proof -
  have "fold_res (obs_step P own) [ObPacket example_out True s] (NewObserver dns) \<noteq> Inl e" for e
  proof
    assume a: "fold_res (obs_step P own) [ObPacket example_out True s] (NewObserver dns) = Inl e"
    obtain pr ob1 where po: "packet_out example_out s (NewObserver dns) = (pr, ob1)"
      by (cases "packet_out example_out s (NewObserver dns)")
    with packet_out_keeps[OF po] NewObserver_summarises[of dns] have "summarises [] ob1"
      by (simp add: summarises_def)
    note r = obs_record_summarises[OF this, of "Unmap (pk_Dst example_out)" "pk_DstPort example_out" _ _ s]
    show False
    proof (cases pr)
      case None
      then show False using a po by (simp add: obs_Packet_def)
    next
      case (Some proto)
      then show False
        using a po r[of proto "origin_of own example_out proto"] by (auto simp: obs_Packet_def)
    qed
  qed
  then obtain ob where ob: "fold_res (obs_step P own) [ObPacket example_out True s] (NewObserver dns) = Inr ob"
    by (cases "fold_res (obs_step P own) [ObPacket example_out True s] (NewObserver dns)") auto
  then show ?thesis
    using summarises_dom[OF run_summarises_Inr[OF ob]] by (auto split: sum.splits)
qed

section \<open>Properties\<close>

text \<open>
  C12: the observer is a summary of the flows: after any sequence of packets, sweeps and purges
  its entries hold, for every destination, the first and last time, the number of flows, the
  addresses and the count per cgroup of exactly the flows that were seen going there; the only
  way to fail is a DNS frame that the parser does not return from, in particular no write hits a
  missing map.
\<close>

theorem observer_is_summary:
  "case fold_res (obs_step P own) xs (NewObserver dns) of
     Inl e \<Rightarrow> e = DnsDiverges
   | Inr ob \<Rightarrow> ob_entries ob = log_entry (run_log P own xs (NewObserver dns))
       \<and> ob_ips ob = log_ips (run_log P own xs (NewObserver dns))
       \<and> ob_origins ob = log_origins (run_log P own xs (NewObserver dns))"
  using run_summarises[OF NewObserver_summarises[of dns], of P own xs]
  by (cases "fold_res (obs_step P own) xs (NewObserver dns)") (simp_all add: summarises_def)

text \<open>
  \<open>OnNew\<close> fires once per destination, for every destination a flow went to.
\<close>

theorem OnNew_once:
  "distinct (map key_of (run_new P own xs (NewObserver dns)))
   \<and> set (map key_of (run_new P own xs (NewObserver dns))) = fr_key ` set (run_log P own xs (NewObserver dns))"
  using run_new_keys[OF NewObserver_summarises[of dns], of P own xs] by simp

text \<open>
  C28: \<open>Entries\<close> lists every destination once, strictly increasing in the order of its less function,
  whatever order the map is visited in; the addresses of an entry are sorted and its origins add
  up to its hits.
\<close>

theorem Entries_spec:
  assumes "fold_res (obs_step P own) xs (NewObserver dns) = Inr ob"
    and "distinct ks" and "set ks = dom (ob_entries ob)"
  shows "sorted_wrt entry_less (obs_Entries ks ob)
    \<and> mset (map key_of (obs_Entries ks ob)) = mset_set (fr_key ` set (run_log P own xs (NewObserver dns)))
    \<and> (\<forall>e \<in> set (obs_Entries ks ob).
         e = log_view (run_log P own xs (NewObserver dns)) (key_of e)
         \<and> sorted (le_IPs e) \<and> distinct (le_IPs e)
         \<and> le_Hits e = (\<Sum>cg \<in> dom (le_Origins e). the (le_Origins e cg)))
    \<and> (\<forall>ks'. distinct ks' \<longrightarrow> set ks' = set ks \<longrightarrow> obs_Entries ks' ob = obs_Entries ks ob)"
proof -
  let ?L = "run_log P own xs (NewObserver dns)"
  note s = run_summarises_Inr[OF assms(1)]
  note E = Entries_of_log[OF s assms(3,2)]
  have "mset (map key_of (obs_Entries ks ob)) = image_mset key_of (mset (map (log_view ?L) ks))"
    by (simp only: mset_map E(3))
  also have "\<dots> = mset_set (fr_key ` set ?L)"
    using assms(2,3) summarises_dom[OF s] by (simp add: multiset.map_comp comp_def mset_set_set[symmetric])
  finally have m: "mset (map key_of (obs_Entries ks ob)) = mset_set (fr_key ` set ?L)" .
  have v: "e = log_view ?L (key_of e) \<and> sorted (le_IPs e) \<and> distinct (le_IPs e)
      \<and> le_Hits e = (\<Sum>cg \<in> dom (le_Origins e). the (le_Origins e cg))" if e: "e \<in> set (obs_Entries ks ob)" for e
  proof -
    obtain k where "e = log_view ?L k" using e mset_eq_setD[OF E(3)] by auto
    then have "e = log_view ?L (key_of e)" by simp
    moreover from \<open>e = log_view ?L k\<close> have "le_IPs e = sorted_list_of_set (fr_ip ` set (flows_to k ?L))"
      "le_Hits e = int (length (flows_to k ?L))" "le_Origins e = origin_count (flows_to k ?L)"
      by (simp_all add: log_view_def Let_def)
    ultimately show ?thesis using origin_count_total[of "flows_to k ?L"] by simp
  qed
  have u: "obs_Entries ks' ob = obs_Entries ks ob" if "distinct ks'" "set ks' = set ks" for ks'
  proof -
    have "mset ks' = mset ks" using that assms(2) set_eq_iff_mset_eq_distinct by blast
    then have "mset (map (log_view ?L) ks) = mset (map (log_view ?L) ks')" by simp
    moreover have "inj_on entry_key (set (map (log_view ?L) ks))"
      using entry_key_view_inj by (auto simp: inj_on_def)
    ultimately have "sort_key entry_key (map (log_view ?L) ks) = sort_key entry_key (map (log_view ?L) ks')"
      by (metis sort_key_inj_key_eq mset_sort sorted_sort_key)
    then show ?thesis
      using E(1) Entries_of_log(1)[OF s _ that(1)] that(2) assms(3) by simp
  qed
  show ?thesis using E(2) m v u by blast
qed

text \<open>
  C29: \<open>Sweep\<close> only forgets what no longer matters: from its time on, an observer that was swept and
  one that was not behave alike, in what they record and what they know of names.
\<close>

theorem Sweep_invisible:
  assumes "\<forall>x \<in> set xs. now \<le> op_time x"
  shows "rel_sum (=) (\<lambda>a b. ob_entries a = ob_entries b \<and> ob_ips a = ob_ips b
      \<and> ob_origins a = ob_origins b \<and> ob_DNS a = ob_DNS b)
    (fold_res (obs_step P own) xs (obs_Sweep now ob)) (fold_res (obs_step P own) xs ob)"
proof -
  have "rel_sum (=) (same_view now) (fold_res (obs_step P own) xs (obs_Sweep now ob)) (fold_res (obs_step P own) xs ob)"
    by (rule run_same[OF sweep_same_view assms])
  then show ?thesis by (rule sum.rel_mono_strong) (simp_all add: same_view_def)
qed

text \<open>
  C30: a UDP conversation that we opened counts: as long as the peer answers within the window,
  every packet we send on it is a flow, whatever else happens in between.
\<close>

theorem initiator_counts:
  assumes "ob_udpIn ob t = None" and "routable (ut_peer t)" and "sends_on t p0"
    and "xs = ObPacket p0 True t0 # rest" and "sorted (map op_time xs)" and "answered t t0 rest"
    and "xs = pre @ ObPacket p True now # post" and "sends_on t p"
    and "fold_res (obs_step P own) pre ob = Inr ob'"
  shows "step_flow own (ObPacket p True now) ob' \<noteq> []"
proof -
  have "opened_by_us t (t0 - replyWindow - 1) t0 ob" using assms(1) by (simp add: opened_by_us_def)
  moreover have "sorted (t0 # map op_time (pre @ ObPacket p True now # post))"
    using assms(4,5) unfolding assms(7)[symmetric] by simp
  moreover have "answered t (t0 - replyWindow - 1) (pre @ ObPacket p True now # post)"
    using assms(3,6) unfolding assms(7)[symmetric] assms(4) by simp
  ultimately have "ob_udpIn ob' t = None" by (rule opened_by_us_run[OF _ _ _ assms(2,9)])
  then show ?thesis using sends_flow[OF assms(8,2)] by simp
qed

text \<open>
  C31: a UDP conversation that the peer opened is not ours: as long as we answer within the window,
  none of our replies is taken for a flow.
\<close>

theorem replies_are_silent:
  assumes "ob_udpOut ob t = None" and "receives_on t p0"
    and "xs = ObPacket p0 False t0 # rest" and "sorted (map op_time xs)" and "prompt t t0 rest"
    and "xs = pre @ ObPacket p True now # post" and "sends_on t p" and "routable (ut_peer t)"
    and "fold_res (obs_step P own) pre ob = Inr ob'"
  shows "step_flow own (ObPacket p True now) ob' = []"
proof -
  have "opened_by_peer t (t0 - replyWindow) t0 ob" using assms(1) by (simp add: opened_by_peer_def)
  moreover have "sorted (t0 # map op_time (pre @ ObPacket p True now # post))"
    using assms(3,4) unfolding assms(6)[symmetric] by simp
  moreover have "prompt t (t0 - replyWindow) (pre @ ObPacket p True now # post)"
    using assms(2,5) unfolding assms(6)[symmetric] assms(3) by simp
  moreover have "sends_step t (ObPacket p True now)" using assms(7) by simp
  ultimately obtain at where "ob_udpIn ob' t = Some at" "now - at < replyWindow"
    using opened_by_peer_run[OF _ _ _ _ assms(9)] by fastforce
  then show ?thesis using sends_flow[OF assms(7,8), of own now ob'] by auto
qed


lemma Entries_spec_witness:
  "\<exists>ob ks. fold_res (obs_step (list_parser ''a.io'' []) None) [ObPacket example_out True 7]
      (NewObserver (cache_New 0)) = Inr ob \<and> length ks = 1 \<and> sorted_wrt entry_less (obs_Entries ks ob)"
proof -
  let ?xs = "[ObPacket example_out True 7]" and ?P = "list_parser ''a.io'' [] :: (unit, _) dns_parser"
  let ?fs = "step_flow None (ObPacket example_out True 7) (NewObserver (cache_New 0))"
  obtain ob where ob: "fold_res (obs_step ?P None) ?xs (NewObserver (cache_New 0)) = Inr ob"
      "dom (ob_entries ob) = fr_key ` set ?fs"
    using example_packet_out[where P = ?P and own = None and s = 7 and dns = "cache_New 0"]
    by (cases "fold_res (obs_step ?P None) ?xs (NewObserver (cache_New 0))") auto
  have "?fs \<noteq> []"
    using sends_flow[OF example_packets(1) example_routable] by (simp add: NewObserver_def)
  then have "length ?fs = 1"
    using step_flow_single[of None "ObPacket example_out True 7" "NewObserver (cache_New 0)"]
    by (cases ?fs) simp_all
  then obtain r where r: "?fs = [r]" by (auto simp: length_Suc_conv)
  have "sorted_wrt entry_less (obs_Entries [fr_key r] ob)"
    by (rule Entries_spec[OF ob(1), THEN conjunct1]) (simp_all only: ob(2) r, simp_all)
  then show ?thesis using ob(1) by (intro exI[of _ ob] exI[of _ "[fr_key r]"]) simp
qed

lemma Sweep_invisible_witness:
  "rel_sum (=) (\<lambda>a b. ob_entries a = ob_entries b \<and> ob_ips a = ob_ips b
      \<and> ob_origins a = ob_origins b \<and> ob_DNS a = ob_DNS b)
    (fold_res (obs_step (list_parser ''a.io'' [] :: (unit, _) dns_parser) None) [ObPacket example_out True (3 * Minute)]
       (obs_Sweep (2 * Minute) ((NewObserver (cache_New 0))\<lparr>ob_udpIn := [example_tuple \<mapsto> 5]\<rparr>)))
    (fold_res (obs_step (list_parser ''a.io'' []) None) [ObPacket example_out True (3 * Minute)]
       ((NewObserver (cache_New 0))\<lparr>ob_udpIn := [example_tuple \<mapsto> 5]\<rparr>))"
  by (rule Sweep_invisible) (simp add: Minute_def Second_def)

lemma initiator_counts_witness:
  "step_flow None (ObPacket example_out True 0) (NewObserver (cache_New 0)) \<noteq> []"
  by (rule initiator_counts[where t = example_tuple and pre = "[]" and post = "[ObPacket example_back False 20]"
        and xs = "[ObPacket example_out True 0, ObPacket example_back False 20]" and ob = "NewObserver (cache_New 0)"
        and rest = "[ObPacket example_back False 20]" and ?p0.0 = example_out and ?t0.0 = 0
        and P = "list_parser ''a.io'' [] :: (unit, _) dns_parser"])
     (use example_routable example_packets in \<open>simp_all add: NewObserver_def replyWindow_def Minute_def Second_def\<close>)

lemma replies_are_silent_witness:
  "step_flow None (ObPacket example_out True 20) ((NewObserver (cache_New 0))\<lparr>ob_udpIn := [example_tuple \<mapsto> 0]\<rparr>) = []"
  by (rule replies_are_silent[OF _ example_packets(2) _ _ _ _ example_packets(1) example_routable
        example_packet_in[where P = "list_parser ''a.io'' [] :: (unit, _) dns_parser"],
        where xs = "[ObPacket example_back False 0, ObPacket example_out True 20]" and post = "[]"
        and rest = "[ObPacket example_out True 20]" and ?t0.0 = 0])
     (simp_all add: NewObserver_def replyWindow_def Minute_def Second_def)

end
