(* ===== verification/Learn_Write.thy ===== *)
theory Learn_Write
  imports Learn Nft_Plan
begin

text \<open>
  \<^verbatim>\<open>internal/learn/write.go\<close>: the policy file written from what an observer saw. The YAML decoder
  and the writer are arguments, and so is \<open>ord\<close>, the order in which an iteration visits a map.
\<close>

section \<open>Dates and durations\<close>

text \<open>Year, month and day of a day counted from 1970-01-01, in the proleptic Gregorian calendar.\<close>

definition civil :: "int \<Rightarrow> int \<times> int \<times> int" where
  "civil day =
     (let z = day + 719468; era = z div 146097; doe = z mod 146097;
          yoe = (doe - doe div 1460 + doe div 36524 - doe div 146096) div 365;
          doy = doe - (365 * yoe + yoe div 4 - yoe div 100);
          mp = (5 * doy + 2) div 153; d = doy - (153 * mp + 2) div 5 + 1;
          m = (if mp < 10 then mp + 3 else mp - 9) in
      (yoe + era * 400 + (if m \<le> 2 then 1 else 0), m, d))"

definition pad :: "nat \<Rightarrow> int \<Rightarrow> string" where
  "pad w i = (let s = itoa (nat i) in replicate (w - length s) (CHR ''0'') @ s)"

text \<open>
  \<^verbatim>\<open>t.UTC().Format\<close> with the layouts \<^verbatim>\<open>01-02 15:04\<close> and \<^verbatim>\<open>2006-01-02 15:04 UTC\<close>, for years from 0 to 9999.
\<close>

definition month_minute :: "time \<Rightarrow> string" where
  "month_minute t =
     (let s = t div Second; (y, m, d) = civil (s div 86400); r = s mod 86400 in
      pad 2 m @ ''-'' @ pad 2 d @ '' '' @ pad 2 (r div 3600) @ '':'' @ pad 2 (r mod 3600 div 60))"

definition date_minute :: "time \<Rightarrow> string" where
  "date_minute t = (let (y, m, d) = civil (t div Second div 86400) in
     pad 4 y @ ''-'' @ month_minute t @ '' UTC'')"

text \<open>\<^verbatim>\<open>d.Round(time.Second)\<close>, half a second away from zero, and its text.\<close>

definition round_second :: "duration \<Rightarrow> duration" where
  "round_second d = sgn d * ((\<bar>d\<bar> + Second div 2) div Second * Second)"

definition seconds_text :: "duration \<Rightarrow> string" where
  "seconds_text d =
     (let s = \<bar>d\<bar> div Second; h = s div 3600; m = s mod 3600 div 60 in
      (if d < 0 then ''-'' else [])
      @ (if h \<noteq> 0 then int_string h @ ''h'' else [])
      @ (if h \<noteq> 0 \<or> m \<noteq> 0 then int_string m @ ''m'' else [])
      @ int_string (s mod 60) @ ''s'')"

section \<open>Merging the entries of a host\<close>

definition metadataIP :: addr where "metadataIP = Addr4 0xa9fea9fe"

record host_rule =
  hr_host :: string
  hr_domain :: bool
  hr_ports :: "u16 list"
  hr_protos :: "string set"
  hr_first :: time
  hr_last :: time
  hr_hits :: int
  hr_from :: "string \<Rightarrow> int option"

definition is_metadata :: "learn_entry \<Rightarrow> bool" where
  "is_metadata e \<longleftrightarrow> \<not> le_Domain e \<and> le_Host e = Addr_String metadataIP"

definition fresh_rule :: "learn_entry \<Rightarrow> host_rule" where
  "fresh_rule e =
     \<lparr>hr_host = le_Host e, hr_domain = le_Domain e, hr_ports = [], hr_protos = {},
      hr_first = le_First e, hr_last = zero_time, hr_hits = 0, hr_from = (\<lambda>_. None)\<rparr>"

definition merge_entry :: "learn_entry \<Rightarrow> host_rule \<Rightarrow> host_rule" where
  "merge_entry e r =
     r\<lparr>hr_ports := hr_ports r @ [le_Port e],
       hr_protos := insert (le_Proto e) (hr_protos r),
       hr_hits := hr_hits r + le_Hits e,
       hr_from := (\<lambda>cg. case le_Origins e cg of
          None \<Rightarrow> hr_from r cg
        | Some n \<Rightarrow> Some ((case hr_from r cg of None \<Rightarrow> 0 | Some m \<Rightarrow> m) + n)),
       hr_first := (if le_First e < hr_first r then le_First e else hr_first r),
       hr_last := (if hr_last r < le_Last e then le_Last e else hr_last r)\<rparr>"

text \<open>
  One turn of the loop: the rules, the map \<^verbatim>\<open>byHost\<close> being the host each of them has, and the
  hits on the metadata address.
\<close>

definition group_entry :: "learn_entry \<Rightarrow> host_rule list \<times> int \<Rightarrow> host_rule list \<times> int" where
  "group_entry e st =
     (let (rules, meta) = st in
      if is_metadata e then (rules, meta + le_Hits e)
      else if list_ex (\<lambda>r. hr_host r = le_Host e) rules then
        (map (\<lambda>r. if hr_host r = le_Host e then merge_entry e r else r) rules, meta)
      else (rules @ [merge_entry e (fresh_rule e)], meta))"

definition group_entries :: "learn_entry list \<Rightarrow> host_rule list \<times> int" where
  "group_entries es = fold group_entry es ([], 0)"

section \<open>The text\<close>

text \<open>The ports that survive the loop of \<^verbatim>\<open>portList\<close>: the first occurrence of each.\<close>

definition new_ports :: "u16 list \<Rightarrow> u16 list" where
  "new_ports ps = foldl (\<lambda>out p. if p \<in> set out then out else out @ [p]) [] ps"

definition portList :: "u16 list \<Rightarrow> string" where
  "portList ps = str_Join (map (\<lambda>p. Quote (itoa (unat p))) (new_ports ps)) '', ''"

definition origin_key :: "string \<times> int \<Rightarrow> int \<times> bool \<times> string" where
  "origin_key = (\<lambda>(cg, n). (- n, cg = [], cg))"

definition originsText :: "((string \<Rightarrow> int option) \<Rightarrow> string list) \<Rightarrow> (string \<Rightarrow> int option) \<Rightarrow> string" where
  "originsText ord from =
     str_Join
       (map (\<lambda>(cg, n). (if cg = [] then ''unknown process'' else cg) @ '' ('' @ int_string n @ '')'')
         (sort_key origin_key (map (\<lambda>cg. (cg, the (from cg))) (ord from))))
       '', ''"

definition NL :: string where "NL = [CHR 0x0A]"
definition DQ :: string where "DQ = [CHR 0x22]"

definition rule_comment :: "((string \<Rightarrow> int option) \<Rightarrow> string list) \<Rightarrow> host_rule \<Rightarrow> string" where
  "rule_comment ord r =
     (let c = ''first '' @ month_minute (hr_first r) @ '', last '' @ month_minute (hr_last r)
              @ '', '' @ int_string (hr_hits r) @ '' hits'';
          c = (if hr_domain r then c else ''no dns name seen for this address; '' @ c);
          from = originsText ord (hr_from r) in
      if from \<noteq> [] then c @ ''; from '' @ from else c)"

definition rule_text :: "((string \<Rightarrow> int option) \<Rightarrow> string list) \<Rightarrow> host_rule \<Rightarrow> string" where
  "rule_text ord r =
     ''  - name: '' @ Quote (hr_host r) @ NL
     @ (if hr_domain r then ''    domains: ['' else ''    cidrs: ['') @ Quote (hr_host r) @ '']'' @ NL
     @ ''    ports: ['' @ portList (hr_ports r) @ '']'' @ NL
     @ (if card (hr_protos r) = 1 then ''    proto: '' @ the_elem (hr_protos r) @ NL else [])
     @ ''    comment: '' @ Quote (rule_comment ord r) @ NL"

definition metadata_comment :: "int \<Rightarrow> string" where
  "metadata_comment hits =
     (if 0 < hits then
        ''seen '' @ int_string hits
        @ '' times during learn; denied anyway, drop this rule only if the host truly needs IMDS''
      else ''never seen during learn, which is how it should stay'')"

definition policy_text ::
  "((string \<Rightarrow> int option) \<Rightarrow> string list) \<Rightarrow> learn_entry list \<Rightarrow> time \<Rightarrow> time \<Rightarrow> string" where
  "policy_text ord es started now =
     (let (rules, meta) = group_entries es in
      ''# written by egresswall learn on '' @ date_minute now @ '' after ''
        @ seconds_text (round_second (now - started)) @ '' of traffic'' @ NL
      @ ''# every rule below is something this host actually did; review, then enforce'' @ NL
      @ ''version: 1'' @ NL @ ''default: deny'' @ NL @ NL
      @ ''deny:'' @ NL @ ''  - name: cloud-metadata'' @ NL
      @ ''    comment: '' @ DQ @ metadata_comment meta @ DQ @ NL
      @ ''    cidrs: ['' @ DQ @ ''169.254.169.254'' @ DQ @ '']'' @ NL @ NL
      @ ''allow:'' @ NL
      @ (if rules = [] then ''  []'' @ NL else [])
      @ concat (map (rule_text ord) rules))"

text \<open>
  \<^verbatim>\<open>WritePolicy\<close>: \<open>write\<close> is the writer on its state \<open>'w\<close>, which may fail.
\<close>

datatype ('y, 'e) write_error = RenderedDoesNotLoad "'y + compile_error" | WriteFailed 'e

definition WritePolicy ::
  "(string \<Rightarrow> 'y + policy) \<Rightarrow> (string \<Rightarrow> 'w \<Rightarrow> 'e option \<times> 'w) \<Rightarrow>
   ((string \<Rightarrow> int option) \<Rightarrow> string list) \<Rightarrow> learn_entry list \<Rightarrow> time \<Rightarrow> time \<Rightarrow> 'w \<Rightarrow>
     ('y, 'e) write_error option \<times> 'w" where
  "WritePolicy yaml write ord es started now w =
     (let b = policy_text ord es started now in
      case policy_Parse yaml b of
        Inl e \<Rightarrow> (Some (RenderedDoesNotLoad e), w)
      | Inr _ \<Rightarrow> (let (e, w) = write b w in (map_option WriteFailed e, w)))"

section \<open>The policy the text denotes\<close>

definition metadata_rule :: "int \<Rightarrow> rule" where
  "metadata_rule meta =
     \<lparr>rl_Name = ''cloud-metadata'', rl_Domains = [], rl_CIDRs = [''169.254.169.254''], rl_Ports = [],
      rl_Proto = [], rl_Cgroup = [], rl_Comment = metadata_comment meta\<rparr>"

definition learned_rule :: "((string \<Rightarrow> int option) \<Rightarrow> string list) \<Rightarrow> host_rule \<Rightarrow> rule" where
  "learned_rule ord r =
     \<lparr>rl_Name = hr_host r, rl_Domains = (if hr_domain r then [hr_host r] else []),
      rl_CIDRs = (if hr_domain r then [] else [hr_host r]),
      rl_Ports = map (\<lambda>p. itoa (unat p)) (new_ports (hr_ports r)),
      rl_Proto = (if card (hr_protos r) = 1 then the_elem (hr_protos r) else []),
      rl_Cgroup = [], rl_Comment = rule_comment ord r\<rparr>"

definition learned_policy :: "((string \<Rightarrow> int option) \<Rightarrow> string list) \<Rightarrow> learn_entry list \<Rightarrow> policy" where
  "learned_policy ord es =
     (let (rules, meta) = group_entries es in
      \<lparr>pl_Version = 1, pl_Default = ''deny'', pl_Allow = map (learned_rule ord) rules,
       pl_Deny = [metadata_rule meta]\<rparr>)"

section \<open>What the merging collects\<close>

definition of_host :: "string \<Rightarrow> learn_entry list \<Rightarrow> learn_entry list" where
  "of_host h es = filter (\<lambda>e. \<not> is_metadata e \<and> le_Host e = h) es"

text \<open>A rule that stands for the entries \<open>fs\<close> of its host.\<close>

definition rule_of :: "learn_entry list \<Rightarrow> host_rule \<Rightarrow> bool" where
  "rule_of fs r \<longleftrightarrow> fs \<noteq> [] \<and> hr_domain r = le_Domain (hd fs) \<and> hr_ports r = map le_Port fs
     \<and> hr_protos r = le_Proto ` set fs \<and> hr_hits r = sum_list (map le_Hits fs)"

definition grouped :: "learn_entry list \<Rightarrow> host_rule list \<Rightarrow> bool" where
  "grouped es rules \<longleftrightarrow> distinct (map hr_host rules)
     \<and> hr_host ` set rules = le_Host ` set (filter (\<lambda>e. \<not> is_metadata e) es)
     \<and> (\<forall>r \<in> set rules. rule_of (of_host (hr_host r) es) r)"

lemma of_host_snoc:
  "of_host h (es @ [e]) = of_host h es @ (if \<not> is_metadata e \<and> le_Host e = h then [e] else [])"
  by (simp add: of_host_def)

lemma merge_host [simp]: "hr_host (merge_entry e r) = hr_host r" "hr_domain (merge_entry e r) = hr_domain r"
  by (simp_all add: merge_entry_def)

lemma rule_of_merge: "rule_of fs r \<Longrightarrow> rule_of (fs @ [e]) (merge_entry e r)"
  by (auto simp: rule_of_def merge_entry_def)

lemma rule_of_fresh: "rule_of [e] (merge_entry e (fresh_rule e))"
  by (simp add: rule_of_def merge_entry_def fresh_rule_def)

lemma group_entry_grouped:
  assumes "grouped es rules"
  shows "grouped (es @ [e]) (fst (group_entry e (rules, meta)))"
proof (cases "is_metadata e")
  case True
  then show ?thesis using assms by (simp add: group_entry_def grouped_def of_host_snoc)
next
  case False
  show ?thesis
  proof (cases "list_ex (\<lambda>r. hr_host r = le_Host e) rules")
    case True
    then have "le_Host e \<in> hr_host ` set rules" by (force simp: list_ex_iff)
    let ?m = "\<lambda>r. if hr_host r = le_Host e then merge_entry e r else r"
    have m: "map hr_host (map ?m rules) = map hr_host rules" by simp
    have "hr_host ` set (map ?m rules) = hr_host ` set rules" by (metis m list.set_map)
    then have h: "hr_host ` set (map ?m rules) = le_Host ` set (filter (\<lambda>e. \<not> is_metadata e) (es @ [e]))"
      using assms \<open>le_Host e \<in> _\<close> False by (auto simp: grouped_def)
    have "rule_of (of_host (hr_host (?m r)) (es @ [e])) (?m r)" if "r \<in> set rules" for r
    proof -
      have "rule_of (of_host (hr_host r) es) r" using assms that by (simp add: grouped_def)
      then show ?thesis using rule_of_merge[of _ r e] False by (auto simp: of_host_snoc)
    qed
    then have "\<forall>r \<in> set (map ?m rules). rule_of (of_host (hr_host r) (es @ [e])) r"
      by (metis (no_types, lifting) imageE list.set_map)
    with m h assms True False show ?thesis by (simp only: grouped_def group_entry_def Let_def prod.case if_True if_False fst_conv)
  next
    case no: False
    then have h: "le_Host e \<notin> hr_host ` set rules" by (force simp: list_ex_iff)
    have "of_host (le_Host e) es = []"
    proof (rule ccontr)
      assume "of_host (le_Host e) es \<noteq> []"
      then obtain x where "x \<in> set (of_host (le_Host e) es)" by (cases "of_host (le_Host e) es") auto
      then have x: "x \<in> set (filter (\<lambda>e. \<not> is_metadata e) es)" "le_Host x = le_Host e"
        by (auto simp: of_host_def)
      from imageI[OF x(1), of le_Host] x(2)
      have "le_Host e \<in> le_Host ` set (filter (\<lambda>e. \<not> is_metadata e) es)" by simp
      then show False using h assms by (simp add: grouped_def)
    qed
    moreover have "hr_host r \<noteq> le_Host e" if "r \<in> set rules" for r using h that by (metis imageI)
    moreover have "hr_host (fresh_rule e) = le_Host e" by (simp add: fresh_rule_def)
    ultimately show ?thesis
      using assms False no h
      by (auto simp: group_entry_def grouped_def of_host_snoc rule_of_fresh)
  qed
qed

lemma group_entries_grouped: "grouped es (fst (group_entries es))"
proof (induction es rule: rev_induct)
  case Nil
  then show ?case by (simp add: group_entries_def grouped_def)
next
  case (snoc e es)
  then show ?case
    using group_entry_grouped[of es "fst (group_entries es)" e "snd (group_entries es)"]
    by (simp add: group_entries_def)
qed

lemma group_entries_meta:
  "snd (group_entries es) = sum_list (map le_Hits (filter is_metadata es))"
proof -
  have "snd (fold group_entry es (rules, m)) = m + sum_list (map le_Hits (filter is_metadata es))" for rules m
    by (induction es arbitrary: rules m) (simp_all add: group_entry_def)
  then show ?thesis by (simp add: group_entries_def)
qed

lemma new_ports_set: "set (new_ports ps) = set ps" "distinct (new_ports ps)"
proof -
  have "set (foldl (\<lambda>out p. if p \<in> set out then out else out @ [p]) out ps) = set out \<union> set ps
    \<and> (distinct out \<longrightarrow> distinct (foldl (\<lambda>out p. if p \<in> set out then out else out @ [p]) out ps))" for out
    by (induction ps arbitrary: out) auto
  from this[of "[]"] show "set (new_ports ps) = set ps" "distinct (new_ports ps)"
    by (simp_all add: new_ports_def)
qed

section \<open>What the policy decides\<close>

text \<open>The hosts, ports and protocols of the flows that were seen, the metadata address apart.\<close>

definition learned_hosts :: "learn_entry list \<Rightarrow> string set" where
  "learned_hosts es = le_Host ` set (filter (\<lambda>e. \<not> is_metadata e) es)"

definition learned_ports :: "learn_entry list \<Rightarrow> string \<Rightarrow> u16 set" where
  "learned_ports es h = le_Port ` set (of_host h es)"

definition learned_protos :: "learn_entry list \<Rightarrow> string \<Rightarrow> string set" where
  "learned_protos es h = le_Proto ` set (of_host h es)"

definition learned_as_name :: "learn_entry list \<Rightarrow> string \<Rightarrow> bool" where
  "learned_as_name es h = le_Domain (hd (of_host h es))"

definition host_matches :: "learn_entry list \<Rightarrow> string \<Rightarrow> dest \<Rightarrow> bool" where
  "host_matches es h q \<longleftrightarrow>
     (if learned_as_name es h then d_Domain q \<noteq> [] \<and> pattern_covers h (d_Domain q)
      else IsValid (d_IP q) \<and> (\<exists>p. parse_cidr h = Some p \<and> Prefix_Contains p (Unmap (d_IP q))))"

definition proto_matches :: "learn_entry list \<Rightarrow> string \<Rightarrow> dest \<Rightarrow> bool" where
  "proto_matches es h q \<longleftrightarrow>
     d_Proto q = [] \<or> card (learned_protos es h) \<noteq> 1 \<or> d_Proto q \<in> learned_protos es h"

lemma parsePortRange_itoa:
  "p \<noteq> 0 \<Longrightarrow> parsePortRange (itoa (unat p)) = Inr (PortRange p p)"
  using parsePortRange_portText[of "PortRange p p"] by (simp add: portText_def word_gt_0)

lemma learned_rule_applies:
  assumes "rule_of (of_host h es) r" and "hr_host r = h" and "0 \<notin> set (hr_ports r)"
    and "\<forall>e \<in> set es. le_Proto e = ''tcp'' \<or> le_Proto e = ''udp''"
  shows "Rule_applies (learned_rule ord r) q \<longleftrightarrow>
    host_matches es h q \<and> d_Port q \<in> learned_ports es h \<and> proto_matches es h q"
proof -
  let ?fs = "of_host h es"
  note ro = assms(1)[unfolded rule_of_def]
  have ports: "(\<exists>p \<in> set (rl_Ports (learned_rule ord r)). case parsePortRange p of Inl _ \<Rightarrow> False
           | Inr pr \<Rightarrow> pr_lo pr \<le> d_Port q \<and> d_Port q \<le> pr_hi pr) \<longleftrightarrow> d_Port q \<in> learned_ports es h"
  proof -
    have "(case parsePortRange (itoa (unat p)) of Inl _ \<Rightarrow> False
           | Inr pr \<Rightarrow> pr_lo pr \<le> d_Port q \<and> d_Port q \<le> pr_hi pr) \<longleftrightarrow> d_Port q = p" if "p \<in> set (hr_ports r)" for p
    proof -
      have "p \<noteq> 0" using that assms(3) by auto
      then show ?thesis by (auto simp: parsePortRange_itoa)
    qed
    then show ?thesis using ro by (auto simp: learned_rule_def new_ports_set learned_ports_def)
  qed
  have np: "rl_Ports (learned_rule ord r) \<noteq> []"
    using ro new_ports_set(1)[of "hr_ports r"] by (cases ?fs) (auto simp: learned_rule_def)
  have proto: "(ToLower (rl_Proto (learned_rule ord r)) = [] \<or> d_Proto q = []
      \<or> ToLower (rl_Proto (learned_rule ord r)) = d_Proto q) \<longleftrightarrow> proto_matches es h q"
  proof (cases "card (learned_protos es h) = 1")
    case True
    then obtain x where x: "learned_protos es h = {x}" using card_1_singletonE by blast
    then have "x \<in> le_Proto ` set ?fs" by (simp add: learned_protos_def)
    then have "x = ''tcp'' \<or> x = ''udp''" using assms(4) by (auto simp: of_host_def)
    moreover have "ToLower ''tcp'' = ''tcp''" "ToLower ''udp'' = ''udp''" by code_simp+
    ultimately have "ToLower x = x" "x \<noteq> []" by auto
    then show ?thesis
      using x ro by (auto simp: learned_rule_def proto_matches_def learned_protos_def)
  next
    case False
    then show ?thesis using ro by (simp add: learned_rule_def proto_matches_def learned_protos_def)
  qed
  show ?thesis
    unfolding Rule_applies_def ports proto
    using ro np assms(2)
    by (auto simp: learned_rule_def host_matches_def learned_as_name_def split: option.splits)
qed

lemma metadata_cidr: "parse_cidr ''169.254.169.254'' = Some (IpPrefix metadataIP 32)"
  by code_simp

lemma contains_host4: "Prefix_Contains (IpPrefix (Addr4 w) 32) a \<longleftrightarrow> a = Addr4 w"
  by (cases a) (auto simp: Prefix_Contains_def word_xor_eq_0_iff)


lemma contains_own_prefix:
  "IsValid a \<Longrightarrow> \<not> hasZone a \<Longrightarrow> Prefix_Contains (PrefixFrom a (BitLen a)) a"
  by (cases a) (auto simp: Prefix_Contains_def PrefixFrom_def)

lemma metadata_rule_applies:
  "Rule_applies (metadata_rule m) q \<longleftrightarrow> Unmap (d_IP q) = metadataIP"
proof -
  have "IsValid (d_IP q)" if "Unmap (d_IP q) = metadataIP"
    using that IsValid_Unmap[of "d_IP q"] by (simp add: metadataIP_def)
  moreover have "Prefix_Contains (IpPrefix metadataIP 32) a \<longleftrightarrow> a = metadataIP" for a
    by (simp add: metadataIP_def contains_host4)
  moreover have "Rule_applies (metadata_rule m) q \<longleftrightarrow>
      IsValid (d_IP q) \<and> Prefix_Contains (IpPrefix metadataIP 32) (Unmap (d_IP q))"
    by (simp add: Rule_applies_def metadata_rule_def metadata_cidr)
  ultimately show ?thesis by blast
qed

lemma list_all2_in: "list_all2 P xs ys \<Longrightarrow> x \<in> set xs \<Longrightarrow> \<exists>y \<in> set ys. P x y"
  by (induction rule: list_all2_induct) auto

lemma parsePortRange_zero: "parsePortRange (itoa (unat (0 :: u16))) \<noteq> Inr pr"
proof
  assume "parsePortRange (itoa (unat (0 :: u16))) = Inr pr"
  moreover have "parsePortRange (itoa 0) = Inl (BadPort ''0'')" by code_simp
  ultimately show False by simp
qed

lemma learned_policy_ports:
  assumes "Compile (learned_policy ord es) = Inr s" and "r \<in> set (fst (group_entries es))"
  shows "0 \<notin> set (hr_ports r)"
proof
  assume z: "0 \<in> set (hr_ports r)"
  have "pl_Allow (learned_policy ord es) = map (learned_rule ord) (fst (group_entries es))"
    by (simp add: learned_policy_def split: prod.split)
  moreover obtain ds as where
    "list_all2 (\<lambda>r c. \<exists>pos. compileRule r Allow pos = Inr c) (pl_Allow (learned_policy ord es)) as"
    using Compile_InrD[OF assms(1)] by blast
  ultimately obtain c pos where "compileRule (learned_rule ord r) Allow pos = Inr c"
    using assms(2) by (auto dest!: list_all2_in[where x = "learned_rule ord r"])
  from compileRule_InrD(7)[OF this] have "\<forall>x \<in> set (rl_Ports (learned_rule ord r)). \<exists>pr. parsePortRange x = Inr pr"
    by (auto simp: list_all2_conv_all_nth in_set_conv_nth)
  moreover have "itoa (unat (0 :: u16)) \<in> set (rl_Ports (learned_rule ord r))"
    using z by (force simp: learned_rule_def new_ports_set)
  ultimately show False using parsePortRange_zero by blast
qed

lemma learned_policy_decides:
  assumes "Compile (learned_policy ord es) = Inr s"
    and "\<forall>e \<in> set es. le_Proto e = ''tcp'' \<or> le_Proto e = ''udp''"
  shows "dc_Verdict (Evaluate s d) = Allow \<longleftrightarrow>
    Unmap (d_IP d) \<noteq> metadataIP
    \<and> (\<exists>h \<in> learned_hosts es. host_matches es h (normalize_dest d)
          \<and> d_Port d \<in> learned_ports es h \<and> proto_matches es h (normalize_dest d))"
proof -
  let ?q = "normalize_dest d" and ?rs = "fst (group_entries es)"
  have q: "d_IP ?q = d_IP d" "d_Port ?q = d_Port d" by (simp_all add: normalize_dest_def)
  have g: "grouped es ?rs" by (rule group_entries_grouped)
  have p: "pl_Allow (learned_policy ord es) = map (learned_rule ord) ?rs"
    "pl_Deny (learned_policy ord es) = [metadata_rule (snd (group_entries es))]"
    "pl_Default (learned_policy ord es) = ''deny''"
    by (simp_all add: learned_policy_def split: prod.split)
  have "Rule_applies (learned_rule ord r) ?q \<longleftrightarrow> host_matches es (hr_host r) ?q
      \<and> d_Port ?q \<in> learned_ports es (hr_host r) \<and> proto_matches es (hr_host r) ?q" if "r \<in> set ?rs" for r
    using g that learned_policy_ports[OF assms(1) that] assms(2)
    by (intro learned_rule_applies) (simp_all add: grouped_def)
  then have "(\<exists>r \<in> set (pl_Allow (learned_policy ord es)). Rule_applies r ?q) \<longleftrightarrow>
      (\<exists>h \<in> hr_host ` set ?rs. host_matches es h ?q \<and> d_Port ?q \<in> learned_ports es h \<and> proto_matches es h ?q)"
    unfolding p by auto
  moreover have "hr_host ` set ?rs = learned_hosts es" using g by (simp add: grouped_def learned_hosts_def)
  moreover have "(\<exists>r \<in> set (pl_Deny (learned_policy ord es)). Rule_applies r ?q) \<longleftrightarrow> Unmap (d_IP d) = metadataIP"
    unfolding p by (simp add: metadata_rule_applies q)
  ultimately show ?thesis
    unfolding Evaluate_by_lists[OF assms(1)] Let_def p(3) by (simp add: q)
qed

text \<open>A name, an address and the metadata address.\<close>

definition example_entry :: "string \<Rightarrow> bool \<Rightarrow> u16 \<Rightarrow> string \<Rightarrow> learn_entry" where
  "example_entry host domain port proto =
     \<lparr>le_Host = host, le_Domain = domain, le_Port = port, le_Proto = proto, le_First = Minute,
      le_Last = 2 * Minute, le_Hits = 3, le_IPs = [], le_Origins = (\<lambda>_. None)\<rparr>"

definition example_entries :: "learn_entry list" where
  "example_entries =
     [example_entry ''ok.io'' True 443 ''tcp'', example_entry ''5.6.7.8'' False 53 ''udp'',
      example_entry ''169.254.169.254'' False 80 ''tcp'', example_entry ''ok.io'' True 80 ''tcp'']"

lemma example_learned_compiles:
  "\<exists>s. Compile (learned_policy (\<lambda>_. []) example_entries) = Inr s"
proof -
  have "case Compile (learned_policy (\<lambda>_. []) example_entries) of Inl _ \<Rightarrow> False | Inr _ \<Rightarrow> True"
    by code_simp
  then show ?thesis by (auto split: sum.splits)
qed

lemma example_entries_protos:
  "\<forall>e \<in> set example_entries. le_Proto e = ''tcp'' \<or> le_Proto e = ''udp''"
  by (simp add: example_entries_def example_entry_def)

section \<open>Properties\<close>


lemma learned_allowed:
  assumes "Compile (learned_policy ord es) = Inr s"
    and "\<forall>x \<in> set es. le_Proto x = ''tcp'' \<or> le_Proto x = ''udp''"
    and "e \<in> set es" and "\<not> is_metadata e" and "d_Port d = le_Port e" and "d_Proto d = le_Proto e"
    and "Unmap (d_IP d) \<noteq> metadataIP"
    and "if learned_as_name es (le_Host e) then d_Domain d = le_Host e \<and> NormalizeDomain (le_Host e) \<noteq> []
         else IsValid (d_IP d) \<and> \<not> hasZone (Unmap (d_IP d)) \<and> parse_cidr (le_Host e) = Some (PrefixFrom (Unmap (d_IP d)) (BitLen (Unmap (d_IP d))))"
  shows "dc_Verdict (Evaluate s d) = Allow"
proof -
  let ?q = "normalize_dest d"
  have e: "e \<in> set (of_host (le_Host e) es)" using assms(3,4) by (simp add: of_host_def)
  have "ToLower (le_Proto e) = le_Proto e"
  proof -
    have "ToLower ''tcp'' = ''tcp''" "ToLower ''udp'' = ''udp''" by code_simp+
    then show ?thesis using assms(2,3) by auto
  qed
  then have "proto_matches es (le_Host e) ?q"
    using e assms(6) by (auto simp: proto_matches_def learned_protos_def normalize_dest_def)
  moreover have "d_Port d \<in> learned_ports es (le_Host e)" using e assms(5) by (auto simp: learned_ports_def)
  moreover have "le_Host e \<in> learned_hosts es" using assms(3,4) by (auto simp: learned_hosts_def)
  moreover have "host_matches es (le_Host e) ?q"
  proof (cases "learned_as_name es (le_Host e)")
    case True
    then have "HasSuffix (NormalizeDomain (le_Host e)) (drop 1 (NormalizeDomain (le_Host e)))"
      by (metis HasSuffix_append append_take_drop_id)
    then show ?thesis
      using True assms(8) by (simp add: host_matches_def normalize_dest_def pattern_covers_def)
  next
    case False
    then show ?thesis
      using assms(8) contains_own_prefix[of "Unmap (d_IP d)"] by (simp add: host_matches_def normalize_dest_def)
  qed
  ultimately show ?thesis
    using learned_policy_decides[OF assms(1,2)] assms(7) by blast
qed

text \<open>
  Every destination that was learned is allowed by the policy that is written, whichever
  address its name resolves to later, unless that is the metadata address.
\<close>

theorem learned_is_allowed:
  assumes "Compile (learned_policy ord es) = Inr s"
    and "\<forall>x \<in> set es. le_Proto x = ''tcp'' \<or> le_Proto x = ''udp''"
    and "e \<in> set es" and "\<not> is_metadata e" and "d_Port d = le_Port e" and "d_Proto d = le_Proto e"
    and "Unmap (d_IP d) \<noteq> metadataIP"
    and "if learned_as_name es (le_Host e) then d_Domain d = le_Host e \<and> NormalizeDomain (le_Host e) \<noteq> []
         else IsValid (d_IP d) \<and> \<not> hasZone (Unmap (d_IP d)) \<and> parse_cidr (le_Host e) = Some (PrefixFrom (Unmap (d_IP d)) (BitLen (Unmap (d_IP d))))"
  shows "dc_Verdict (Evaluate s d) = Allow"
  by (rule learned_allowed[OF assms])

text \<open>
  One flow to port 0 makes the whole policy unwritable: the rendered text is read back, its
  port is refused, and \<open>WritePolicy\<close> fails with nothing written.
\<close>

theorem port_zero_unwritable:
  assumes "e \<in> set es" and "\<not> is_metadata e" and "le_Port e = 0"
    and "yaml (policy_text ord es started now) = Inr (learned_policy ord es)"
  shows "\<exists>err. WritePolicy yaml write ord es started now w = (Some (RenderedDoesNotLoad (Inr err)), w)"
proof (cases "Compile (learned_policy ord es)")
  case (Inl err)
  then show ?thesis using assms(4) by (simp add: WritePolicy_def policy_Parse_def)
next
  case (Inr s)
  have g: "grouped es (fst (group_entries es))" by (rule group_entries_grouped)
  then have "le_Host e \<in> hr_host ` set (fst (group_entries es))"
    using assms(1,2) by (auto simp: grouped_def)
  then obtain r where r: "r \<in> set (fst (group_entries es))" "hr_host r = le_Host e" by auto
  with g have "hr_ports r = map le_Port (of_host (le_Host e) es)" by (auto simp: grouped_def rule_of_def)
  then have "0 \<in> set (hr_ports r)" using assms(1-3) by (force simp: of_host_def)
  with learned_policy_ports[OF Inr r(1)] show ?thesis by simp
qed



lemma learned_is_allowed_witness:
  "\<exists>s. Compile (learned_policy (\<lambda>_. []) example_entries) = Inr s
     \<and> dc_Verdict (Evaluate s \<lparr>d_Domain = ''ok.io'', d_IP = Addr4 7, d_Port = 80, d_Proto = ''tcp'',
           d_Cgroup = []\<rparr>) = Allow"
proof -
  obtain s where s: "Compile (learned_policy (\<lambda>_. []) example_entries) = Inr s"
    using example_learned_compiles by blast
  have "learned_as_name example_entries ''ok.io''" "\<not> is_metadata (example_entry ''ok.io'' True 80 ''tcp'')"
    "NormalizeDomain ''ok.io'' = ''ok.io''"
    by code_simp+
  then have "dc_Verdict (Evaluate s \<lparr>d_Domain = ''ok.io'', d_IP = Addr4 7, d_Port = 80, d_Proto = ''tcp'',
           d_Cgroup = []\<rparr>) = Allow"
    by (intro learned_is_allowed[OF s example_entries_protos, where e = "example_entry ''ok.io'' True 80 ''tcp''"])
       (simp_all add: example_entries_def example_entry_def metadataIP_def)
  with s show ?thesis by blast
qed

lemma port_zero_unwritable_witness:
  "\<exists>err. WritePolicy (\<lambda>_. Inr (learned_policy (\<lambda>_. []) [example_entry ''ok.io'' True 0 ''tcp'']) :: unit + policy)
     (\<lambda>b w. (None :: unit option, w @ b)) (\<lambda>_. []) [example_entry ''ok.io'' True 0 ''tcp''] 0 Minute []
     = (Some (RenderedDoesNotLoad (Inr err)), [])"
  by (rule port_zero_unwritable[where e = "example_entry ''ok.io'' True 0 ''tcp''"])
     (simp_all add: example_entry_def is_metadata_def)

end
