(* ===== verification/Kmsg.thy ===== *)
theory Kmsg
  imports Nft_Plan
begin

text \<open>
  \<^verbatim>\<open>internal/kmsg/kmsg.go\<close>: reading the refusals back out of the kernel log. \<open>None\<close> is the
  \<^verbatim>\<open>false\<close> result.
\<close>

record kmsg_event =
  ke_Rule :: string
  ke_Dst :: addr
  ke_Port :: u16
  ke_Proto :: string

definition no_event :: kmsg_event where
  "no_event = \<lparr>ke_Rule = [], ke_Dst = NoAddr, ke_Port = 0, ke_Proto = []\<rparr>"

text \<open>One turn of the loop over the fields of the record.\<close>

definition kmsg_field :: "kmsg_event \<Rightarrow> string \<Rightarrow> kmsg_event" where
  "kmsg_field ev f =
     (case str_Cut f ''='' of
        None \<Rightarrow> ev
      | Some (k, v) \<Rightarrow>
          if k = ''DST'' then
            (case ParseAddr v of Some a \<Rightarrow> ev\<lparr>ke_Dst := a\<rparr> | None \<Rightarrow> ev)
          else if k = ''DPT'' then
            (case ParseUint v 10 16 of Some n \<Rightarrow> ev\<lparr>ke_Port := of_nat n\<rparr> | None \<Rightarrow> ev)
          else if k = ''PROTO'' then ev\<lparr>ke_Proto := ToLower v\<rparr>
          else ev)"

text \<open>The switch over the prefix: the rule's name and the rest of the message.\<close>

definition kmsg_prefix :: "string \<Rightarrow> (string \<times> string) option" where
  "kmsg_prefix msg =
     (case CutPrefix msg ''egresswall deny['' of
        Some rest \<Rightarrow> str_Cut rest '']: ''
      | None \<Rightarrow>
          (case CutPrefix msg ''egresswall default-deny: '' of
             Some rest \<Rightarrow> Some ([], rest)
           | None \<Rightarrow> None))"

definition ParseLine :: "string \<Rightarrow> kmsg_event option" where
  "ParseLine line =
     (let msg = (case str_Cut line '';'' of Some (_, m) \<Rightarrow> m | None \<Rightarrow> line) in
      case kmsg_prefix msg of
        None \<Rightarrow> None
      | Some (name, rest) \<Rightarrow>
          (let ev = foldl kmsg_field (no_event\<lparr>ke_Rule := name\<rparr>) (str_Fields rest) in
           if IsValid (ke_Dst ev) then Some ev else None))"

section \<open>Lemmas on fields\<close>

lemma fields_aux_graphic:
  "\<forall>c \<in> set w. graphic c \<Longrightarrow> fields_aux cur (w @ s) = fields_aux (rev w @ cur) s"
proof (induction w arbitrary: cur)
  case (Cons c w)
  then have "lead_space (c # w @ s) = None" by (intro lead_space_graphic) simp
  with Cons show ?case by (subst fields_aux.simps) simp
qed simp

lemma fields_aux_Nil: "fields_aux cur [] = (if cur = [] then [] else [rev cur])"
  by (subst fields_aux.simps) simp

lemma lead_space_blank: "lead_space (CHR '' '' # s) = Some '' ''"
proof -
  have s: "unicode_spaces = [[char_of (9::nat)], [char_of (10::nat)], [char_of (11::nat)],
      [char_of (12::nat)], [char_of (13::nat)], '' ''] @ drop 6 unicode_spaces" by code_simp
  show ?thesis
    unfolding lead_space_def by (subst s) (simp add: HasPrefix_def char_of_eq_iff eq_commute[of "char_of _"])
qed

lemma fields_aux_blank:
  "fields_aux cur (CHR '' '' # s) = (if cur = [] then [] else [rev cur]) @ fields_aux [] s"
  by (subst fields_aux.simps) (simp add: lead_space_blank)

lemma str_Fields_Join:
  "(\<And>f. f \<in> set fs \<Longrightarrow> f \<noteq> [] \<and> (\<forall>c \<in> set f. graphic c)) \<Longrightarrow> str_Fields (str_Join fs '' '') = fs"
proof (induction fs)
  case Nil
  then show ?case by (simp add: str_Fields_def fields_aux_Nil)
next
  case (Cons f fs)
  have f: "f \<noteq> []" "\<forall>c \<in> set f. graphic c" using Cons.prems by auto
  show ?case
  proof (cases "fs = []")
    case True
    then show ?thesis
      using f fields_aux_graphic[of f "[]" "[]"] by (simp add: str_Fields_def fields_aux_Nil)
  next
    case False
    then have "str_Fields (str_Join (f # fs) '' '') = f # str_Fields (str_Join fs '' '')"
      using f by (simp add: str_Fields_def str_Join_Cons fields_aux_graphic fields_aux_blank)
    moreover have "str_Fields (str_Join fs '' '') = fs" using Cons.prems by (intro Cons.IH) auto
    ultimately show ?thesis by simp
  qed
qed

section \<open>Lemmas on the prefix\<close>

lemma str_Contains_Cons:
  "\<not> str_Contains (c # cs) sub \<longleftrightarrow> \<not> HasPrefix (c # cs) sub \<and> \<not> str_Contains cs sub"
  by (auto simp: str_Contains_def)

lemma str_Cut_mark:
  "\<not> str_Contains rule '']: '' \<Longrightarrow> str_Cut (rule @ '']: '' @ t) '']: '' = Some (rule, t)"
proof -
  assume "\<not> str_Contains rule '']: ''"
  then have "str_Index (rule @ '']: '' @ t) '']: '' = Some (length rule)"
  proof (induction rule)
    case (Cons c cs)
    have "\<not> HasPrefix ((c # cs) @ '']: '' @ t) '']: ''"
      using Cons.prems
      by (cases cs; cases "tl cs") (auto simp: str_Contains_Cons HasPrefix_def)
    with Cons show ?case by (simp add: str_Contains_Cons)
  qed (simp add: HasPrefix_def)
  then show ?thesis by (simp add: str_Cut_def)
qed

lemma CutPrefix_append: "CutPrefix (p @ s) p = Some s"
  by (simp add: CutPrefix_def)

lemma kmsg_prefix_LogPrefix:
  assumes "length rule \<le> 101" and "\<not> str_Contains rule '']: ''"
  shows "kmsg_prefix (LogPrefix rule @ body) = Some (rule, body)"
proof (cases "rule = []")
  case True
  have "LogPrefix [] = ''egresswall default-deny: ''" by code_simp
  moreover have "CutPrefix (''egresswall default-deny: '' @ body) ''egresswall deny['' = None"
    by (simp add: CutPrefix_def HasPrefix_def)
  ultimately show ?thesis
    using True CutPrefix_append[of "''egresswall default-deny: ''" body] by (simp add: kmsg_prefix_def)
next
  case False
  then have "LogPrefix rule = ''egresswall deny['' @ rule @ '']: ''"
    using assms(1) by (auto simp: LogPrefix_def Let_def maxPrefix_def)
  then show ?thesis
    using CutPrefix_append[of "''egresswall deny[''" "rule @ '']: '' @ body"] str_Cut_mark[OF assms(2), of body]
    by (simp add: kmsg_prefix_def)
qed

lemma kmsg_prefix_long:
  assumes "101 < length rule" and "\<not> str_Contains (take 101 rule @ ''..: '' @ body) '']: ''"
  shows "kmsg_prefix (LogPrefix rule @ body) = None"
proof -
  have "LogPrefix rule = ''egresswall deny['' @ take 101 rule @ ''..: ''"
    using assms(1) by (auto simp: LogPrefix_def Let_def maxPrefix_def)
  then show ?thesis
    using CutPrefix_append[of "''egresswall deny[''" "take 101 rule @ ''..: '' @ body"] assms(2)
    by (simp add: kmsg_prefix_def str_Cut_def str_Contains_def)
qed

lemma ParseLine_header:
  assumes "CHR '';'' \<notin> set hdr"
  shows "ParseLine (hdr @ '';'' @ msg) =
    (case kmsg_prefix msg of None \<Rightarrow> None
     | Some (name, rest) \<Rightarrow>
         (let ev = foldl kmsg_field (no_event\<lparr>ke_Rule := name\<rparr>) (str_Fields rest) in
          if IsValid (ke_Dst ev) then Some ev else None))"
  using str_Cut_char[OF assms, of msg] by (simp add: ParseLine_def)

text \<open>A field the parser does not look at.\<close>

definition plain_field :: "string \<Rightarrow> bool" where
  "plain_field f \<longleftrightarrow> (case str_Cut f ''='' of None \<Rightarrow> True | Some (k, v) \<Rightarrow> k \<notin> {''DST'', ''DPT'', ''PROTO''})"

lemma foldl_plain: "\<forall>f \<in> set fs. plain_field f \<Longrightarrow> foldl kmsg_field ev fs = ev"
  by (induction fs arbitrary: ev) (auto simp: plain_field_def kmsg_field_def split: option.splits)

lemma kmsg_field_key:
  "CHR ''='' \<notin> set k \<Longrightarrow> str_Cut (k @ CHR ''='' # v) ''='' = Some (k, v)"
  by (rule str_Cut_char)

section \<open>Properties\<close>

lemma ParseLine_LogPrefix:
  assumes "length rule \<le> 101" and "\<not> str_Contains rule '']: ''" and "CHR '';'' \<notin> set hdr"
    and "ParseAddr dst = Some ip" and "port < 65536"
    and "\<forall>f \<in> set (a @ b @ c @ d). plain_field f"
    and "fs = a @ [''DST='' @ dst] @ b @ [''PROTO='' @ pr] @ c @ [''DPT='' @ itoa port] @ d"
    and "\<forall>f \<in> set fs. f \<noteq> [] \<and> (\<forall>x \<in> set f. graphic x)"
  shows "ParseLine (hdr @ '';'' @ LogPrefix rule @ str_Join fs '' '') =
    Some \<lparr>ke_Rule = rule, ke_Dst = ip, ke_Port = of_nat port, ke_Proto = ToLower pr\<rparr>"
proof -
  have k: "str_Cut (''DST='' @ dst) ''='' = Some (''DST'', dst)"
    "str_Cut (''PROTO='' @ pr) ''='' = Some (''PROTO'', pr)"
    "str_Cut (''DPT='' @ itoa port) ''='' = Some (''DPT'', itoa port)"
    using kmsg_field_key[of "''DST''" dst] kmsg_field_key[of "''PROTO''" pr]
      kmsg_field_key[of "''DPT''" "itoa port"] by simp_all
  have p: "ParseUint (itoa port) 10 16 = Some port" using assms(5) by (simp add: ParseUint_itoa)
  have pl: "foldl kmsg_field ev a = ev" "foldl kmsg_field ev b = ev" "foldl kmsg_field ev c = ev"
    "foldl kmsg_field ev d = ev" for ev
    using assms(6) by (simp_all add: foldl_plain)
  have "foldl kmsg_field (no_event\<lparr>ke_Rule := rule\<rparr>) fs =
    \<lparr>ke_Rule = rule, ke_Dst = ip, ke_Port = of_nat port, ke_Proto = ToLower pr\<rparr>"
    unfolding assms(7) foldl_append pl
    by (simp only: foldl_Cons foldl_Nil pl kmsg_field_def k p assms(4) option.case prod.case)
       (simp add: no_event_def)
  moreover have "str_Fields (str_Join fs '' '') = fs" using assms(8) by (intro str_Fields_Join) blast
  ultimately show ?thesis
    unfolding ParseLine_header[OF assms(3)] kmsg_prefix_LogPrefix[OF assms(1,2)]
    using ParseAddr_valid[OF assms(4)] by (simp add: Let_def)
qed

text \<open>
  C18: what a refusal writes comes back: a record whose message is the log prefix of a rule and
  then the packet's fields is read as that rule, the destination, port and protocol of the
  fields, in whatever company these stand. The name is at most 101 bytes and without the mark
  that ends the prefix; the empty name is the default.
\<close>

theorem refusal_roundtrip:
  assumes "length rule \<le> 101" and "\<not> str_Contains rule '']: ''" and "CHR '';'' \<notin> set hdr"
    and "ParseAddr dst = Some ip" and "port < 65536"
    and "\<forall>f \<in> set (a @ b @ c @ d). plain_field f"
    and "fs = a @ [''DST='' @ dst] @ b @ [''PROTO='' @ pr] @ c @ [''DPT='' @ itoa port] @ d"
    and "\<forall>f \<in> set fs. f \<noteq> [] \<and> (\<forall>x \<in> set f. graphic x)"
  shows "ParseLine (hdr @ '';'' @ LogPrefix rule @ str_Join fs '' '') =
    Some \<lparr>ke_Rule = rule, ke_Dst = ip, ke_Port = of_nat port, ke_Proto = ToLower pr\<rparr>"
  by (rule ParseLine_LogPrefix[OF assms])

text \<open>
  A rule name longer than 101 bytes is lost: the cut prefix has no end mark, so unless one
  turns up by accident the refusals of such a rule are never reported.
\<close>

theorem long_name_unreported:
  assumes "101 < length rule" and "\<not> str_Contains (take 101 rule @ ''..: '' @ body) '']: ''"
    and "CHR '';'' \<notin> set hdr"
  shows "ParseLine (hdr @ '';'' @ LogPrefix rule @ body) = None"
  unfolding ParseLine_header[OF assms(3)] kmsg_prefix_long[OF assms(1,2)] by simp

lemma long_name_unreported_witness:
  "ParseLine (''6,1,2,-'' @ '';'' @ LogPrefix (replicate 102 (CHR ''a'')) @ ''DST=1.2.3.4'') = None"
proof (rule long_name_unreported)
  show "\<not> str_Contains (take 101 (replicate 102 (CHR ''a'')) @ ''..: '' @ ''DST=1.2.3.4'') '']: ''"
    by code_simp
qed simp_all

lemma refusal_roundtrip_witness:
  "ParseLine (''6,1,2,-'' @ '';'' @ LogPrefix ''web'' @ ''OUT=eth0 DST=1.2.3.4 PROTO=TCP SPT=5 DPT=443'') =
    Some \<lparr>ke_Rule = ''web'', ke_Dst = Addr4 0x01020304, ke_Port = of_nat 443, ke_Proto = ToLower ''TCP''\<rparr>"
proof -
  have j: "''OUT=eth0 DST=1.2.3.4 PROTO=TCP SPT=5 DPT=443'' =
      str_Join [''OUT=eth0'', ''DST=1.2.3.4'', ''PROTO=TCP'', ''SPT=5'', ''DPT=443''] '' ''" by simp
  have "ParseAddr ''1.2.3.4'' = Some (Addr4 0x01020304)" by code_simp
  moreover have "\<not> str_Contains ''web'' '']: ''" by code_simp
  moreover have "\<forall>f \<in> set ([''OUT=eth0''] @ [] @ [''SPT=5''] @ []). plain_field f" by code_simp
  moreover have e: "[''OUT=eth0'', ''DST=1.2.3.4'', ''PROTO=TCP'', ''SPT=5'', ''DPT=443''] =
     [''OUT=eth0''] @ [''DST='' @ ''1.2.3.4''] @ [] @ [''PROTO='' @ ''TCP''] @ [''SPT=5''] @ [''DPT='' @ itoa 443] @ []"
    by code_simp
  moreover have "\<forall>f \<in> set [''OUT=eth0'', ''DST=1.2.3.4'', ''PROTO=TCP'', ''SPT=5'', ''DPT=443'']. f \<noteq> [] \<and> (\<forall>x \<in> set f. graphic x)"
    by code_simp
  ultimately show ?thesis
    unfolding j
    by (intro refusal_roundtrip[where a = "[''OUT=eth0'']" and b = "[]" and c = "[''SPT=5'']" and d = "[]"
          and dst = "''1.2.3.4''"]) (assumption | simp)+
qed

end
