(* ===== verification/Alert.thy ===== *)
theory Alert
  imports Netip "HOL-Library.Product_Lexorder"
begin

text \<open>
  \<^verbatim>\<open>internal/alert/alert.go\<close> and \<^verbatim>\<open>webhook.go\<close>: the sink that reports refusals. The goroutine of
  \<^verbatim>\<open>loop\<close> and the callers of \<^verbatim>\<open>Send\<close> and \<^verbatim>\<open>Close\<close> interleave: each takes one of the steps below at
  a time. The JSON encoder, the HTTP exchange and the clock are inputs of the steps.
\<close>

section \<open>Events and payloads\<close>

record alert_event =
  ae_At :: time
  ae_Rule :: string
  ae_Host :: string
  ae_IP :: addr
  ae_Port :: u16
  ae_Proto :: string
  ae_Cgroup :: string

record alert_key =
  ak_rule :: string
  ak_host :: string
  ak_cgroup :: string
  ak_ip :: addr
  ak_port :: u16
  ak_proto :: string

definition event_key :: "alert_event \<Rightarrow> alert_key" where
  "event_key e =
     \<lparr>ak_rule = ae_Rule e, ak_host = ae_Host e, ak_cgroup = ae_Cgroup e, ak_ip = ae_IP e,
      ak_port = ae_Port e, ak_proto = ae_Proto e\<rparr>"

record alert_group =
  ag_Event :: alert_event
  ag_Count :: int
  ag_Last :: time

record refusal =
  rf_First :: time
  rf_Last :: time
  rf_Count :: int
  rf_Rule :: string
  rf_Host :: string
  rf_IP :: string
  rf_Port :: u16
  rf_Proto :: string
  rf_Cgroup :: string

record payload =
  py_Source :: string
  py_Host :: string
  py_Sent :: time
  py_Dropped :: int
  py_Refused :: "refusal list"

section \<open>The webhook\<close>

definition defaultWindow :: duration where "defaultWindow = 5 * Second"
definition defaultQueue :: int where "defaultQueue = 2048"

text \<open>
  The phase of the goroutine: waiting in its select, in the middle of \<^verbatim>\<open>post\<close> with a payload, the
  number of the attempt and whether the loop ends afterwards, or done. The last two fields are
  not the program's: the payloads the endpoint accepted and those that were given up.
\<close>

datatype wh_phase = Looping | Posting payload nat bool | Finished

type_synonym batch = "alert_key \<Rightarrow> alert_group option"

record webhook =
  wh_Window :: duration
  wh_Queue :: int
  wh_events :: "alert_event list"
  wh_closed :: bool
  wh_dropped :: int
  wh_batch :: batch
  wh_phase :: wh_phase
  wh_delivered :: "payload list"
  wh_given_up :: "payload list"

text \<open>\<^verbatim>\<open>start\<close> on a webhook with the given window and queue; \<^verbatim>\<open>NewWebhook\<close> leaves both zero.\<close>

definition wh_start :: "duration \<Rightarrow> int \<Rightarrow> webhook" where
  "wh_start window q =
     \<lparr>wh_Window = (if window \<le> 0 then defaultWindow else window),
      wh_Queue = (if q \<le> 0 then defaultQueue else q),
      wh_events = [], wh_closed = False, wh_dropped = 0, wh_batch = (\<lambda>_. None),
      wh_phase = Looping, wh_delivered = [], wh_given_up = []\<rparr>"

definition NewWebhook :: webhook where
  "NewWebhook = wh_start 0 0"

text \<open>\<^verbatim>\<open>Send\<close> and the \<^verbatim>\<open>close\<close> in \<^verbatim>\<open>Close\<close>: \<open>None\<close> is the panic on a closed channel.\<close>

definition wh_Send :: "alert_event \<Rightarrow> webhook \<Rightarrow> webhook option" where
  "wh_Send e w =
     (if wh_closed w then None
      else if int (length (wh_events w)) < wh_Queue w then Some (w\<lparr>wh_events := wh_events w @ [e]\<rparr>)
      else Some (w\<lparr>wh_dropped := wh_dropped w + 1\<rparr>))"

definition wh_Close :: "webhook \<Rightarrow> webhook option" where
  "wh_Close w = (if wh_closed w then None else Some (w\<lparr>wh_closed := True\<rparr>))"

definition add_event :: "alert_event \<Rightarrow> batch \<Rightarrow> batch" where
  "add_event e b =
     b(event_key e \<mapsto>
        (case b (event_key e) of
           Some g \<Rightarrow> g\<lparr>ag_Count := ag_Count g + 1, ag_Last := ae_At e\<rparr>
         | None \<Rightarrow> \<lparr>ag_Event = e, ag_Count = 1, ag_Last = ae_At e\<rparr>))"

section \<open>Posting a batch\<close>

definition refusal_of :: "alert_group \<Rightarrow> refusal" where
  "refusal_of g =
     \<lparr>rf_First = ae_At (ag_Event g), rf_Last = ag_Last g, rf_Count = ag_Count g,
      rf_Rule = ae_Rule (ag_Event g), rf_Host = ae_Host (ag_Event g),
      rf_IP = Addr_String (ae_IP (ag_Event g)), rf_Port = ae_Port (ag_Event g),
      rf_Proto = ae_Proto (ag_Event g), rf_Cgroup = ae_Cgroup (ag_Event g)\<rparr>"

definition refusal_key :: "refusal \<Rightarrow> int \<times> string" where
  "refusal_key r = (- rf_Count r, rf_IP r)"

text \<open>\<open>ks\<close> is the order in which the iteration visits the batch.\<close>

definition make_payload :: "alert_key list \<Rightarrow> string \<Rightarrow> time \<Rightarrow> int \<Rightarrow> batch \<Rightarrow> payload" where
  "make_payload ks host now dropped b =
     \<lparr>py_Source = ''egresswall'', py_Host = host, py_Sent = now, py_Dropped = dropped,
      py_Refused = sort_key refusal_key (map (\<lambda>k. refusal_of (the (b k))) ks)\<rparr>"

text \<open>
  \<^verbatim>\<open>post\<close> up to the requests, and the end of \<^verbatim>\<open>post\<close>: back to an empty batch, or out of the loop.
  \<open>marshal\<close> says whether the payload can be encoded.
\<close>

definition end_post :: "bool \<Rightarrow> webhook \<Rightarrow> webhook" where
  "end_post final w =
     w\<lparr>wh_batch := (\<lambda>_. None), wh_phase := (if final then Finished else Looping)\<rparr>"

definition begin_post ::
  "(payload \<Rightarrow> bool) \<Rightarrow> alert_key list \<Rightarrow> string \<Rightarrow> time \<Rightarrow> bool \<Rightarrow> webhook \<Rightarrow> webhook" where
  "begin_post marshal ks host now final w =
     (if ks = [] then end_post final w
      else
        let p = make_payload ks host now (wh_dropped w) (wh_batch w); w = w\<lparr>wh_dropped := 0\<rparr> in
        if marshal p then w\<lparr>wh_phase := Posting p 0 final\<rparr>
        else end_post final (w\<lparr>wh_given_up := wh_given_up w @ [p]\<rparr>))"

text \<open>\<^verbatim>\<open>send\<close>: the request could not be made, or did not come back, or came back with a status.\<close>

datatype http_result = BadRequest | NoResponse | Status nat

definition wh_send :: "http_result \<Rightarrow> bool" where
  "wh_send r = (case r of BadRequest \<Rightarrow> False | NoResponse \<Rightarrow> False | Status n \<Rightarrow> n < 300)"

text \<open>One turn of the retry loop.\<close>

definition attempt :: "http_result \<Rightarrow> payload \<Rightarrow> nat \<Rightarrow> bool \<Rightarrow> webhook \<Rightarrow> webhook" where
  "attempt r p n final w =
     (if wh_send r then end_post final (w\<lparr>wh_delivered := wh_delivered w @ [p]\<rparr>)
      else if n + 1 < 2 then w\<lparr>wh_phase := Posting p (n + 1) final\<rparr>
      else end_post final (w\<lparr>wh_given_up := wh_given_up w @ [p]\<rparr>))"

section \<open>The steps of the system\<close>

text \<open>
  What may happen next: a caller sends or closes, the goroutine receives an event, sees the
  channel closed and empty, sees the timer fire, or gets the result of a request.
\<close>

datatype wh_label =
    LSend alert_event
  | LClose
  | LReceive
  | LDrained "alert_key list" string time
  | LTick "alert_key list" string time
  | LAttempt http_result

inductive wh_step :: "(payload \<Rightarrow> bool) \<Rightarrow> webhook \<Rightarrow> wh_label \<Rightarrow> webhook \<Rightarrow> bool" for marshal where
  step_send: "wh_Send e w = Some w' \<Longrightarrow> wh_step marshal w (LSend e) w'"
| step_close: "wh_Close w = Some w' \<Longrightarrow> wh_step marshal w LClose w'"
| step_receive: "wh_phase w = Looping \<Longrightarrow> wh_events w = e # es \<Longrightarrow>
    wh_step marshal w LReceive (w\<lparr>wh_events := es, wh_batch := add_event e (wh_batch w)\<rparr>)"
| step_drained: "wh_phase w = Looping \<Longrightarrow> wh_events w = [] \<Longrightarrow> wh_closed w \<Longrightarrow>
    distinct ks \<Longrightarrow> set ks = dom (wh_batch w) \<Longrightarrow>
    wh_step marshal w (LDrained ks host now) (begin_post marshal ks host now True w)"
| step_tick: "wh_phase w = Looping \<Longrightarrow> distinct ks \<Longrightarrow> set ks = dom (wh_batch w) \<Longrightarrow>
    wh_step marshal w (LTick ks host now)
      (if ks = [] then w else begin_post marshal ks host now False w)"
| step_attempt: "wh_phase w = Posting p n final \<Longrightarrow>
    wh_step marshal w (LAttempt r) (attempt r p n final w)"

inductive_cases wh_step_cases: "wh_step marshal w l w'"

text \<open>A run from a fresh webhook, with the labels it took.\<close>

inductive wh_run :: "(payload \<Rightarrow> bool) \<Rightarrow> webhook \<Rightarrow> wh_label list \<Rightarrow> webhook \<Rightarrow> bool" for marshal w0 where
  run_start: "wh_run marshal w0 [] w0"
| run_step: "wh_run marshal w0 ls w \<Longrightarrow> wh_step marshal w l w' \<Longrightarrow> wh_run marshal w0 (ls @ [l]) w'"

section \<open>Coalescing\<close>

definition events_of :: "alert_key \<Rightarrow> alert_event list \<Rightarrow> alert_event list" where
  "events_of k es = filter (\<lambda>e. event_key e = k) es"

definition coalesced :: "alert_event list \<Rightarrow> batch" where
  "coalesced es k =
     (let fs = events_of k es in
      if fs = [] then None
      else Some \<lparr>ag_Event = hd fs, ag_Count = int (length fs), ag_Last = ae_At (last fs)\<rparr>)"

lemma events_of_snoc: "events_of k (es @ [e]) = events_of k es @ (if event_key e = k then [e] else [])"
  by (simp add: events_of_def)

lemma add_event_coalesced: "add_event e (coalesced es) = coalesced (es @ [e])"
  by (auto simp: fun_eq_iff add_event_def coalesced_def Let_def events_of_snoc)

lemma fold_add_event: "fold add_event es (\<lambda>_. None) = coalesced es"
proof (induction es rule: rev_induct)
  case Nil
  then show ?case by (simp add: fun_eq_iff coalesced_def events_of_def)
next
  case (snoc e es)
  then show ?case by (simp add: add_event_coalesced)
qed

section \<open>Counting\<close>

definition batch_ok :: "batch \<Rightarrow> bool" where
  "batch_ok b \<longleftrightarrow> finite (dom b) \<and> (\<forall>g \<in> ran b. 0 < ag_Count g)"

definition batch_total :: "batch \<Rightarrow> int" where
  "batch_total b = (\<Sum>k \<in> dom b. ag_Count (the (b k)))"

definition payload_total :: "payload \<Rightarrow> int" where
  "payload_total p = py_Dropped p + sum_list (map rf_Count (py_Refused p))"

definition payloads_total :: "payload list \<Rightarrow> int" where
  "payloads_total ps = sum_list (map payload_total ps)"

lemma batch_empty [simp]: "batch_ok (\<lambda>_. None)" "batch_total (\<lambda>_. None) = 0"
  by (simp_all add: batch_ok_def batch_total_def)

lemma batch_add:
  assumes "batch_ok b"
  shows "batch_ok (add_event e b)" "batch_total (add_event e b) = batch_total b + 1"
    "dom (add_event e b) \<noteq> {}"
proof -
  let ?k = "event_key e"
  let ?g = "case b ?k of Some g \<Rightarrow> g\<lparr>ag_Count := ag_Count g + 1, ag_Last := ae_At e\<rparr>
     | None \<Rightarrow> \<lparr>ag_Event = e, ag_Count = 1, ag_Last = ae_At e\<rparr>"
  have pos: "0 < ag_Count g" if "b k = Some g" for k g
    using assms that by (auto simp: batch_ok_def ran_def)
  have gc: "ag_Count ?g = (case b ?k of Some g \<Rightarrow> ag_Count g | None \<Rightarrow> 0) + 1"
    by (simp split: option.split)
  then have "0 < ag_Count ?g" using pos[of ?k] by (auto split: option.splits)
  then show "batch_ok (add_event e b)"
    using assms by (auto simp: batch_ok_def add_event_def ran_def)
  have f: "finite (dom b)" using assms by (simp add: batch_ok_def)
  have "batch_total (add_event e b) = ag_Count ?g + (\<Sum>k \<in> dom b - {?k}. ag_Count (the (b k)))"
    using f by (simp add: batch_total_def add_event_def sum.insert_remove)
  also have "(\<Sum>k \<in> dom b - {?k}. ag_Count (the (b k))) =
      batch_total b - (case b ?k of Some g \<Rightarrow> ag_Count g | None \<Rightarrow> 0)"
    using f by (auto simp: batch_total_def sum_diff1 dom_def split: option.split)
  finally show "batch_total (add_event e b) = batch_total b + 1" using gc by simp
  show "dom (add_event e b) \<noteq> {}" by (simp add: add_event_def)
qed

lemma make_payload_total:
  assumes "distinct ks" and "set ks = dom b"
  shows "payload_total (make_payload ks host now dropped b) = dropped + batch_total b"
proof -
  have "sum_list (map rf_Count (py_Refused (make_payload ks host now dropped b))) =
      sum_mset (mset (map rf_Count (sort_key refusal_key (map (\<lambda>k. refusal_of (the (b k))) ks))))"
    by (simp only: make_payload_def payload.select_convs sum_mset_sum_list)
  also have "\<dots> = sum_mset (mset (map (\<lambda>k. ag_Count (the (b k))) ks))"
    by (simp add: refusal_of_def multiset.map_comp comp_def)
  also have "\<dots> = batch_total b"
    unfolding sum_mset_sum_list batch_total_def using assms by (simp add: sum_list_distinct_conv_sum_set)
  finally show ?thesis by (simp add: payload_total_def make_payload_def)
qed

section \<open>The invariant\<close>

text \<open>Every event that was sent is somewhere.\<close>

definition accounted :: "webhook \<Rightarrow> int" where
  "accounted w = int (length (wh_events w)) + wh_dropped w
     + (case wh_phase w of Looping \<Rightarrow> batch_total (wh_batch w)
        | Posting p _ _ \<Rightarrow> payload_total p | Finished \<Rightarrow> 0)
     + payloads_total (wh_delivered w) + payloads_total (wh_given_up w)"

fun sends :: "wh_label list \<Rightarrow> int" where
  "sends [] = 0"
| "sends (LSend e # ls) = 1 + sends ls"
| "sends (_ # ls) = sends ls"

definition wh_wf :: "webhook \<Rightarrow> bool" where
  "wh_wf w \<longleftrightarrow> batch_ok (wh_batch w) \<and> int (length (wh_events w)) \<le> wh_Queue w \<and> 0 \<le> wh_dropped w
     \<and> (case wh_phase w of Looping \<Rightarrow> True
        | Posting p n final \<Rightarrow> n < 2 \<and> (final \<longrightarrow> wh_closed w \<and> wh_events w = [])
        | Finished \<Rightarrow> wh_closed w \<and> wh_events w = [])"

lemma sends_append: "sends (xs @ ys) = sends xs + sends ys"
  by (induction xs rule: sends.induct) simp_all

lemma payloads_total_simps [simp]:
  "payloads_total [] = 0" "payloads_total (ps @ [p]) = payloads_total ps + payload_total p"
  by (simp_all add: payloads_total_def)

lemma end_post_simps [simp]:
  "accounted (end_post final w) = int (length (wh_events w)) + wh_dropped w
     + payloads_total (wh_delivered w) + payloads_total (wh_given_up w)"
  "wh_events (end_post final w) = wh_events w" "wh_Queue (end_post final w) = wh_Queue w"
  "wh_closed (end_post final w) = wh_closed w" "wh_dropped (end_post final w) = wh_dropped w"
  "wh_phase (end_post final w) = (if final then Finished else Looping)"
  "wh_batch (end_post final w) = (\<lambda>_. None)"
  "wh_delivered (end_post final w) = wh_delivered w" "wh_given_up (end_post final w) = wh_given_up w"
  by (simp_all add: end_post_def accounted_def)

lemma end_post_wf:
  "wh_wf w \<Longrightarrow> (final \<Longrightarrow> wh_closed w \<and> wh_events w = []) \<Longrightarrow> wh_wf (end_post final w)"
  by (simp add: wh_wf_def split: wh_phase.splits)

lemma begin_post_ok:
  assumes "wh_wf w" and "wh_phase w = Looping" and "distinct ks" and "set ks = dom (wh_batch w)"
    and "final \<Longrightarrow> wh_closed w \<and> wh_events w = []"
  shows "wh_wf (begin_post marshal ks host now final w) \<and> accounted (begin_post marshal ks host now final w) = accounted w
    \<and> wh_Queue (begin_post marshal ks host now final w) = wh_Queue w"
proof (cases "ks = []")
  case True
  then have "wh_batch w = (\<lambda>_. None)" using assms(4) by auto
  then show ?thesis
    using True assms by (simp add: begin_post_def end_post_wf accounted_def[of w])
next
  case False
  define p where "p = make_payload ks host now (wh_dropped w) (wh_batch w)"
  have t: "payload_total p = wh_dropped w + batch_total (wh_batch w)"
    using make_payload_total[OF assms(3,4)] by (simp add: p_def)
  show ?thesis
  proof (cases "marshal p")
    case True
    then show ?thesis
      using False assms t by (simp add: begin_post_def Let_def p_def[symmetric] wh_wf_def accounted_def)
  next
    case no: False
    have "wh_wf (w\<lparr>wh_dropped := 0, wh_given_up := wh_given_up w @ [p]\<rparr>)"
      using assms(1,2) by (simp add: wh_wf_def)
    from end_post_wf[OF this, of final] show ?thesis
      using no False assms t by (simp add: begin_post_def Let_def p_def[symmetric] accounted_def[of w])
  qed
qed

lemma attempt_ok:
  assumes "wh_wf w" and "wh_phase w = Posting p n final"
  shows "wh_wf (attempt r p n final w) \<and> accounted (attempt r p n final w) = accounted w
    \<and> wh_Queue (attempt r p n final w) = wh_Queue w"
  using assms by (auto simp: attempt_def wh_wf_def accounted_def[of w] accounted_def[of "_\<lparr>wh_phase := _\<rparr>"])

lemma step_ok:
  assumes "wh_step marshal w l w'" and "wh_wf w"
  shows "wh_wf w' \<and> accounted w' = accounted w + sends [l] \<and> wh_Queue w' = wh_Queue w"
  using assms
proof (cases rule: wh_step.cases)
  case (step_send e)
  then show ?thesis using assms(2)
    by (auto simp: wh_Send_def wh_wf_def accounted_def split: if_splits wh_phase.splits)
next
  case step_close
  then show ?thesis using assms(2)
    by (auto simp: wh_Close_def wh_wf_def accounted_def split: if_splits wh_phase.splits)
next
  case (step_receive e es)
  then show ?thesis using assms(2) batch_add[of "wh_batch w" e]
    by (auto simp: wh_wf_def accounted_def)
next
  case (step_drained ks host now)
  then show ?thesis using begin_post_ok[OF assms(2)] by simp
next
  case (step_tick ks host now)
  then show ?thesis using assms(2) begin_post_ok[OF assms(2), of ks False] by auto
next
  case (step_attempt p n final r)
  then show ?thesis using attempt_ok[OF assms(2)] by simp
qed

lemma wh_start_ok: "wh_wf (wh_start window q)" "accounted (wh_start window q) = 0"
  by (simp_all add: wh_start_def wh_wf_def accounted_def defaultQueue_def)

lemma wh_run_ok:
  "wh_run marshal w0 ls w \<Longrightarrow> wh_wf w0 \<Longrightarrow>
     wh_wf w \<and> accounted w = accounted w0 + sends ls \<and> wh_Queue w = wh_Queue w0"
  by (induction rule: wh_run.induct) (use step_ok in \<open>auto simp: sends_append\<close>)

section \<open>Shutting down\<close>

text \<open>
  How far a closed webhook is from being done: five steps for an event that waits, at most four
  for the batch in hand.
\<close>

definition wh_left :: "webhook \<Rightarrow> nat" where
  "wh_left w =
     (case wh_phase w of
        Finished \<Rightarrow> 0
      | Looping \<Rightarrow> 5 * length (wh_events w) + (if dom (wh_batch w) = {} then 1 else 5)
      | Posting p n final \<Rightarrow> (if final then 0 else 5 * length (wh_events w) + 1) + (3 - n))"

fun idle_tick :: "wh_label \<Rightarrow> bool" where
  "idle_tick (LTick ks _ _) = (ks = [])"
| "idle_tick _ = False"

fun by_caller :: "wh_label \<Rightarrow> bool" where
  "by_caller (LSend _) = True"
| "by_caller LClose = True"
| "by_caller _ = False"

lemma wh_left_end_post: "wh_left (end_post final w) = (if final then 0 else 5 * length (wh_events w) + 1)"
  by (simp add: wh_left_def)

lemma begin_post_left:
  assumes "wh_phase w = Looping" and "set ks = dom (wh_batch w)" and "final \<or> ks \<noteq> []"
    and "final \<Longrightarrow> wh_events w = []"
  shows "wh_left (begin_post marshal ks host now final w) < wh_left w"
proof (cases "ks = []")
  case True
  then show ?thesis using assms by (auto simp: begin_post_def wh_left_end_post) (simp_all add: wh_left_def)
next
  case False
  then have "dom (wh_batch w) \<noteq> {}" using assms(2) by auto
  then show ?thesis
    using False assms by (auto simp: begin_post_def Let_def wh_left_end_post) (simp_all add: wh_left_def)
qed

lemma step_left:
  assumes "wh_step marshal w l w'" and "wh_wf w" and "\<not> by_caller l" and "\<not> idle_tick l"
  shows "wh_left w' < wh_left w"
  using assms(1)
proof (cases rule: wh_step.cases)
  case (step_receive e es)
  then show ?thesis using assms(2) batch_add(3)[of "wh_batch w" e]
    by (auto simp: wh_wf_def wh_left_def)
next
  case (step_drained ks host now)
  then show ?thesis using begin_post_left by simp
next
  case (step_tick ks host now)
  then show ?thesis using assms(4) begin_post_left by simp
next
  case (step_attempt p n final r)
  then have "n < 2" using assms(2) by (simp add: wh_wf_def)
  then show ?thesis
    using step_attempt by (auto simp: attempt_def wh_left_end_post) (simp_all add: wh_left_def)
qed (use assms(3) in simp_all)

lemma loop_enabled:
  assumes "wh_closed w" and "wh_wf w" and "wh_phase w \<noteq> Finished"
  obtains l w' where "wh_step marshal w l w'" "\<not> by_caller l" "\<not> idle_tick l"
proof (cases "wh_phase w")
  case Looping
  show thesis
  proof (cases "wh_events w")
    case (Cons e es)
    from step_receive[OF Looping this, of marshal] show thesis by (rule that) simp_all
  next
    case Nil
    have f: "finite (dom (wh_batch w))" using assms(2) by (simp add: wh_wf_def batch_ok_def)
    from finite_distinct_list[OF f] obtain ks where ks: "set ks = dom (wh_batch w)" "distinct ks"
      by (elim exE conjE)
    from step_drained[OF Looping Nil assms(1) ks(2,1), of marshal "[]" 0] show thesis by (rule that) simp_all
  qed
next
  case (Posting p n final)
  from step_attempt[OF this, of marshal NoResponse] show thesis by (rule that) simp_all
qed (use assms(3) in simp)

lemma step_keeps_closed: "wh_step marshal w l w' \<Longrightarrow> wh_closed w \<Longrightarrow> wh_closed w'"
  by (erule wh_step_cases)
     (auto simp: wh_Send_def wh_Close_def begin_post_def attempt_def Let_def split: if_splits)

lemma drains:
  assumes "wh_closed w" and "wh_wf w" and "wh_run marshal w0 ls w"
  shows "\<exists>ls' w'. wh_run marshal w0 (ls @ ls') w' \<and> wh_phase w' = Finished \<and> length ls' \<le> wh_left w
    \<and> (\<forall>l \<in> set ls'. \<not> by_caller l)"
  using assms
proof (induction "wh_left w" arbitrary: w ls rule: less_induct)
  case less
  show ?case
  proof (cases "wh_phase w = Finished")
    case True
    then show ?thesis using less.prems by (intro exI[of _ "[]"] exI[of _ w]) simp
  next
    case False
    obtain l w1 where l: "wh_step marshal w l w1" "\<not> by_caller l" "\<not> idle_tick l"
      using loop_enabled[OF less.prems(1,2) False] by blast
    note lt = step_left[OF l(1) less.prems(2) l(2,3)]
    have "wh_wf w1" "wh_closed w1" "wh_run marshal w0 (ls @ [l]) w1"
      using step_ok[OF l(1) less.prems(2)] step_keeps_closed[OF l(1) less.prems(1)]
        run_step[OF less.prems(3) l(1)] by simp_all
    from less.hyps[OF lt this(2,1,3)] obtain ls' w' where r: "wh_run marshal w0 ((ls @ [l]) @ ls') w'"
      "wh_phase w' = Finished" "length ls' \<le> wh_left w1" "\<forall>l \<in> set ls'. \<not> by_caller l" by blast
    then show ?thesis using lt l(2) by (intro exI[of _ "l # ls'"] exI[of _ w']) simp
  qed
qed

lemma wh_left_bound: "wh_wf w \<Longrightarrow> wh_left w \<le> 5 * length (wh_events w) + 5"
  by (auto simp: wh_left_def wh_wf_def split: wh_phase.splits)

text \<open>An event to a given port, for examples.\<close>

definition alert_event_to :: "u16 \<Rightarrow> alert_event" where
  "alert_event_to port =
     \<lparr>ae_At = 0, ae_Rule = [], ae_Host = [], ae_IP = Addr4 7, ae_Port = port, ae_Proto = ''tcp'',
      ae_Cgroup = []\<rparr>"

section \<open>Properties\<close>

text \<open>
  C16: no event is lost without a trace: in every reachable state the number of events that were
  sent is the number of those that wait in the queue, are counted as dropped, are in the batch or
  the payload in hand, were delivered or were in a payload that was given up after its retry.
\<close>

theorem events_accounted:
  assumes "wh_run marshal (wh_start window q) ls w"
  shows "sends ls = accounted w"
  using wh_run_ok[OF assms wh_start_ok(1)] wh_start_ok(2)[of window q] by simp

text \<open>
  C32: \<open>Send\<close> never blocks and never grows the queue past its bound: before \<open>Close\<close> it succeeds in
  every reachable state, whatever the goroutine is doing, and at most \<open>wh_Queue\<close> events wait; a
  webhook whose fields are not set waits for at most 2048.
\<close>

theorem Send_never_blocks:
  assumes "wh_run marshal (wh_start window q) ls w"
  shows "int (length (wh_events w)) \<le> (if q \<le> 0 then 2048 else q)
    \<and> (\<not> wh_closed w \<longrightarrow> (\<exists>w'. wh_step marshal w (LSend e) w' \<and> wh_phase w' = wh_phase w
          \<and> length (wh_events w') + nat (wh_dropped w') = length (wh_events w) + nat (wh_dropped w) + 1))"
proof -
  have w: "wh_wf w" "wh_Queue w = (if q \<le> 0 then 2048 else q)"
    using wh_run_ok[OF assms wh_start_ok(1)] by (simp_all add: wh_start_def defaultQueue_def)
  moreover have "\<exists>w'. wh_step marshal w (LSend e) w' \<and> wh_phase w' = wh_phase w
      \<and> length (wh_events w') + nat (wh_dropped w') = length (wh_events w) + nat (wh_dropped w) + 1"
    if "\<not> wh_closed w"
  proof -
    have "wh_Send e w \<noteq> None" using that by (simp add: wh_Send_def)
    then obtain w' where s: "wh_Send e w = Some w'" by blast
    moreover have "wh_phase w' = wh_phase w
      \<and> length (wh_events w') + nat (wh_dropped w') = length (wh_events w) + nat (wh_dropped w) + 1"
      using s w(1) that by (auto simp: wh_Send_def wh_wf_def split: if_splits)
    ultimately show ?thesis using step_send by blast
  qed
  ultimately show ?thesis by (auto simp: wh_wf_def)
qed

text \<open>
  C33: \<open>Close\<close> returns: once the channel is closed, the goroutine alone can always get to its end,
  in at most five steps per waiting event and five more, whatever the endpoint answers, and no
  step of it other than the timer firing on an empty batch fails to bring it closer.
\<close>

theorem Close_drains:
  assumes "wh_run marshal (wh_start window q) ls w" and "wh_closed w"
  shows "(\<exists>ls' w'. wh_run marshal (wh_start window q) (ls @ ls') w' \<and> wh_phase w' = Finished
       \<and> length ls' \<le> 5 * length (wh_events w) + 5 \<and> (\<forall>l \<in> set ls'. \<not> by_caller l))
    \<and> (\<forall>l w'. wh_step marshal w l w' \<longrightarrow> \<not> by_caller l \<longrightarrow> \<not> idle_tick l \<longrightarrow> wh_left w' < wh_left w)"
proof -
  have wf: "wh_wf w" using wh_run_ok[OF assms(1) wh_start_ok(1)] by simp
  from drains[OF assms(2) wf assms(1)] wh_left_bound[OF wf] step_left[OF _ wf]
  show ?thesis by (meson order_trans)
qed

text \<open>
  A process that retries in a loop is one line: the batch holds one group per destination,
  rule and origin, with the first event, the number of events and the time of the last.
\<close>

theorem batch_coalesces: "fold add_event es (\<lambda>_. None) = coalesced es"
  by (rule fold_add_event)

text \<open>
  The count of what was thrown away can be lost: \<open>post\<close> takes it out before the requests, and
  when both fail it is gone. Here three events are sent, two never arrive, and the only payload
  the endpoint accepts says that nothing was dropped.
\<close>

theorem dropped_count_lost:
  "\<exists>ls w p. wh_run (\<lambda>_. True) (wh_start 0 1) ls w \<and> sends ls = 3 \<and> wh_delivered w = [p]
     \<and> py_Dropped p = 0 \<and> payload_total p = 1 \<and> wh_dropped w = 0 \<and> wh_events w = []
     \<and> wh_phase w = Looping"
proof -
  let ?e = "alert_event_to 1" and ?ks = "[event_key (alert_event_to 1)]"
  let ?r = "wh_run (\<lambda>_. True) (wh_start 0 1)"
  let ?b = "add_event ?e (\<lambda>_. None)"
  let ?p = "make_payload ?ks [] 0 1 ?b" and ?q = "make_payload ?ks [] 0 0 ?b"
  let ?w = "wh_start 0 1"
  note simps = wh_start_def wh_Send_def begin_post_def attempt_def end_post_def wh_send_def
  have d: "dom ?b = set ?ks" by (simp add: add_event_def)
  have "?r [] ?w" by (rule run_start)
  from run_step[OF this step_send[where e = ?e]] have "?r [LSend ?e] (?w\<lparr>wh_events := [?e]\<rparr>)" by (simp add: simps)
  from run_step[OF this step_send[where e = ?e]] have "?r [LSend ?e, LSend ?e] (?w\<lparr>wh_events := [?e], wh_dropped := 1\<rparr>)"
    by (simp add: simps)
  from run_step[OF this step_receive[where e = ?e and es = "[]"]]
  have "?r [LSend ?e, LSend ?e, LReceive] (?w\<lparr>wh_dropped := 1, wh_batch := ?b\<rparr>)" by (simp add: simps)
  from run_step[OF this step_tick[where ks = ?ks and host = "[]" and now = 0]]
  have "?r [LSend ?e, LSend ?e, LReceive, LTick ?ks [] 0] (?w\<lparr>wh_batch := ?b, wh_phase := Posting ?p 0 False\<rparr>)"
    by (simp add: simps d)
  from run_step[OF this step_attempt[where p = ?p and n = 0 and final = False and r = NoResponse]]
  have "?r [LSend ?e, LSend ?e, LReceive, LTick ?ks [] 0, LAttempt NoResponse]
      (?w\<lparr>wh_batch := ?b, wh_phase := Posting ?p 1 False\<rparr>)" by (simp add: simps)
  from run_step[OF this step_attempt[where p = ?p and n = 1 and final = False and r = NoResponse]]
  have "?r [LSend ?e, LSend ?e, LReceive, LTick ?ks [] 0, LAttempt NoResponse, LAttempt NoResponse]
      (?w\<lparr>wh_given_up := [?p]\<rparr>)" by (simp add: simps)
  from run_step[OF this step_send[where e = ?e]]
  have "?r [LSend ?e, LSend ?e, LReceive, LTick ?ks [] 0, LAttempt NoResponse, LAttempt NoResponse, LSend ?e]
      (?w\<lparr>wh_given_up := [?p], wh_events := [?e]\<rparr>)" by (simp add: simps)
  from run_step[OF this step_receive[where e = ?e and es = "[]"]]
  have "?r [LSend ?e, LSend ?e, LReceive, LTick ?ks [] 0, LAttempt NoResponse, LAttempt NoResponse, LSend ?e, LReceive]
      (?w\<lparr>wh_given_up := [?p], wh_batch := ?b\<rparr>)" by (simp add: simps)
  from run_step[OF this step_tick[where ks = ?ks and host = "[]" and now = 0]]
  have "?r [LSend ?e, LSend ?e, LReceive, LTick ?ks [] 0, LAttempt NoResponse, LAttempt NoResponse, LSend ?e, LReceive,
      LTick ?ks [] 0] (?w\<lparr>wh_given_up := [?p], wh_batch := ?b, wh_phase := Posting ?q 0 False\<rparr>)"
    by (simp add: simps d)
  from run_step[OF this step_attempt[where p = ?q and n = 0 and final = False and r = "Status 200"]]
  have "?r [LSend ?e, LSend ?e, LReceive, LTick ?ks [] 0, LAttempt NoResponse, LAttempt NoResponse, LSend ?e, LReceive,
      LTick ?ks [] 0, LAttempt (Status 200)] (?w\<lparr>wh_given_up := [?p], wh_delivered := [?q]\<rparr>)" by (simp add: simps)
  moreover have "payload_total ?q = 1"
    using make_payload_total[of ?ks ?b "[]" 0 0] d batch_add(2)[of "\<lambda>_. None" ?e] by simp
  moreover have "py_Dropped ?q = 0" by (simp add: make_payload_def)
  ultimately show ?thesis by (fastforce simp: wh_start_def)
qed


lemma events_accounted_witness:
  "sends [LSend (alert_event_to 1), LClose] =
     accounted ((wh_start 0 0)\<lparr>wh_events := [alert_event_to 1], wh_closed := True\<rparr>)"
proof -
  note simps = wh_start_def wh_Send_def wh_Close_def defaultQueue_def
  from run_step[OF run_start step_send[where e = "alert_event_to 1"]]
  have "wh_run (\<lambda>_. True) (wh_start 0 0) [LSend (alert_event_to 1)] ((wh_start 0 0)\<lparr>wh_events := [alert_event_to 1]\<rparr>)"
    by (simp add: simps)
  from run_step[OF this step_close]
  have "wh_run (\<lambda>_. True) (wh_start 0 0) [LSend (alert_event_to 1), LClose]
      ((wh_start 0 0)\<lparr>wh_events := [alert_event_to 1], wh_closed := True\<rparr>)"
    by (simp add: simps)
  from events_accounted[OF this] show ?thesis .
qed

lemma Send_never_blocks_witness:
  "\<exists>w'. wh_step (\<lambda>_. True) (wh_start 0 5) (LSend (alert_event_to 1)) w'"
proof -
  have "\<not> wh_closed (wh_start 0 5)" by (simp add: wh_start_def)
  with Send_never_blocks[OF run_start, where marshal = "\<lambda>_. True" and window = 0 and q = 5 and e = "alert_event_to 1"] show ?thesis by blast
qed

lemma Close_drains_witness:
  "\<exists>ls' w'. wh_run (\<lambda>_. True) (wh_start 0 0) ([LClose] @ ls') w' \<and> wh_phase w' = Finished \<and> length ls' \<le> 5"
proof -
  from run_step[OF run_start step_close]
  have "wh_run (\<lambda>_. True) (wh_start 0 0) [LClose] ((wh_start 0 0)\<lparr>wh_closed := True\<rparr>)"
    by (simp add: wh_start_def wh_Close_def)
  from conjunct1[OF Close_drains[OF this]] show ?thesis by (auto simp: wh_start_def)
qed

end
