(* ===== verification/Procs.thy ===== *)
theory Procs
  imports Policy
begin

text \<open>
  \<^verbatim>\<open>internal/procs/procs.go\<close> and \<^verbatim>\<open>lookup_linux.go\<close>: from the local address of a connection to the
  process behind it. The file system under \<^verbatim>\<open>/proc\<close> is a record of what reading it gives, \<open>None\<close>
  being an error; a file name is a plain name, so joining paths is appending.
\<close>

section \<open>Reading a row of a socket table\<close>

record owner_info =
  ow_PID :: int
  ow_Comm :: string
  ow_Cgroup :: string

record net_entry =
  ne_local :: addr
  ne_port :: u16
  ne_inode :: u64

text \<open>\<^verbatim>\<open>hex.DecodeString\<close>.\<close>

fun hex_decode :: "string \<Rightarrow> bytes option" where
  "hex_decode [] = Some []"
| "hex_decode [c] = None"
| "hex_decode (c # d # cs) =
     (case hex_val c of
        None \<Rightarrow> None
      | Some h \<Rightarrow>
          (case hex_val d of
             None \<Rightarrow> None
           | Some l \<Rightarrow> map_option (\<lambda>bs. of_nat (h * 16 + l) # bs) (hex_decode cs)))"

text \<open>The switch over the length of the address: words of four bytes, each reversed.\<close>

definition net_addr :: "bytes \<Rightarrow> addr option" where
  "net_addr raw =
     (if length raw = 4 then Some (AddrFrom4 [raw ! 3, raw ! 2, raw ! 1, raw ! 0])
      else if length raw = 16 then
        Some (Unmap (AddrFrom16 (concat (map (\<lambda>w.
          [raw ! (w * 4 + 3), raw ! (w * 4 + 2), raw ! (w * 4 + 1), raw ! (w * 4)]) [0..<4]))))
      else None)"

definition parseNetLine :: "string \<Rightarrow> net_entry option" where
  "parseNetLine line =
     (let f = str_Fields line in
      if length f < 10 \<or> \<not> HasSuffix (f ! 0) '':'' then None
      else
        case str_Cut (f ! 1) '':'' of
          None \<Rightarrow> None
        | Some (addr, portHex) \<Rightarrow>
            (case hex_decode addr of
               None \<Rightarrow> None
             | Some raw \<Rightarrow>
                 (case ParseUint portHex 16 16 of
                    None \<Rightarrow> None
                  | Some port \<Rightarrow>
                      (case ParseUint (f ! 9) 10 64 of
                         None \<Rightarrow> None
                       | Some inode \<Rightarrow>
                           map_option (\<lambda>ip. \<lparr>ne_local = ip, ne_port = of_nat port, ne_inode = of_nat inode\<rparr>)
                             (net_addr raw)))))"

text \<open>The first line with the prefix of cgroup v2.\<close>

definition cgroupFromProc :: "string \<Rightarrow> string" where
  "cgroupFromProc contents =
     (case find (\<lambda>line. HasPrefix line ''0::'') (str_Split contents (CHR 0x0A)) of
        None \<Rightarrow> []
      | Some line \<Rightarrow> TrimChar (drop 3 line) (CHR ''/''))"

section \<open>Walking /proc\<close>

record proc_fs =
  pf_ReadFile :: "string \<Rightarrow> string option"
  pf_ReadDir :: "string \<Rightarrow> string list option"
  pf_Readlink :: "string \<Rightarrow> string option"

text \<open>
  \<^verbatim>\<open>bufio.Scanner\<close> over lines: a last line without a newline counts when it is not empty, a
  carriage return at the end is dropped, and a line of 64 KB or more ends the scan.
\<close>

definition drop_CR :: "string \<Rightarrow> string" where
  "drop_CR l = (if l \<noteq> [] \<and> last l = CHR 0x0D then butlast l else l)"

definition scan_lines :: "string \<Rightarrow> string list" where
  "scan_lines s =
     (let ls = str_Split s (CHR 0x0A); ls = (if last ls = [] then butlast ls else ls) in
      map drop_CR (takeWhile (\<lambda>l. length l < 65536) ls))"

text \<open>The loop over the lines of one table: \<open>Inl\<close> the early return, \<open>Inr\<close> the fallback so far.\<close>

fun scan_table :: "addr \<Rightarrow> u16 \<Rightarrow> string list \<Rightarrow> u64 \<Rightarrow> u64 + u64" where
  "scan_table local port [] fallback = Inr fallback"
| "scan_table local port (l # ls) fallback =
     (case parseNetLine l of
        None \<Rightarrow> scan_table local port ls fallback
      | Some e \<Rightarrow>
          if ne_port e \<noteq> port \<or> ne_inode e = 0 then scan_table local port ls fallback
          else if ne_local e = local then Inl (ne_inode e)
          else if IsUnspecified (ne_local e) \<and> fallback = 0 then scan_table local port ls (ne_inode e)
          else scan_table local port ls fallback)"

fun scan_files :: "proc_fs \<Rightarrow> addr \<Rightarrow> u16 \<Rightarrow> string list \<Rightarrow> u64 \<Rightarrow> u64 + u64" where
  "scan_files F local port [] fallback = Inr fallback"
| "scan_files F local port (path # paths) fallback =
     (case pf_ReadFile F path of
        None \<Rightarrow> scan_files F local port paths fallback
      | Some s \<Rightarrow>
          (case scan_table local port (scan_lines s) fallback of
             Inl i \<Rightarrow> Inl i
           | Inr fallback \<Rightarrow> scan_files F local port paths fallback))"

definition findInode :: "proc_fs \<Rightarrow> addr \<Rightarrow> u16 \<Rightarrow> string \<Rightarrow> u64 option" where
  "findInode F local port proto =
     (case scan_files F (Unmap local) port [''/proc/net/'' @ proto, ''/proc/net/'' @ proto @ ''6''] 0 of
        Inl i \<Rightarrow> Some i
      | Inr fallback \<Rightarrow> if fallback \<noteq> 0 then Some fallback else None)"

text \<open>\<^verbatim>\<open>strconv.Atoi\<close> on a 64-bit machine.\<close>

definition Atoi :: "string \<Rightarrow> int option" where
  "Atoi s =
     (let (neg, t) = (case s of c # cs \<Rightarrow> if c = CHR ''-'' then (True, cs)
                                 else if c = CHR ''+'' then (False, cs) else (False, s)
                      | [] \<Rightarrow> (False, [])) in
      case ParseUint t 10 64 of
        None \<Rightarrow> None
      | Some n \<Rightarrow>
          if neg then (if n \<le> 2 ^ 63 then Some (- int n) else None)
          else if n < 2 ^ 63 then Some (int n) else None)"

fun findPID_dirs :: "proc_fs \<Rightarrow> string \<Rightarrow> string list \<Rightarrow> int option" where
  "findPID_dirs F want [] = None"
| "findPID_dirs F want (d # ds) =
     (case Atoi d of
        None \<Rightarrow> findPID_dirs F want ds
      | Some pid \<Rightarrow>
          (let fdDir = ''/proc/'' @ d @ ''/fd'' in
           case pf_ReadDir F fdDir of
             None \<Rightarrow> findPID_dirs F want ds
           | Some fds \<Rightarrow>
               if list_ex (\<lambda>fd. pf_Readlink F (fdDir @ ''/'' @ fd) = Some want) fds then Some pid
               else findPID_dirs F want ds))"

definition findPID :: "proc_fs \<Rightarrow> u64 \<Rightarrow> int option" where
  "findPID F inode =
     (case pf_ReadDir F ''/proc'' of
        None \<Rightarrow> None
      | Some dirs \<Rightarrow> findPID_dirs F (''socket:['' @ itoa (unat inode) @ '']'') dirs)"

definition procs_Lookup :: "proc_fs \<Rightarrow> addr \<Rightarrow> u16 \<Rightarrow> string \<Rightarrow> owner_info option" where
  "procs_Lookup F local port proto =
     (case findInode F local port proto of
        None \<Rightarrow> None
      | Some inode \<Rightarrow>
          (case findPID F inode of
             None \<Rightarrow> None
           | Some pid \<Rightarrow>
               Some \<lparr>ow_PID = pid,
                     ow_Comm = (case pf_ReadFile F (''/proc/'' @ int_string pid @ ''/comm'') of
                                  None \<Rightarrow> [] | Some s \<Rightarrow> TrimSpace s),
                     ow_Cgroup = (case pf_ReadFile F (''/proc/'' @ int_string pid @ ''/cgroup'') of
                                    None \<Rightarrow> [] | Some s \<Rightarrow> cgroupFromProc s)\<rparr>))"

section \<open>The kernel's hex text\<close>

definition hex_upper :: "nat \<Rightarrow> char" where
  "hex_upper d = (if d < 10 then char_of (48 + d) else char_of (55 + d))"

definition hex_bytes :: "bytes \<Rightarrow> string" where
  "hex_bytes bs = concat (map (\<lambda>b. [hex_upper (unat b div 16), hex_upper (unat b mod 16)]) bs)"

lemma hex_upper_val:
  assumes "d < 16"
  shows "hex_val (hex_upper d) = Some d" "digit_val (hex_upper d) = Some d" "hex_upper d \<noteq> CHR '':''"
proof -
  have "\<forall>d \<in> set [0..<16]. hex_val (hex_upper d) = Some d \<and> digit_val (hex_upper d) = Some d \<and> hex_upper d \<noteq> CHR '':''"
    by code_simp
  then show "hex_val (hex_upper d) = Some d" "digit_val (hex_upper d) = Some d" "hex_upper d \<noteq> CHR '':''"
    using assms by simp_all
qed

lemma unat_byte_digits: "unat (b :: byte) div 16 < 16" "unat (b :: byte) mod 16 < 16"
proof -
  have "unat b < 2 ^ LENGTH(8)" by (rule unsigned_less)
  then show "unat b div 16 < 16" "unat b mod 16 < 16" by auto
qed

lemma hex_decode_hex_bytes: "hex_decode (hex_bytes bs) = Some bs"
proof (induction bs)
  case (Cons b bs)
  have "unat b div 16 * 16 + unat b mod 16 = unat b" by simp
  then have "(of_nat (unat b div 16 * 16 + unat b mod 16) :: byte) = b" by simp
  with Cons show ?case by (simp add: hex_bytes_def hex_upper_val unat_byte_digits del: of_nat_add of_nat_mult)
qed (simp add: hex_bytes_def)

lemma hex_bytes_no_colon: "CHR '':'' \<notin> set (hex_bytes bs)"
proof -
  have "CHR '':'' \<noteq> hex_upper (unat b div 16)" "CHR '':'' \<noteq> hex_upper (unat b mod 16)" for b :: byte
    using hex_upper_val(3)[OF unat_byte_digits(1)[of b]] hex_upper_val(3)[OF unat_byte_digits(2)[of b]] by metis+
  then show ?thesis by (simp add: hex_bytes_def)
qed

lemma be16_bytes: "be16 v = [ucast (drop_bit 8 v), ucast v]"
  by (simp add: be16_eq_word_bytes numeral_2_eq_2)

lemma ParseUint_hex_port: "ParseUint (hex_bytes (be16 v)) 16 16 = Some (unat v)"
proof -
  have "unat v < 2 ^ LENGTH(16)" by (rule unsigned_less)
  then have v: "unat v < 65536" by simp
  have u: "unat (ucast (drop_bit 8 v) :: byte) = unat v div 256" "unat (ucast v :: byte) = unat v mod 256"
    using v by (simp_all add: unsigned_ucast_eq unsigned_take_bit_eq unsigned_drop_bit_eq take_bit_eq_mod drop_bit_eq_div unat_div_distrib less_mult_imp_div_less)
  have h: "n div 256 * 256 + n mod 256 = n" "n div 256 div 16 * 16 + n div 256 mod 16 = n div 256"
    "n mod 256 div 16 * 16 + n mod 256 mod 16 = n mod 256" for n :: nat
    by simp_all
  have "((n div 256 div 16 * 16 + n div 256 mod 16) * 16 + n mod 256 div 16) * 16 + n mod 256 mod 16 = n" for n :: nat
  proof -
    have "((c * 16 + d) * 16 + e) * 16 + f = n" if "a * 256 + b = n" "c * 16 + d = a" "e * 16 + f = b"
      for a b c d e f :: nat
      using that by simp
    from this[OF h] show ?thesis .
  qed
  moreover have "unat v mod 256 mod 16 < 16" "unat v mod 256 div 16 < 16" "unat v div 256 mod 16 < 16"
    by (simp_all add: less_mult_imp_div_less)
  moreover have "unat v div 256 div 16 < 16" using v by (simp add: less_mult_imp_div_less)
  ultimately show ?thesis
    using v by (simp add: ParseUint_def hex_bytes_def be16_bytes u hex_upper_val not_le)
qed

text \<open>The address as the kernel prints it: each word of four bytes back to front.\<close>

definition kernel_order :: "bytes \<Rightarrow> bytes" where
  "kernel_order bs = concat (map (\<lambda>w. rev (take 4 (drop (4 * w) bs))) [0..<length bs div 4])"

lemma list4: "length bs = 4 \<Longrightarrow> \<exists>a b c d. bs = [a, b, c, d]"
  by (auto simp: length_Suc_conv numeral_eq_Suc)

lemma net_addr_kernel4: "net_addr (kernel_order (word_bytes 4 w)) = Some (Addr4 w)"
proof -
  obtain a b c d where bs: "word_bytes 4 w = [a, b, c, d]" using list4[of "word_bytes 4 w"] by auto
  have "be_word (word_bytes 4 w) = w" by (rule be_word_word_bytes) simp
  then show ?thesis unfolding bs by (simp add: kernel_order_def net_addr_def AddrFrom4_def)
qed

lemma list16: "length bs = 16 \<Longrightarrow>
  \<exists>a0 a1 a2 a3 b0 b1 b2 b3 c0 c1 c2 c3 d0 d1 d2 d3. bs = [a0, a1, a2, a3, b0, b1, b2, b3, c0, c1, c2, c3, d0, d1, d2, d3]"
  by (auto simp: length_Suc_conv numeral_eq_Suc)

lemma net_addr_kernel6: "net_addr (kernel_order (word_bytes 16 w)) = Some (Unmap (Addr6 w []))"
proof -
  obtain a0 a1 a2 a3 b0 b1 b2 b3 c0 c1 c2 c3 d0 d1 d2 d3 where
    bs: "word_bytes 16 w = [a0, a1, a2, a3, b0, b1, b2, b3, c0, c1, c2, c3, d0, d1, d2, d3]"
    using list16[of "word_bytes 16 w"] by auto
  have e: "be_word (word_bytes 16 w) = w" by (rule be_word_word_bytes) simp
  have "[0..<4] = [0, 1, 2, 3 :: nat]" by code_simp
  then have "net_addr (kernel_order (word_bytes 16 w)) = Some (Unmap (AddrFrom16 (word_bytes 16 w)))"
    unfolding bs by (simp add: kernel_order_def net_addr_def)
  then show ?thesis by (simp add: AddrFrom16_def e)
qed

section \<open>Looking up\<close>

text \<open>The usable rows of a table for a port, in order.\<close>

definition rows :: "u16 \<Rightarrow> string list \<Rightarrow> net_entry list" where
  "rows port ls =
     filter (\<lambda>e. ne_port e = port \<and> ne_inode e \<noteq> 0) (List.map_filter parseNetLine ls)"

definition pick_row :: "addr \<Rightarrow> net_entry list \<Rightarrow> u64 option" where
  "pick_row local es =
     (case find (\<lambda>e. ne_local e = local) es of
        Some e \<Rightarrow> Some (ne_inode e)
      | None \<Rightarrow> map_option ne_inode (find (\<lambda>e. IsUnspecified (ne_local e)) es))"

lemma rows_Cons:
  "rows port (l # ls) = (case parseNetLine l of None \<Rightarrow> rows port ls
     | Some e \<Rightarrow> if ne_port e \<noteq> port \<or> ne_inode e = 0 then rows port ls else e # rows port ls)"
  by (auto simp: rows_def List.map_filter_simps split: option.split)

lemma rows_append: "rows port (xs @ ys) = rows port xs @ rows port ys"
  by (induction xs) (auto simp: rows_Cons rows_def[of port "[]"] List.map_filter_simps split: option.splits)

text \<open>The state of the scan after some rows, as a function of the rows.\<close>

definition row_state :: "addr \<Rightarrow> u64 \<Rightarrow> net_entry list \<Rightarrow> u64 + u64" where
  "row_state local fallback es =
     (case find (\<lambda>e. ne_local e = local) es of
        Some e \<Rightarrow> Inl (ne_inode e)
      | None \<Rightarrow>
          Inr (if fallback \<noteq> 0 then fallback
               else case find (\<lambda>e. IsUnspecified (ne_local e)) es of None \<Rightarrow> 0 | Some e \<Rightarrow> ne_inode e))"

lemma scan_table_rows: "scan_table local port ls fallback = row_state local fallback (rows port ls)"
proof (induction ls arbitrary: fallback)
  case Nil
  then show ?case by (simp add: rows_def row_state_def List.map_filter_simps)
next
  case (Cons l ls)
  then show ?case
    by (auto simp: rows_Cons row_state_def split: option.splits)
qed

lemma row_inode: "e \<in> set (rows port ls) \<Longrightarrow> ne_inode e \<noteq> 0"
  by (simp add: rows_def)

lemma row_state_append:
  assumes "\<forall>e \<in> set es. ne_inode e \<noteq> 0"
  shows "row_state local fallback (es @ fs) =
    (case row_state local fallback es of Inl i \<Rightarrow> Inl i | Inr fb \<Rightarrow> row_state local fb fs)"
proof -
  have "ne_inode e \<noteq> 0" if "find P es = Some e" for P e
    using that assms by (auto simp: find_Some_iff)
  then show ?thesis by (auto simp: row_state_def find_append split: option.splits)
qed

text \<open>The rows of every table that can be read.\<close>

definition table_rows :: "proc_fs \<Rightarrow> u16 \<Rightarrow> string list \<Rightarrow> net_entry list" where
  "table_rows F port paths =
     concat (map (\<lambda>p. case pf_ReadFile F p of None \<Rightarrow> [] | Some s \<Rightarrow> rows port (scan_lines s)) paths)"

lemma scan_files_rows: "scan_files F local port paths fallback = row_state local fallback (table_rows F port paths)"
proof (induction paths arbitrary: fallback)
  case Nil
  then show ?case by (simp add: table_rows_def row_state_def)
next
  case (Cons p ps)
  show ?case
  proof (cases "pf_ReadFile F p")
    case None
    with Cons show ?thesis by (simp add: table_rows_def)
  next
    case (Some s)
    have "table_rows F port (p # ps) = rows port (scan_lines s) @ table_rows F port ps"
      using Some by (simp add: table_rows_def)
    moreover have "\<forall>e \<in> set (rows port (scan_lines s)). ne_inode e \<noteq> 0" using row_inode by blast
    ultimately show ?thesis
      using Some Cons by (simp add: row_state_append scan_table_rows split: sum.split)
  qed
qed

lemma findInode_rows:
  "findInode F local port proto =
     pick_row (Unmap local) (table_rows F port [''/proc/net/'' @ proto, ''/proc/net/'' @ proto @ ''6''])"
proof -
  let ?es = "table_rows F port [''/proc/net/'' @ proto, ''/proc/net/'' @ proto @ ''6'']"
  have "ne_inode e \<noteq> 0" if "find P ?es = Some e" for P e
  proof -
    have "e \<in> set ?es" using that by (auto simp: find_Some_iff)
    then show ?thesis by (auto simp: table_rows_def row_inode split: option.splits)
  qed
  then show ?thesis
    by (auto simp: findInode_def scan_files_rows row_state_def pick_row_def split: option.splits)
qed

text \<open>A directory of /proc that belongs to a process with the given link among its descriptors.\<close>

definition holds_link :: "proc_fs \<Rightarrow> string \<Rightarrow> string \<Rightarrow> bool" where
  "holds_link F want d \<longleftrightarrow> Atoi d \<noteq> None \<and>
     (\<exists>fds. pf_ReadDir F (''/proc/'' @ d @ ''/fd'') = Some fds
        \<and> (\<exists>fd \<in> set fds. pf_Readlink F (''/proc/'' @ d @ ''/fd/'' @ fd) = Some want))"

lemma findPID_dirs_find: "findPID_dirs F want ds = Option.bind (find (holds_link F want) ds) Atoi"
  by (induction ds) (auto simp: holds_link_def Let_def list_ex_iff split: option.splits)

section \<open>Properties\<close>

text \<open>
  C38: a row of a socket table reads back as its socket: the address is the kernel's hex text of it,
  words of four bytes back to front, with an IPv4-mapped address reduced to IPv4; the port is in
  hex and the inode the tenth field, whatever the other fields hold.
\<close>

theorem parseNetLine_roundtrip:
  assumes "str_Fields line = (slot @ '':'') # (hex_bytes (kernel_order (AsSlice a)) @ '':'' @ hex_bytes (be16 port))
      # mid @ itoa (unat inode) # rest"
    and "length mid = 7" and "IsValid a" and "\<not> hasZone a"
  shows "parseNetLine line = Some \<lparr>ne_local = Unmap a, ne_port = port, ne_inode = inode\<rparr>"
proof -
  let ?f = "str_Fields line"
  have f: "?f ! 0 = slot @ '':''" "?f ! 1 = hex_bytes (kernel_order (AsSlice a)) @ '':'' @ hex_bytes (be16 port)"
    "?f ! 9 = itoa (unat inode)" "\<not> length ?f < 10"
    using assms(2) by (simp_all add: assms(1) nth_append nth_Cons')
  have c: "str_Cut (?f ! 1) '':'' = Some (hex_bytes (kernel_order (AsSlice a)), hex_bytes (be16 port))"
    unfolding f(2) using str_Cut_char[OF hex_bytes_no_colon] by simp
  have i: "ParseUint (?f ! 9) 10 64 = Some (unat inode)"
  proof -
    have "unat inode < 2 ^ LENGTH(64)" by (rule unsigned_less)
    then show ?thesis unfolding f(3) by (intro ParseUint_itoa) simp
  qed
  have n: "net_addr (kernel_order (AsSlice a)) = Some (Unmap a)"
    using assms(3,4) net_addr_kernel4 net_addr_kernel6 by (cases a) simp_all
  show ?thesis
    unfolding parseNetLine_def Let_def c
    using f(1,4) by (simp only: HasSuffix_append if_False simp_thms option.case prod.case
        hex_decode_hex_bytes ParseUint_hex_port i n) simp
qed

text \<open>
  C39: the inode of a local address is that of the first row with the address and port, in the
  IPv4 table before the IPv6 one; failing that, that of the first row bound to the unspecified
  address on the port. Tables that cannot be read, malformed rows and rows without an inode are
  skipped.
\<close>

theorem findInode_spec:
  "findInode F local port proto =
     (let es = table_rows F port [''/proc/net/'' @ proto, ''/proc/net/'' @ proto @ ''6''] in
      case find (\<lambda>e. ne_local e = Unmap local) es of
        Some e \<Rightarrow> Some (ne_inode e)
      | None \<Rightarrow> map_option ne_inode (find (\<lambda>e. IsUnspecified (ne_local e)) es))"
  by (simp only: findInode_rows pick_row_def Let_def)

text \<open>
  \<open>Lookup\<close> finds the process of a connection when there is one to find: its pid is that of the
  first directory of /proc with a descriptor linked to the socket's inode, and there is no
  answer exactly when no row names an inode or no process holds it.
\<close>

theorem Lookup_spec:
  "map_option ow_PID (procs_Lookup F local port proto) =
     (case findInode F local port proto of
        None \<Rightarrow> None
      | Some inode \<Rightarrow>
          (case pf_ReadDir F ''/proc'' of
             None \<Rightarrow> None
           | Some dirs \<Rightarrow>
               Option.bind (find (holds_link F (''socket:['' @ itoa (unat inode) @ '']'')) dirs) Atoi))"
  by (auto simp: procs_Lookup_def findPID_def findPID_dirs_find split: option.split)

lemma parseNetLine_roundtrip_witness:
  "parseNetLine ''   1: 0100007F:1F90 00000000:0000 0A 00000000:00000000 00:00000000 00000000  0  0 12345 1'' =
     Some \<lparr>ne_local = Addr4 0x7f000001, ne_port = 8080, ne_inode = 12345\<rparr>"
proof -
  have "str_Fields ''   1: 0100007F:1F90 00000000:0000 0A 00000000:00000000 00:00000000 00000000  0  0 12345 1'' =
    (''1'' @ '':'') # (hex_bytes (kernel_order (AsSlice (Addr4 0x7f000001))) @ '':'' @ hex_bytes (be16 8080))
      # [''00000000:0000'', ''0A'', ''00000000:00000000'', ''00:00000000'', ''00000000'', ''0'', ''0'']
        @ itoa (unat (12345 :: u64)) # [''1'']"
    by code_simp
  from parseNetLine_roundtrip[OF this] show ?thesis by simp
qed

end
