(* ===== verification/Enforce.thy ===== *)
theory Enforce
  imports Nft_Apply Dnswatch Packet Kmsg Alert Procs
begin

text \<open>
  \<^verbatim>\<open>cmd/egresswall/enforce.go\<close>: the daemon that keeps the table fed. The netlink environment \<open>E\<close>,
  the DNS message parser \<open>P\<close>, the resolver, the owner lookup and the order \<open>ord\<close> of a map iteration
  are arguments; what the daemon prints on standard error and sends to the alert sink are the
  lists \<open>es_log\<close> and \<open>es_alerts\<close>. The main loop alone is \<open>enforce_loop\<close>; \<open>daemon_loop\<close> runs it together
  with the goroutine that reads the kernel log, as one sequence of what each of them does.
\<close>

section \<open>State\<close>

definition learnMinTTL :: duration where "learnMinTTL = 5 * Minute"

record enforce_config =
  ec_set :: policy_set
  ec_plan :: plan
  ec_dryRun :: bool
  ec_verbose :: bool
  ec_sink :: bool

record 'k enforce_state =
  es_handle :: "handle option"
  es_dns :: cache
  es_seen :: "string \<Rightarrow> time option"
  es_lastSweep :: time
  es_lastCgroupCheck :: time
  es_kernel :: 'k
  es_log :: "string list"
  es_alerts :: "alert_event list"

definition say :: "string list \<Rightarrow> 'k enforce_state \<Rightarrow> 'k enforce_state" where
  "say ls st = st\<lparr>es_log := es_log st @ ls\<rparr>"

section \<open>Helpers\<close>

definition ownerCgroup :: "proc_fs \<Rightarrow> addr \<Rightarrow> u16 \<Rightarrow> string \<Rightarrow> string" where
  "ownerCgroup F local port proto =
     (case procs_Lookup F local port proto of None \<Rightarrow> [] | Some ow \<Rightarrow> ow_Cgroup ow)"

definition destText :: "string \<Rightarrow> string \<Rightarrow> u16 \<Rightarrow> string \<Rightarrow> string" where
  "destText ip name port proto =
     (if name \<noteq> [] then ip @ '' ('' @ name @ ''):'' @ itoa (unat port) @ '' '' @ proto
      else ip @ '':'' @ itoa (unat port) @ '' '' @ proto)"

definition warnMissing :: "string list \<Rightarrow> string list" where
  "warnMissing missing =
     map (\<lambda>cg. ''egresswall: cgroup '' @ cg
       @ '' does not exist yet, its rules are inactive until it does'') missing"

definition appeared :: "('e, 'k) nft_env \<Rightarrow> string list \<Rightarrow> bool" where
  "appeared E missing = list_ex (CgroupExists E) missing"

section \<open>Feeding the address sets\<close>

definition feed_adds :: "nat list \<Rightarrow> dns_addr list \<Rightarrow> set_add list" where
  "feed_adds rules addrs =
     concat (map (\<lambda>ad.
       let ttl = (if da_TTL ad < learnMinTTL then learnMinTTL else da_TTL ad) in
       map (\<lambda>i. \<lparr>ad_Set = SetFor i (da_IP ad), ad_IP = da_IP ad, ad_TTL = ttl\<rparr>) rules) addrs)"

text \<open>\<open>show_error\<close> is the text of an error of the netlink layer.\<close>

definition feed ::
  "('e, 'k) nft_env \<Rightarrow> (string list \<Rightarrow> string list) \<Rightarrow> ('e apply_error \<Rightarrow> string) \<Rightarrow> policy_set \<Rightarrow> answer \<Rightarrow>
     handle \<Rightarrow> 'k \<Rightarrow> handle \<times> 'k \<times> string list" where
  "feed E ord show_error s a h k =
     (let rules = DomainRules s (an_Name a) in
      if rules = [] then (h, k, [])
      else
        case AddAddrs E ord h (feed_adds rules (an_Addrs a)) k of
          (None, h, k) \<Rightarrow> (h, k, [])
        | (Some e, h, k) \<Rightarrow>
            (h, k, [''egresswall: adding addresses for '' @ an_Name a @ '': '' @ show_error e]))"

text \<open>
  \<^verbatim>\<open>seed\<close>: the resolver's answer for a name, and the time it is recorded at. The loops go over the
  exact names of the rules in order.
\<close>

definition seed_name ::
  "('e, 'k) nft_env \<Rightarrow> (string list \<Rightarrow> string list) \<Rightarrow> ('e apply_error \<Rightarrow> string) \<Rightarrow> policy_set \<Rightarrow>
     (string \<Rightarrow> (string + addr list) \<times> time) \<Rightarrow> string \<Rightarrow>
     handle \<times> cache \<times> 'k \<times> string list \<Rightarrow> handle \<times> cache \<times> 'k \<times> string list" where
  "seed_name E ord show_error s resolve name st =
     (let (h, dns, k, out) = st in
      case resolve name of
        (Inl err, now) \<Rightarrow> (h, dns, k, out @ [''egresswall: seed '' @ name @ '': '' @ err])
      | (Inr ips, now) \<Rightarrow>
          (let a = \<lparr>an_Name = name, an_Addrs = map (\<lambda>ip. \<lparr>da_IP = Unmap ip, da_TTL = learnMinTTL\<rparr>) ips\<rparr>;
               (h, k, out') = feed E ord show_error s a h k in
           (h, cache_Record dns a now, k, out @ out')))"

definition seed ::
  "('e, 'k) nft_env \<Rightarrow> (string list \<Rightarrow> string list) \<Rightarrow> ('e apply_error \<Rightarrow> string) \<Rightarrow> policy_set \<Rightarrow>
     (string \<Rightarrow> (string + addr list) \<times> time) \<Rightarrow>
     handle \<times> cache \<times> 'k \<times> string list \<Rightarrow> handle \<times> cache \<times> 'k \<times> string list" where
  "seed E ord show_error s resolve =
     fold (seed_name E ord show_error s resolve) (concat (map rv_Exact (Set_Rules s)))"

section \<open>Reporting\<close>

definition report_dest :: "(addr \<Rightarrow> u16 \<Rightarrow> string \<Rightarrow> string) \<Rightarrow> cache \<Rightarrow> packet \<Rightarrow> time \<Rightarrow> dest" where
  "report_dest owner dns p now =
     (let proto = (if IsUDP p then ''udp'' else ''tcp'') in
      \<lparr>d_Domain = (case cache_Lookup dns (pk_Dst p) now of Some name \<Rightarrow> name | None \<Rightarrow> []),
       d_IP = pk_Dst p, d_Port = pk_DstPort p, d_Proto = proto,
       d_Cgroup = owner (pk_Src p) (pk_SrcPort p) proto\<rparr>)"

definition report_line :: "enforce_config \<Rightarrow> dest \<Rightarrow> decision \<Rightarrow> string" where
  "report_line C d dec =
     (let word = (if dc_Verdict dec = Deny then if ec_dryRun C then ''would deny'' else ''deny '' else ''allow'');
          from = (if d_Cgroup d \<noteq> [] \<and> \<not> HasSuffix (dc_Reason dec) ('' from '' @ d_Cgroup d)
                  then ''  from '' @ d_Cgroup d else []) in
      word @ ''  '' @ destText (Addr_String (d_IP d)) (d_Domain d) (d_Port d) (d_Proto d)
        @ ''  '' @ dc_Reason dec @ from)"

definition report ::
  "enforce_config \<Rightarrow> (addr \<Rightarrow> u16 \<Rightarrow> string \<Rightarrow> string) \<Rightarrow> packet \<Rightarrow> time \<Rightarrow> 'k enforce_state \<Rightarrow> 'k enforce_state" where
  "report C owner p now st =
     (let d = report_dest owner (es_dns st) p now;
          key = Addr_String (pk_Dst p) @ '':'' @ itoa (unat (pk_DstPort p)) @ ''/'' @ d_Proto d in
      if (case es_seen st key of None \<Rightarrow> False | Some at \<Rightarrow> now - at < 10 * Second) then st
      else
        let st = st\<lparr>es_seen := (es_seen st)(key \<mapsto> now)\<rparr>;
            dec = Evaluate (ec_set C) d;
            st = (if dc_Verdict dec = Deny \<and> ec_dryRun C \<and> ec_sink C then
                    st\<lparr>es_alerts := es_alerts st @
                      [\<lparr>ae_At = now, ae_Rule = dc_Rule dec, ae_Host = d_Domain d, ae_IP = pk_Dst p,
                        ae_Port = pk_DstPort p, ae_Proto = d_Proto d, ae_Cgroup = d_Cgroup d\<rparr>]\<rparr>
                  else st) in
        if dc_Verdict dec = Allow \<and> \<not> ec_verbose C then st
        else say [report_line C d dec] st)"

text \<open>The callback of the kernel log reader.\<close>

definition on_refusal :: "enforce_config \<Rightarrow> kmsg_event \<Rightarrow> time \<Rightarrow> 'k enforce_state \<Rightarrow> 'k enforce_state" where
  "on_refusal C ev now st =
     (let name = (case cache_Lookup (es_dns st) (ke_Dst ev) now of Some n \<Rightarrow> n | None \<Rightarrow> []);
          rule = (if ke_Rule ev \<noteq> [] then ''rule '' @ ke_Rule ev else ''default deny'');
          st = say [''refused  '' @ destText (Addr_String (ke_Dst ev)) name (ke_Port ev) (ke_Proto ev)
                      @ ''  '' @ rule] st in
      if ec_sink C then
        st\<lparr>es_alerts := es_alerts st @
          [\<lparr>ae_At = now, ae_Rule = ke_Rule ev, ae_Host = name, ae_IP = ke_Dst ev, ae_Port = ke_Port ev,
            ae_Proto = ke_Proto ev, ae_Cgroup = []\<rparr>]\<rparr>
      else st)"

section \<open>The main loop\<close>

datatype 'r read_result = ReadTimeout | ReadError 'r | ReadFrame bytes bool

datatype 'r enforce_error = EnforceRead 'r | DnsDiverged

record ('e, 'k, 'd, 'p) enforce_env =
  ee_nft :: "('e, 'k) nft_env"
  ee_ord :: "string list \<Rightarrow> string list"
  ee_show :: "'e apply_error \<Rightarrow> string"
  ee_parser :: "('d, 'p) dns_parser"
  ee_owner :: "addr \<Rightarrow> u16 \<Rightarrow> string \<Rightarrow> string"
  ee_resolve :: "string \<Rightarrow> (string + addr list) \<times> time"

definition seed_state ::
  "('e, 'k, 'd, 'p) enforce_env \<Rightarrow> enforce_config \<Rightarrow> handle \<Rightarrow> 'k enforce_state \<Rightarrow> 'k enforce_state" where
  "seed_state V C h st =
     (let (h, dns, k, out) = seed (ee_nft V) (ee_ord V) (ee_show V) (ec_set C) (ee_resolve V)
                               (h, es_dns st, es_kernel st, []) in
      say out (st\<lparr>es_handle := Some h, es_dns := dns, es_kernel := k\<rparr>))"

text \<open>The branch of an inbound packet from port 53.\<close>

definition dns_turn ::
  "('e, 'k, 'd, 'p) enforce_env \<Rightarrow> enforce_config \<Rightarrow> bytes \<Rightarrow> time \<Rightarrow> 'k enforce_state \<Rightarrow> 'k enforce_state option" where
  "dns_turn V C payload now st =
     (case dns_Parse (ee_parser V) payload of
        None \<Rightarrow> None
      | Some (a, Some e) \<Rightarrow> Some st
      | Some (a, None) \<Rightarrow>
          if an_Name a = [] then Some st
          else
            let st = st\<lparr>es_dns := cache_Record (es_dns st) a now\<rparr> in
            (case es_handle st of
               None \<Rightarrow> Some st
             | Some h \<Rightarrow>
                 (let (h, k, out) = feed (ee_nft V) (ee_ord V) (ee_show V) (ec_set C) a h (es_kernel st) in
                  Some (say out (st\<lparr>es_handle := Some h, es_kernel := k\<rparr>)))))"

text \<open>The check for cgroups that have appeared, with its reload.\<close>

definition cgroup_turn ::
  "('e, 'k, 'd, 'p) enforce_env \<Rightarrow> enforce_config \<Rightarrow> time \<Rightarrow> 'k enforce_state \<Rightarrow> 'k enforce_state" where
  "cgroup_turn V C now st =
     (case es_handle st of
        None \<Rightarrow> st
      | Some h \<Rightarrow>
          if now - es_lastCgroupCheck st \<le> 5 * Second then st
          else
            let st = st\<lparr>es_lastCgroupCheck := now\<rparr> in
            if \<not> appeared (ee_nft V) (Missing h) then st
            else
              case Apply (ee_nft V) (ec_plan C) (es_kernel st) of
                (Inl e, k) \<Rightarrow> say [''egresswall: reloading for new cgroups: '' @ ee_show V e] (st\<lparr>es_kernel := k\<rparr>)
              | (Inr fresh, k) \<Rightarrow>
                  seed_state V C fresh
                    (say (''egresswall: table reloaded, cgroup rules now active'' # warnMissing (Missing fresh))
                      (st\<lparr>es_kernel := k\<rparr>)))"

text \<open>A turn that ends the run comes with the state it leaves to the deferred calls.\<close>

definition enforce_turn ::
  "('e, 'k, 'd, 'p) enforce_env \<Rightarrow> enforce_config \<Rightarrow> 'r read_result \<Rightarrow> time \<Rightarrow> 'k enforce_state \<Rightarrow>
     ('r enforce_error \<times> 'k enforce_state) + 'k enforce_state" where
  "enforce_turn V C r now st =
     (case r of
        ReadTimeout \<Rightarrow> Inr st
      | ReadError e \<Rightarrow> Inl (EnforceRead e, st)
      | ReadFrame frame outgoing \<Rightarrow>
          (case packet_Parse frame of
             Inl e \<Rightarrow> Inr st
           | Inr p \<Rightarrow>
               if \<not> outgoing \<and> IsUDP p \<and> pk_SrcPort p = 53 then
                 (case dns_turn V C (pk_Payload p) now st of None \<Rightarrow> Inl (DnsDiverged, st) | Some st \<Rightarrow> Inr st)
               else
                 let st = (if outgoing \<and> (IsTCP p \<and> pk_SYN p \<and> \<not> pk_ACK p \<or> IsUDP p) \<and> \<not> IsLoopback (pk_Dst p)
                           then report C (ee_owner V) p now st else st);
                     st = (if 30 * Second < now - es_lastSweep st
                           then st\<lparr>es_dns := cache_Purge (es_dns st) now, es_lastSweep := now\<rparr> else st) in
                 Inr (cgroup_turn V C now st)))"

text \<open>
  The loop, over what the reads return until the context ends. Each turn comes with the world it
  finds: the file system, the sockets, the resolver and the order of the maps are not the same from
  one turn to the next.
\<close>

type_synonym ('e, 'k, 'd, 'p, 'r) turn = "('e, 'k, 'd, 'p) enforce_env \<times> 'r read_result \<times> time"

definition enforce_loop ::
  "enforce_config \<Rightarrow> ('e, 'k, 'd, 'p, 'r) turn list \<Rightarrow> 'k enforce_state \<Rightarrow>
     ('r enforce_error \<times> 'k enforce_state) + 'k enforce_state" where
  "enforce_loop C = fold_res (\<lambda>(V, r, now). enforce_turn V C r now)"

text \<open>
  Main loop and log reader together: a turn of the loop, a refusal handed to the callback at some
  time, or the end of the reader with its error. The reader runs only when the run is not dry.
\<close>

datatype ('e, 'k, 'd, 'p, 'r) event =
    MainTurn "('e, 'k, 'd, 'p, 'r) turn"
  | Refused kmsg_event time
  | LogLost string

definition daemon_event ::
  "enforce_config \<Rightarrow> ('e, 'k, 'd, 'p, 'r) event \<Rightarrow> 'k enforce_state \<Rightarrow>
     ('r enforce_error \<times> 'k enforce_state) + 'k enforce_state" where
  "daemon_event C x st =
     (case x of
        MainTurn (V, r, now) \<Rightarrow> enforce_turn V C r now st
      | Refused ev now \<Rightarrow> Inr (if ec_dryRun C then st else on_refusal C ev now st)
      | LogLost err \<Rightarrow>
          Inr (if ec_dryRun C then st
               else say [''egresswall: not reading the kernel log, refusals will only be in dmesg: '' @ err] st))"

definition daemon_loop ::
  "enforce_config \<Rightarrow> ('e, 'k, 'd, 'p, 'r) event list \<Rightarrow> 'k enforce_state \<Rightarrow>
     ('r enforce_error \<times> 'k enforce_state) + 'k enforce_state" where
  "daemon_loop C = fold_res (daemon_event C)"

section \<open>Starting and stopping\<close>

definition enforce_config_of :: "policy_set \<Rightarrow> bool \<Rightarrow> bool \<Rightarrow> bool \<Rightarrow> bool \<Rightarrow> enforce_config" where
  "enforce_config_of s forward dryRun verbose sink =
     \<lparr>ec_set = s, ec_plan = (Build s)\<lparr>pn_Forward := forward\<rparr>, ec_dryRun = dryRun, ec_verbose = verbose, ec_sink = sink\<rparr>"

definition enforce_start ::
  "('e, 'k, 'd, 'p) enforce_env \<Rightarrow> enforce_config \<Rightarrow> string \<Rightarrow> time \<Rightarrow> 'k \<Rightarrow> 'e apply_error + 'k enforce_state" where
  "enforce_start V C path now k =
     (let st = \<lparr>es_handle = None, es_dns = cache_New learnMinTTL, es_seen = (\<lambda>_. None), es_lastSweep = now,
                es_lastCgroupCheck = now, es_kernel = k, es_log = [], es_alerts = []\<rparr> in
      if ec_dryRun C then
        Inr (say [''egresswall: dry run, nothing is blocked; reporting what '' @ path @ '' would do''] st)
      else
        case Apply (ee_nft V) (ec_plan C) k of
          (Inl e, _) \<Rightarrow> Inl e
        | (Inr h, k) \<Rightarrow>
            Inr (seed_state V C h
              (say ((''egresswall: enforcing '' @ path @ '' ('' @ itoa (length (pn_Atoms (ec_plan C))) @ '' rules, ''
                       @ itoa (length (pn_Sets (ec_plan C))) @ '' address sets)'') # warnMissing (Missing h))
                (st\<lparr>es_kernel := k\<rparr>))))"

text \<open>The deferred removal of the table.\<close>

definition enforce_stop :: "('e, 'k, 'd, 'p) enforce_env \<Rightarrow> 'k enforce_state \<Rightarrow> 'k enforce_state" where
  "enforce_stop V st =
     (case es_handle st of
        None \<Rightarrow> st
      | Some h \<Rightarrow>
          (case Close (ee_nft V) h (es_kernel st) of
             (Some e, k) \<Rightarrow> say [''egresswall: removing table: '' @ ee_show V e] (st\<lparr>es_kernel := k\<rparr>)
           | (None, k) \<Rightarrow> say [''egresswall: table removed, host is unfiltered again''] (st\<lparr>es_kernel := k\<rparr>)))"

text \<open>The runs that end before the loop: \<^verbatim>\<open>-off\<close> and \<^verbatim>\<open>-print\<close>.\<close>

definition enforce_off :: "('e, 'k) nft_env \<Rightarrow> 'k \<Rightarrow> ('e apply_error + string) \<times> 'k" where
  "enforce_off E k =
     (case Remove E k of
        ((_, Some e), k) \<Rightarrow> (Inl e, k)
      | ((True, None), k) \<Rightarrow> (Inr ''egresswall table removed'', k)
      | ((False, None), k) \<Rightarrow> (Inr ''no egresswall table was loaded'', k))"

definition enforce_print :: "policy_set \<Rightarrow> bool \<Rightarrow> string" where
  "enforce_print s forward = Text ((Build s)\<lparr>pn_Forward := forward\<rparr>)"

section \<open>The command\<close>

record enforce_flags =
  ef_policy :: string
  ef_dryRun :: bool
  ef_print :: bool
  ef_off :: bool
  ef_verbose :: bool
  ef_forward :: bool
  ef_webhook :: string

datatype ('e, 'l, 'c, 'r) enforce_failure =
    EnforceRemove "'e apply_error"
  | EnforceLoad 'l
  | EnforceCapture 'c
  | EnforceApply "'e apply_error"
  | EnforceLoop "'r enforce_error"

text \<open>
  \<^verbatim>\<open>runEnforce\<close> after its flags: \<open>load\<close> and \<open>open_socket\<close> are the results of loading the policy and of
  opening the socket, \<open>V\<close> and \<open>W\<close> the world at the start and at the end, \<open>xs\<close> what the two goroutines
  do. The result is the error, what
  is printed on standard output and on standard error, and the kernel.
\<close>

definition runEnforce ::
  "('e, 'k, 'd, 'p) enforce_env \<Rightarrow> ('e, 'k, 'd, 'p) enforce_env \<Rightarrow> (string \<Rightarrow> 'l + policy_set) \<Rightarrow> 'c option \<Rightarrow>
     enforce_flags \<Rightarrow> time \<Rightarrow> ('e, 'k, 'd, 'p, 'r) event list \<Rightarrow> 'k \<Rightarrow>
     ('e, 'l, 'c, 'r) enforce_failure option \<times> string \<times> string list \<times> 'k" where
  "runEnforce V W load open_socket F now xs k =
     (if ef_off F then
        (case enforce_off (ee_nft V) k of
           (Inl e, k) \<Rightarrow> (Some (EnforceRemove e), [], [], k)
         | (Inr line, k) \<Rightarrow> (None, line @ [CHR 0x0A], [], k))
      else
        case load (ef_policy F) of
          Inl e \<Rightarrow> (Some (EnforceLoad e), [], [], k)
        | Inr s \<Rightarrow>
            if ef_print F then (None, enforce_print s (ef_forward F), [], k)
            else
              case open_socket of
                Some e \<Rightarrow> (Some (EnforceCapture e), [], [], k)
              | None \<Rightarrow>
                  (let C = enforce_config_of s (ef_forward F) (ef_dryRun F) (ef_verbose F) (ef_webhook F \<noteq> []);
                       hook = (if ef_webhook F \<noteq> [] then [''egresswall: refusals go to '' @ ef_webhook F] else []) in
                   case enforce_start V C (ef_policy F) now k of
                     Inl e \<Rightarrow> (Some (EnforceApply e), [], hook, snd (Apply (ee_nft V) (ec_plan C) k))
                   | Inr st \<Rightarrow>
                       (let (err, st) = (case daemon_loop C xs st of
                                           Inl (e, st) \<Rightarrow> (Some (EnforceLoop e), st) | Inr st \<Rightarrow> (None, st));
                            st = enforce_stop W st in
                        (err, [], hook @ es_log st, es_kernel st))))"

end
