(* ===== verification/Daemon.thy ===== *)
theory Daemon
  imports Enforce
begin

text \<open>
  What the daemon of \<open>Enforce\<close> keeps: the shape of its state, and what the kernel's address sets hold
  after any run of its loop. The kernel is any environment whose batches have the documented effect
  on the sets; the timeouts of the elements are not counted down.
\<close>

section \<open>What the sets hold\<close>

text \<open>
  The kernel's sets as a relation of names and keys. What a batch does to it is the documented
  behaviour of nftables, the timeouts of the elements left aside.
\<close>

type_synonym set_view = "string \<Rightarrow> bytes \<Rightarrow> bool"

fun set_effect :: "op \<Rightarrow> set_view \<Rightarrow> set_view" where
  "set_effect (OpDelTable t) v = (\<lambda>_ _. False)"
| "set_effect (OpAddSet s els) v = (\<lambda>n key. v n key \<or> n = ns_Name s \<and> key \<in> el_Key ` set els)"
| "set_effect (OpSetAddElements m els) v = (\<lambda>n key. v n key \<or> n = m \<and> key \<in> el_Key ` set els)"
| "set_effect (OpAddTable t) v = v"
| "set_effect (OpAddChain c hook pol) v = v"
| "set_effect (OpAddRule c xs) v = v"

definition kernel_sets :: "('e, 'k) nft_env \<Rightarrow> ('k \<Rightarrow> set_view) \<Rightarrow> bool" where
  "kernel_sets E view \<longleftrightarrow>
     (\<forall>ops k k'. ev_Flush E ops k = Inr k' \<longrightarrow> view k' = fold set_effect ops (view k))
     \<and> (\<forall>k ts. ev_ListTables E k = Inr ts \<and> TableName \<notin> set ts \<longrightarrow> view k = (\<lambda>_ _. False))"

definition nft_lawful :: "('e, 'k) nft_env \<Rightarrow> (string list \<Rightarrow> string list) \<Rightarrow> ('k \<Rightarrow> set_view) \<Rightarrow> bool" where
  "nft_lawful E ord view \<longleftrightarrow>
     kernel_sets E view \<and> (\<forall>ns. mset (ord ns) = mset ns)
     \<and> (\<forall>n els. ev_SetAddElements E n els = None)"

text \<open>Address \<open>ip\<close> is in the set of rule \<open>i\<close> for its family.\<close>

definition holds :: "set_view \<Rightarrow> nat \<Rightarrow> addr \<Rightarrow> bool" where
  "holds v i ip \<longleftrightarrow> v (SetFor i ip) (AsSlice (Unmap ip))"

text \<open>Answer \<open>a\<close> puts \<open>ip\<close> under rule \<open>i\<close>.\<close>

definition answers :: "policy_set \<Rightarrow> answer \<Rightarrow> nat \<Rightarrow> addr \<Rightarrow> bool" where
  "answers s a i ip \<longleftrightarrow>
     i \<in> set (DomainRules s (an_Name a))
     \<and> (\<exists>ad \<in> set (an_Addrs a). AsSlice (Unmap (da_IP ad)) = AsSlice (Unmap ip))"

lemma AsSlice_Is4: "AsSlice a = AsSlice b \<Longrightarrow> Is4 a \<longleftrightarrow> Is4 b"
  by (drule arg_cong[of _ _ length]) (cases a; cases b; simp)

lemma SetFor_eq: "AsSlice (Unmap a) = AsSlice (Unmap b) \<Longrightarrow> SetFor i a = SetFor i b"
  by (drule AsSlice_Is4) (simp add: SetFor_def)

lemma SetFor_inj: "SetFor i a = SetFor j b \<Longrightarrow> i = j"
  by (auto simp: SetFor_def split: if_splits dest!: setName_inj)

lemma SetFor_not_anonymous: "\<not> HasPrefix (SetFor i ip) ''__set''"
  by (simp add: SetFor_def setName_def HasPrefix_def)

lemma set_effect_adds:
  "fold set_effect (map (\<lambda>n. OpSetAddElements n (f n)) ns) v =
     (\<lambda>n key. v n key \<or> n \<in> set ns \<and> key \<in> el_Key ` set (f n))"
proof (induction ns arbitrary: v)
  case (Cons m ns)
  show ?case
  proof (intro ext)
    fix n key
    show "fold set_effect (map (\<lambda>n. OpSetAddElements n (f n)) (m # ns)) v n key =
      (v n key \<or> n \<in> set (m # ns) \<and> key \<in> el_Key ` set (f n))"
      by (cases "n = m"; cases "m \<in> set ns") (simp_all add: Cons.IH)
  qed
qed simp

lemma set_effect_builds:
  assumes "list_all builds ops" and "\<not> HasPrefix n ''__set''"
  shows "fold set_effect ops v n key = v n key"
  using assms(1)
proof (induction ops arbitrary: v)
  case (Cons x ops)
  have "set_effect x v n key = v n key"
  proof (cases x)
    case (OpAddSet s els)
    with Cons.prems assms(2) show ?thesis by (cases "n = ns_Name s") auto
  qed (use Cons.prems in simp_all)
  with Cons show ?case by simp
qed simp

lemma set_effect_deletes:
  "fold set_effect (replicate n (OpDelTable TableName)) v = (if n = 0 then v else (\<lambda>_ _. False))"
proof (induction n arbitrary: v)
  case (Suc n)
  then show ?case by (cases n) auto
qed simp

text \<open>A table that has just been loaded has empty sets.\<close>

lemma Apply_view:
  assumes "kernel_sets E view" and "Apply E p k = (Inr h, k')"
  shows "\<not> holds (view k') i ip"
proof -
  obtain ts new where t: "ev_ListTables E k = Inr ts" "list_all builds new"
    "ev_Flush E (replicate (length (filter (\<lambda>t. t = TableName) ts)) (OpDelTable TableName)
        @ OpAddTable TableName # new) k = Inr k'"
    using Apply_outcome[where E = E and p = p and k = k] assms(2) by auto
  have "view k = (\<lambda>_ _. False)" if "TableName \<notin> set ts"
    using assms(1) t(1) that by (auto simp: kernel_sets_def)
  then have "fold set_effect (replicate (length (filter (\<lambda>t. t = TableName) ts)) (OpDelTable TableName)) (view k)
      = (\<lambda>_ _. False)"
    unfolding set_effect_deletes by (simp add: filter_empty_conv) blast
  then show ?thesis
    using assms(1) t(2,3)
    by (simp add: kernel_sets_def holds_def set_effect_builds SetFor_not_anonymous)
qed

lemma Apply_handle:
  assumes "Apply E p k = (Inr h, k')"
  shows "hd_queue h = []" and "dom (hd_sets h) = sd_Name ` set (pn_Sets p)"
  using Apply_outcome[where E = E and p = p and k = k] assms by auto

section \<open>Feeding\<close>

definition fed_view :: "policy_set \<Rightarrow> answer \<Rightarrow> set_view \<Rightarrow> set_view" where
  "fed_view s a v =
     (\<lambda>n key. v n key \<or> (\<exists>i \<in> set (DomainRules s (an_Name a)). \<exists>ad \<in> set (an_Addrs a).
        n = SetFor i (da_IP ad) \<and> key = AsSlice (Unmap (da_IP ad))))"

lemma holds_fed: "holds (fed_view s a v) i ip \<longleftrightarrow> holds v i ip \<or> answers s a i ip"
proof -
  have "(\<exists>j \<in> J. \<exists>ad \<in> A. SetFor i ip = SetFor j (da_IP ad) \<and> AsSlice (Unmap ip) = AsSlice (Unmap (da_IP ad)))
      \<longleftrightarrow> i \<in> J \<and> (\<exists>ad \<in> A. AsSlice (Unmap (da_IP ad)) = AsSlice (Unmap ip))" (is "?l \<longleftrightarrow> ?r") for J and A :: "dns_addr set"
  proof
    show "?l \<Longrightarrow> ?r" using SetFor_inj[of i ip] by fastforce
  next
    assume ?r
    then obtain ad where "i \<in> J" "ad \<in> A" "AsSlice (Unmap ip) = AsSlice (Unmap (da_IP ad))" by auto
    with SetFor_eq[of ip "da_IP ad" i] show ?l by blast
  qed
  then show ?thesis by (simp only: holds_def fed_view_def answers_def)
qed

lemma set_feed_adds:
  "set (feed_adds rules addrs) =
     (\<Union>ad \<in> set addrs. (\<lambda>i. \<lparr>ad_Set = SetFor i (da_IP ad), ad_IP = da_IP ad,
        ad_TTL = (if da_TTL ad < learnMinTTL then learnMinTTL else da_TTL ad)\<rparr>) ` set rules)"
  by (simp add: feed_adds_def Let_def)

lemma feed_adds_keys:
  "key \<in> el_Key ` set (adds_for (feed_adds rules addrs) n) \<longleftrightarrow>
     (\<exists>i \<in> set rules. \<exists>ad \<in> set addrs. n = SetFor i (da_IP ad) \<and> key = AsSlice (Unmap (da_IP ad)))"
proof -
  have k: "key \<in> el_Key ` set (adds_for adds n) \<longleftrightarrow>
      (\<exists>a \<in> set adds. n = ad_Set a \<and> key = AsSlice (Unmap (ad_IP a)))" for adds
    by (simp add: adds_for_def image_image image_iff) blast
  show ?thesis unfolding k set_feed_adds by (simp only: bex_UN bex_simps set_add.select_convs) blast
qed

lemma feed_adds_sets:
  "n \<in> ad_Set ` set (feed_adds rules addrs) \<longleftrightarrow> (\<exists>i \<in> set rules. \<exists>ad \<in> set addrs. n = SetFor i (da_IP ad))"
  by (simp add: set_feed_adds image_iff) blast

lemma feed_outcome:
  assumes "nft_lawful E ord view" and "hd_queue h = []"
    and "\<And>i ip. i \<in> set (DomainRules s (an_Name a)) \<Longrightarrow> hd_sets h (SetFor i ip) \<noteq> None"
  shows "\<exists>k' out. feed E ord sh s a h k = (h, k', out)
    \<and> (out = [] \<and> view k' = fed_view s a (view k)
       \<or> (\<exists>e. out = [''egresswall: adding addresses for '' @ an_Name a @ '': '' @ sh (FlushFailed e)] \<and> k' = k
            \<and> (\<exists>ops. ev_Flush E ops k = Inl e)))"
proof (cases "DomainRules s (an_Name a) = [] \<or> an_Addrs a = []")
  case True
  then have "feed E ord sh s a h k = (h, k, [])"
    by (cases "DomainRules s (an_Name a)") (auto simp: feed_def AddAddrs_def feed_adds_def)
  moreover have "fed_view s a (view k) = view k" using True by (auto simp: fed_view_def)
  ultimately show ?thesis by simp
next
  case False
  let ?adds = "feed_adds (DomainRules s (an_Name a)) (an_Addrs a)"
  let ?ops = "map (\<lambda>n. OpSetAddElements n (adds_for ?adds n)) (ord (remdups (map ad_Set ?adds)))"
  have law: "\<And>ns. mset (ord ns) = mset ns" "\<And>n els. ev_SetAddElements E n els = None" "kernel_sets E view"
    using assms(1) by (auto simp: nft_lawful_def)
  have ne: "?adds \<noteq> []" using False by (cases "an_Addrs a") (auto simp: feed_adds_def)
  have known: "\<not> (\<exists>x \<in> set ?adds. hd_sets h (ad_Set x) = None)"
    using assms(3) by (simp add: set_feed_adds)
  note b = AddAddrs_one_batch[OF law(1,2) assms(2), of ?adds k]
  show ?thesis
  proof (cases "ev_Flush E ?ops k")
    case (Inl e)
    then have "AddAddrs E ord h ?adds k = (Some (FlushFailed e), h, k)"
      using b ne known by simp
    then show ?thesis using False Inl by (auto simp: feed_def)
  next
    case (Inr k')
    then have "AddAddrs E ord h ?adds k = (None, h, k')" using b ne known by simp
    then have f: "feed E ord sh s a h k = (h, k', [])" using False by (simp add: feed_def)
    have "view k' = fold set_effect ?ops (view k)" using law(3) Inr by (simp add: kernel_sets_def)
    also have "\<dots> = fed_view s a (view k)"
    proof -
      have "set (ord (remdups (map ad_Set ?adds))) = ad_Set ` set ?adds" using b by blast
      then show ?thesis
        unfolding set_effect_adds fed_view_def by (simp only: feed_adds_keys feed_adds_sets) blast
    qed
    finally show ?thesis using f by simp
  qed
qed

section \<open>Views that gain answers\<close>

text \<open>
  The view gains at most the addresses of the answers \<open>A\<close> and loses none; with \<open>exact\<close> it gains them
  all.
\<close>

definition gains :: "bool \<Rightarrow> policy_set \<Rightarrow> answer set \<Rightarrow> set_view \<Rightarrow> set_view \<Rightarrow> bool" where
  "gains exact s A v v' \<longleftrightarrow>
     (\<forall>i ip. (holds v' i ip \<longrightarrow> holds v i ip \<or> (\<exists>a \<in> A. answers s a i ip))
       \<and> (holds v i ip \<or> exact \<and> (\<exists>a \<in> A. answers s a i ip) \<longrightarrow> holds v' i ip))"

lemma gains_refl: "gains b s {} v v"
  by (simp add: gains_def)

lemma gains_trans: "gains b s A v v' \<Longrightarrow> gains b s B v' v'' \<Longrightarrow> gains b s (A \<union> B) v v''"
  unfolding gains_def by blast

lemma gains_fed: "gains b s {a} v (fed_view s a v)"
  by (auto simp: gains_def holds_fed)

lemma gains_fails: "gains False s A v v"
  by (simp add: gains_def)

text \<open>The kernel takes every batch.\<close>

definition flush_ok :: "('e, 'k) nft_env \<Rightarrow> bool" where
  "flush_ok E \<longleftrightarrow> (\<forall>ops k. \<not> isl (ev_Flush E ops k))"

text \<open>A handle that can feed every rule of the policy.\<close>

definition table_ready :: "policy_set \<Rightarrow> handle \<Rightarrow> bool" where
  "table_ready s h \<longleftrightarrow>
     hd_queue h = [] \<and> (\<forall>name. \<forall>i \<in> set (DomainRules s name). \<forall>ip. hd_sets h (SetFor i ip) \<noteq> None)"

lemma feed_gains:
  assumes "nft_lawful E ord view" and "table_ready s h"
  shows "\<exists>k' out. feed E ord sh s a h k = (h, k', out) \<and> gains (flush_ok E) s {a} (view k) (view k')"
proof -
  obtain k' out where f: "feed E ord sh s a h k = (h, k', out)"
    and c: "view k' = fed_view s a (view k) \<or> k' = k \<and> (\<exists>ops e. ev_Flush E ops k = Inl e)"
    using feed_outcome[OF assms(1), where h = h and s = s and a = a and k = k and sh = sh] assms(2)
    by (fastforce simp: table_ready_def)
  from c have "gains (flush_ok E) s {a} (view k) (view k')"
  proof
    assume "k' = k \<and> (\<exists>ops e. ev_Flush E ops k = Inl e)"
    then obtain ops e where "k' = k" "ev_Flush E ops k = Inl e" by blast
    then have "\<not> flush_ok E" by (simp add: flush_ok_def) (metis sum.disc(1))
    with \<open>k' = k\<close> show ?thesis using gains_fails by simp
  qed (simp add: gains_fed)
  with f show ?thesis by blast
qed

section \<open>Seeding\<close>

definition seed_answer :: "string \<Rightarrow> addr list \<Rightarrow> answer" where
  "seed_answer name ips =
     \<lparr>an_Name = name, an_Addrs = map (\<lambda>ip. \<lparr>da_IP = Unmap ip, da_TTL = learnMinTTL\<rparr>) ips\<rparr>"

text \<open>What the resolver answers for a list of names.\<close>

definition resolved :: "(string \<Rightarrow> (string + addr list) \<times> time) \<Rightarrow> string list \<Rightarrow> answer set" where
  "resolved resolve names =
     {seed_answer name ips | name ips now. name \<in> set names \<and> resolve name = (Inr ips, now)}"

definition exact_names :: "policy_set \<Rightarrow> string list" where
  "exact_names s = concat (map rv_Exact (Set_Rules s))"

text \<open>What the resolver answers for the exact names of the policy.\<close>

definition seeds :: "enforce_config \<Rightarrow> ('e, 'k, 'd, 'p) enforce_env \<Rightarrow> answer set" where
  "seeds C V = resolved (ee_resolve V) (exact_names (ec_set C))"

lemma resolved_Cons:
  "resolved resolve (n # ns) = resolved resolve [n] \<union> resolved resolve ns"
  by (auto simp: resolved_def)

lemma cache_Record_MinTTL [simp]: "ca_MinTTL (cache_Record c a now) = ca_MinTTL c"
  by (simp add: cache_Record_puts)

lemma cache_Record_other:
  assumes "\<forall>ad \<in> set (an_Addrs a). da_IP ad \<noteq> Unmap ip"
  shows "cache_Lookup (cache_Record c a now) ip t = cache_Lookup c ip t"
proof -
  have "find (\<lambda>(k, n, e). k = Unmap ip) (rev (answer_entries m a now)) = None" for m
    using assms by (auto simp: find_None_iff answer_entries_def)
  then show ?thesis by (simp add: cache_Record_puts dns_cache.lookup_puts)
qed

lemma seed_name_outcome:
  assumes "nft_lawful E ord view" and "table_ready s h"
  shows "\<exists>dns' k' out'. seed_name E ord sh s resolve name (h, dns, k, out) = (h, dns', k', out')
    \<and> ca_MinTTL dns' = ca_MinTTL dns
    \<and> (\<forall>ip t. (\<forall>a \<in> resolved resolve [name]. \<forall>ad \<in> set (an_Addrs a). da_IP ad \<noteq> Unmap ip) \<longrightarrow>
         cache_Lookup dns' ip t = cache_Lookup dns ip t)
    \<and> gains (flush_ok E) s (resolved resolve [name]) (view k) (view k')"
proof (cases "resolve name")
  case (Pair r now)
  show ?thesis
  proof (cases r)
    case (Inl e)
    then have "resolved resolve [name] = {}" using Pair by (simp add: resolved_def)
    then show ?thesis using Pair Inl by (simp add: seed_name_def gains_refl)
  next
    case (Inr ips)
    have r: "resolved resolve [name] = {seed_answer name ips}" using Pair Inr by (auto simp: resolved_def)
    obtain k' o' where "feed E ord sh s (seed_answer name ips) h k = (h, k', o')"
      "gains (flush_ok E) s {seed_answer name ips} (view k) (view k')"
      using feed_gains[OF assms] by blast
    then show ?thesis
      using Pair Inr cache_Record_other[of "seed_answer name ips"]
      by (auto simp: seed_name_def Let_def r simp flip: seed_answer_def)
  qed
qed

lemma seed_names_outcome:
  assumes "nft_lawful E ord view" and "table_ready s h"
  shows "\<exists>dns' k' out'. fold (seed_name E ord sh s resolve) names (h, dns, k, out) = (h, dns', k', out')
    \<and> ca_MinTTL dns' = ca_MinTTL dns
    \<and> (\<forall>ip t. (\<forall>a \<in> resolved resolve names. \<forall>ad \<in> set (an_Addrs a). da_IP ad \<noteq> Unmap ip) \<longrightarrow>
         cache_Lookup dns' ip t = cache_Lookup dns ip t)
    \<and> gains (flush_ok E) s (resolved resolve names) (view k) (view k')"
proof (induction names arbitrary: dns k out)
  case Nil
  then show ?case by (simp add: resolved_def gains_refl)
next
  case (Cons n ns)
  obtain dns1 k1 out1 where 1: "seed_name E ord sh s resolve n (h, dns, k, out) = (h, dns1, k1, out1)"
    "ca_MinTTL dns1 = ca_MinTTL dns"
    "\<forall>ip t. (\<forall>a \<in> resolved resolve [n]. \<forall>ad \<in> set (an_Addrs a). da_IP ad \<noteq> Unmap ip) \<longrightarrow>
         cache_Lookup dns1 ip t = cache_Lookup dns ip t"
    "gains (flush_ok E) s (resolved resolve [n]) (view k) (view k1)"
    using seed_name_outcome[OF assms] by blast
  obtain dns2 k2 out2 where 2: "fold (seed_name E ord sh s resolve) ns (h, dns1, k1, out1) = (h, dns2, k2, out2)"
    "ca_MinTTL dns2 = ca_MinTTL dns1"
    "\<forall>ip t. (\<forall>a \<in> resolved resolve ns. \<forall>ad \<in> set (an_Addrs a). da_IP ad \<noteq> Unmap ip) \<longrightarrow>
         cache_Lookup dns2 ip t = cache_Lookup dns1 ip t"
    "gains (flush_ok E) s (resolved resolve ns) (view k1) (view k2)"
    using Cons.IH by blast
  have g: "gains (flush_ok E) s (resolved resolve (n # ns)) (view k) (view k2)"
    by (subst resolved_Cons) (rule gains_trans[OF 1(4) 2(4)])
  have c: "cache_Lookup dns2 ip t = cache_Lookup dns ip t"
    if "\<forall>a \<in> resolved resolve (n # ns). \<forall>ad \<in> set (an_Addrs a). da_IP ad \<noteq> Unmap ip" for ip t
    using that 1(3) 2(3) by (subst (asm) resolved_Cons) (simp add: ball_Un)
  have "fold (seed_name E ord sh s resolve) (n # ns) (h, dns, k, out) = (h, dns2, k2, out2)"
    using 1(1) 2(1) by simp
  then show ?case
    using c g by (intro exI[of _ dns2] exI[of _ k2] exI[of _ out2]) (simp add: 1(2) 2(2))
qed

section \<open>The state of the daemon\<close>

definition daemon_ok :: "enforce_config \<Rightarrow> 'k enforce_state \<Rightarrow> bool" where
  "daemon_ok C st \<longleftrightarrow>
     ca_MinTTL (es_dns st) = learnMinTTL
     \<and> (es_handle st = None \<longleftrightarrow> ec_dryRun C)
     \<and> (\<forall>h. es_handle st = Some h \<longrightarrow>
          hd_queue h = [] \<and> dom (hd_sets h) = sd_Name ` set (pn_Sets (ec_plan C))
          \<and> set (Missing h) \<subseteq> at_Cgroup ` set (pn_Atoms (ec_plan C)))
     \<and> (es_alerts st \<noteq> [] \<longrightarrow> ec_dryRun C \<and> ec_sink C)"

text \<open>The configuration of a policy that compiles.\<close>

definition config_of :: "policy \<Rightarrow> enforce_config \<Rightarrow> bool" where
  "config_of p C \<longleftrightarrow>
     (\<exists>s fw dry vb sk. Compile p = Inr s \<and> C = enforce_config_of s fw dry vb sk)"

lemma config_ofD:
  assumes "config_of p C"
  shows "Compile p = Inr (ec_set C)" and "pn_Sets (ec_plan C) = pn_Sets (Build (ec_set C))"
    and "pn_Atoms (ec_plan C) = pn_Atoms (Build (ec_set C))"
    and "\<exists>fw. ec_plan C = (Build (ec_set C))\<lparr>pn_Forward := fw\<rparr>"
  using assms by (auto simp: config_of_def enforce_config_of_def)

lemma table_ready_dom:
  assumes "config_of p C" and "hd_queue h = []"
    and "dom (hd_sets h) = sd_Name ` set (pn_Sets (ec_plan C))"
  shows "table_ready (ec_set C) h"
  unfolding table_ready_def
proof (intro conjI allI ballI)
  fix name i ip assume "i \<in> set (DomainRules (ec_set C) name)"
  then have "SetFor i ip \<in> dom (hd_sets h)"
    using Build_sets_declared[OF config_ofD(1)[OF assms(1)], of name ip] assms(3)
    by (force simp: config_ofD(2)[OF assms(1)])
  then show "hd_sets h (SetFor i ip) \<noteq> None" by (simp add: dom_def)
qed (fact assms(2))

lemma daemon_ok_ready:
  "config_of p C \<Longrightarrow> daemon_ok C st \<Longrightarrow> es_handle st = Some h \<Longrightarrow> table_ready (ec_set C) h"
  by (auto simp: daemon_ok_def intro: table_ready_dom)

lemma Apply_loaded:
  assumes "config_of p C" and "Apply E (ec_plan C) k = (Inr h, k')"
  shows "hd_queue h = []" and "dom (hd_sets h) = sd_Name ` set (pn_Sets (ec_plan C))"
    and "set (Missing h) \<subseteq> at_Cgroup ` set (pn_Atoms (ec_plan C))" and "table_ready (ec_set C) h"
  using Apply_handle[OF assms(2)] table_ready_dom[OF assms(1)]
    Apply_outcome[where E = E and p = "ec_plan C" and k = k] assms(2)
  by (auto simp: absent_cgroups_def)

lemma Apply_fails: "Apply E p k = (Inl e, k') \<Longrightarrow> k' = k"
  using Apply_outcome[where E = E and p = p and k = k] by auto

lemma say_simps [simp]:
  "es_handle (say ls st) = es_handle st" "es_dns (say ls st) = es_dns st"
  "es_seen (say ls st) = es_seen st" "es_lastSweep (say ls st) = es_lastSweep st"
  "es_lastCgroupCheck (say ls st) = es_lastCgroupCheck st" "es_kernel (say ls st) = es_kernel st"
  "es_alerts (say ls st) = es_alerts st" "es_log (say ls st) = es_log st @ ls"
  by (simp_all add: say_def)

text \<open>What a run of \<open>seed\<close> or of a DNS answer may change.\<close>

definition untouched :: "'k enforce_state \<Rightarrow> 'k enforce_state \<Rightarrow> bool" where
  "untouched st st' \<longleftrightarrow>
     es_seen st' = es_seen st \<and> es_alerts st' = es_alerts st \<and> prefix (es_log st) (es_log st')"

lemma untouched_refl: "untouched st st"
  by (simp add: untouched_def)

lemma untouched_trans: "untouched st st' \<Longrightarrow> untouched st' st'' \<Longrightarrow> untouched st st''"
  by (auto simp: untouched_def intro: prefix_order.trans)

lemma seed_state_outcome:
  assumes "nft_lawful (ee_nft V) (ee_ord V) view" and "table_ready (ec_set C) h"
  shows "untouched st (seed_state V C h st) \<and> es_handle (seed_state V C h st) = Some h
    \<and> ca_MinTTL (es_dns (seed_state V C h st)) = ca_MinTTL (es_dns st)
    \<and> (\<forall>ip t. (\<forall>a \<in> seeds C V. \<forall>ad \<in> set (an_Addrs a). da_IP ad \<noteq> Unmap ip) \<longrightarrow>
         cache_Lookup (es_dns (seed_state V C h st)) ip t = cache_Lookup (es_dns st) ip t)
    \<and> gains (flush_ok (ee_nft V)) (ec_set C) (seeds C V)
         (view (es_kernel st)) (view (es_kernel (seed_state V C h st)))"
proof -
  obtain dns' k' out' where
    f: "fold (seed_name (ee_nft V) (ee_ord V) (ee_show V) (ec_set C) (ee_resolve V)) (exact_names (ec_set C))
      (h, es_dns st, es_kernel st, []) = (h, dns', k', out')" and
    o: "ca_MinTTL dns' = ca_MinTTL (es_dns st)"
    "\<forall>ip t. (\<forall>a \<in> seeds C V. \<forall>ad \<in> set (an_Addrs a). da_IP ad \<noteq> Unmap ip) \<longrightarrow>
         cache_Lookup dns' ip t = cache_Lookup (es_dns st) ip t"
    "gains (flush_ok (ee_nft V)) (ec_set C) (seeds C V)
         (view (es_kernel st)) (view k')"
    using seed_names_outcome[OF assms, where resolve = "ee_resolve V" and names = "exact_names (ec_set C)", folded seeds_def]
    by blast
  have "seed_state V C h st = say out' (st\<lparr>es_handle := Some h, es_dns := dns', es_kernel := k'\<rparr>)"
    using f by (simp add: seed_state_def seed_def exact_names_def)
  then show ?thesis using o by (simp add: untouched_def)
qed

lemma dns_turn_outcome:
  assumes "config_of p C" and "nft_lawful (ee_nft V) (ee_ord V) view" and "daemon_ok C st"
    and "dns_turn V C payload now st = Some st'"
  shows "daemon_ok C st' \<and> untouched st st' \<and> es_handle st' = es_handle st
    \<and> es_lastCgroupCheck st' = es_lastCgroupCheck st
    \<and> (case es_handle st of None \<Rightarrow> es_kernel st' = es_kernel st
       | Some h \<Rightarrow> gains (flush_ok (ee_nft V)) (ec_set C)
           {a. dns_Parse (ee_parser V) payload = Some (a, None) \<and> an_Name a \<noteq> []}
           (view (es_kernel st)) (view (es_kernel st')))"
proof -
  obtain a e where d: "dns_Parse (ee_parser V) payload = Some (a, e)"
    using assms(4) by (auto simp: dns_turn_def split: option.splits prod.splits)
  show ?thesis
  proof (cases "e = None \<and> an_Name a \<noteq> []")
    case False
    then have "st' = st" using assms(4) d by (auto simp: dns_turn_def split: option.splits if_splits)
    have A: "{a. dns_Parse (ee_parser V) payload = Some (a, None) \<and> an_Name a \<noteq> []} = {}"
      using False d by auto
    show ?thesis
      unfolding A using assms(3) \<open>st' = st\<close> by (simp add: untouched_refl gains_refl split: option.splits)
  next
    case True
    then have A: "{a. dns_Parse (ee_parser V) payload = Some (a, None) \<and> an_Name a \<noteq> []} = {a}"
      using d by auto
    show ?thesis
    proof (cases "es_handle st")
      case None
      then have "st' = st\<lparr>es_dns := cache_Record (es_dns st) a now\<rparr>"
        using assms(4) d True by (simp add: dns_turn_def)
      then show ?thesis using None assms(3) by (simp add: daemon_ok_def untouched_def)
    next
      case (Some h)
      obtain k' out where f: "feed (ee_nft V) (ee_ord V) (ee_show V) (ec_set C) a h (es_kernel st) = (h, k', out)"
        and g: "gains (flush_ok (ee_nft V)) (ec_set C) {a} (view (es_kernel st)) (view k')"
        using feed_gains[OF assms(2) daemon_ok_ready[OF assms(1,3) Some]] by blast
      have "st' = say out (st\<lparr>es_dns := cache_Record (es_dns st) a now, es_handle := Some h, es_kernel := k'\<rparr>)"
        using assms(4) d True Some f by (simp add: dns_turn_def)
      then show ?thesis unfolding A using Some assms(3) g by (auto simp: daemon_ok_def untouched_def)
    qed
  qed
qed

lemma report_keeps [simp]:
  "es_handle (report C owner p now st) = es_handle st" "es_dns (report C owner p now st) = es_dns st"
  "es_kernel (report C owner p now st) = es_kernel st" "es_lastSweep (report C owner p now st) = es_lastSweep st"
  "es_lastCgroupCheck (report C owner p now st) = es_lastCgroupCheck st"
  by (simp_all add: report_def Let_def)

lemma report_log: "prefix (es_log st) (es_log (report C owner p now st))"
  by (simp add: report_def Let_def)

lemma report_alerts:
  "\<not> (ec_dryRun C \<and> ec_sink C) \<Longrightarrow> es_alerts (report C owner p now st) = es_alerts st"
  by (auto simp: report_def Let_def)

lemma report_ok: "daemon_ok C st \<Longrightarrow> daemon_ok C (report C owner p now st)"
  using report_alerts[of C owner p now st]
  by (cases "ec_dryRun C \<and> ec_sink C") (auto simp: daemon_ok_def)

text \<open>
  The cgroup check either leaves the kernel, the cache and the handle alone, or loads the table anew,
  which empties the sets, and seeds it.
\<close>

definition reloads :: "('e, 'k, 'd, 'p) enforce_env \<Rightarrow> enforce_config \<Rightarrow> time \<Rightarrow> 'k enforce_state \<Rightarrow> bool" where
  "reloads V C now st \<longleftrightarrow>
     (\<exists>h fresh k. es_handle st = Some h \<and> 5 * Second < now - es_lastCgroupCheck st
        \<and> appeared (ee_nft V) (Missing h) \<and> Apply (ee_nft V) (ec_plan C) (es_kernel st) = (Inr fresh, k))"

lemma cgroup_turn_idle:
  assumes "\<not> reloads V C now st"
  shows "es_kernel (cgroup_turn V C now st) = es_kernel st \<and> es_dns (cgroup_turn V C now st) = es_dns st
    \<and> es_handle (cgroup_turn V C now st) = es_handle st \<and> untouched st (cgroup_turn V C now st)
    \<and> es_lastSweep (cgroup_turn V C now st) = es_lastSweep st"
proof (cases "Apply (ee_nft V) (ec_plan C) (es_kernel st)")
  case (Pair r k)
  show ?thesis
  proof (cases r)
    case (Inl e)
    then have "k = es_kernel st" using Apply_fails Pair by metis
    then show ?thesis
      using Pair Inl by (simp add: cgroup_turn_def Let_def untouched_def split: option.splits)
  next
    case (Inr fresh)
    then show ?thesis
      using Pair assms
      by (simp add: cgroup_turn_def Let_def untouched_def reloads_def split: option.splits)
  qed
qed

lemma cgroup_turn_reload:
  assumes "config_of p C" and "nft_lawful (ee_nft V) (ee_ord V) view" and "reloads V C now st"
  obtains fresh k where "Apply (ee_nft V) (ec_plan C) (es_kernel st) = (Inr fresh, k)"
    and "\<And>i ip. \<not> holds (view k) i ip" and "untouched st (cgroup_turn V C now st)"
    and "es_handle (cgroup_turn V C now st) = Some fresh"
    and "ca_MinTTL (es_dns (cgroup_turn V C now st)) = ca_MinTTL (es_dns st)"
    and "\<And>ip t. \<forall>a \<in> seeds C V. \<forall>ad \<in> set (an_Addrs a). da_IP ad \<noteq> Unmap ip \<Longrightarrow>
        cache_Lookup (es_dns (cgroup_turn V C now st)) ip t = cache_Lookup (es_dns st) ip t"
    and "gains (flush_ok (ee_nft V)) (ec_set C) (seeds C V)
         (view k) (view (es_kernel (cgroup_turn V C now st)))"
proof -
  obtain h fresh k where h: "es_handle st = Some h" "5 * Second < now - es_lastCgroupCheck st"
    "appeared (ee_nft V) (Missing h)"
    and a: "Apply (ee_nft V) (ec_plan C) (es_kernel st) = (Inr fresh, k)"
    using assms(3) by (auto simp: reloads_def)
  let ?st = "say (''egresswall: table reloaded, cgroup rules now active'' # warnMissing (Missing fresh))
                (st\<lparr>es_lastCgroupCheck := now, es_kernel := k\<rparr>)"
  have c: "cgroup_turn V C now st = seed_state V C fresh ?st"
    using h a by (simp add: cgroup_turn_def Let_def)
  note o = seed_state_outcome[OF assms(2) Apply_loaded(4)[OF assms(1) a], of ?st, folded c]
  have "untouched st ?st" by (simp add: untouched_def)
  then have "untouched st (cgroup_turn V C now st)" using o untouched_trans by blast
  moreover have "\<not> holds (view k) i ip" for i ip
    using Apply_view[OF _ a] assms(2) by (auto simp: nft_lawful_def)
  ultimately show thesis using o by (intro that[OF a]) auto
qed

section \<open>What the daemon has heard\<close>

text \<open>The DNS answers in what a read returns.\<close>

fun heard1 :: "('d, 'p) dns_parser \<Rightarrow> 'r read_result \<Rightarrow> answer set" where
  "heard1 P (ReadFrame frame outgoing) =
     {a. \<not> outgoing \<and> (\<exists>p. packet_Parse frame = Inr p \<and> IsUDP p \<and> pk_SrcPort p = 53
        \<and> dns_Parse P (pk_Payload p) = Some (a, None) \<and> an_Name a \<noteq> [])}"
| "heard1 P ReadTimeout = {}"
| "heard1 P (ReadError e) = {}"

definition heard :: "('e, 'k, 'd, 'p, 'r) turn list \<Rightarrow> answer set" where
  "heard ts = (\<Union>(V, r, now) \<in> set ts. heard1 (ee_parser V) r)"

definition run_seeds :: "enforce_config \<Rightarrow> ('e, 'k, 'd, 'p, 'r) turn list \<Rightarrow> answer set" where
  "run_seeds C ts = (\<Union>(V, r, now) \<in> set ts. seeds C V)"

definition lawful_run :: "('k \<Rightarrow> set_view) \<Rightarrow> ('e, 'k, 'd, 'p, 'r) turn list \<Rightarrow> bool" where
  "lawful_run view ts \<longleftrightarrow> (\<forall>(V, r, now) \<in> set ts. nft_lawful (ee_nft V) (ee_ord V) view)"

lemma run_simps [simp]:
  "heard [] = {}" "heard (ts @ [(V, r, now)]) = heard ts \<union> heard1 (ee_parser V) r"
  "run_seeds C [] = {}" "run_seeds C (ts @ [(V, r, now)]) = run_seeds C ts \<union> seeds C V"
  "lawful_run view []"
  "lawful_run view (ts @ [(V, r, now)]) \<longleftrightarrow> lawful_run view ts \<and> nft_lawful (ee_nft V) (ee_ord V) view"
  by (auto simp: heard_def run_seeds_def lawful_run_def)

text \<open>The states an outgoing packet leads to before the cgroup check.\<close>

definition after_report ::
  "('e, 'k, 'd, 'p) enforce_env \<Rightarrow> enforce_config \<Rightarrow> bool \<Rightarrow> packet \<Rightarrow> time \<Rightarrow> 'k enforce_state \<Rightarrow> 'k enforce_state" where
  "after_report V C outgoing p now st =
     (let st = (if outgoing \<and> (IsTCP p \<and> pk_SYN p \<and> \<not> pk_ACK p \<or> IsUDP p) \<and> \<not> IsLoopback (pk_Dst p)
                then report C (ee_owner V) p now st else st) in
      if 30 * Second < now - es_lastSweep st
      then st\<lparr>es_dns := cache_Purge (es_dns st) now, es_lastSweep := now\<rparr> else st)"

lemma cache_Purge_MinTTL [simp]: "ca_MinTTL (cache_Purge c now) = ca_MinTTL c"
  by (simp add: cache_Purge_def)

lemma after_report_keeps:
  "es_handle (after_report V C outgoing p now st) = es_handle st"
  "es_kernel (after_report V C outgoing p now st) = es_kernel st"
  "prefix (es_log st) (es_log (after_report V C outgoing p now st))"
  "daemon_ok C st \<Longrightarrow> daemon_ok C (after_report V C outgoing p now st)"
  using report_ok[of C st "ee_owner V" p now] report_log[of st C "ee_owner V" p now]
  by (auto simp: after_report_def Let_def daemon_ok_def)

text \<open>The four ways a turn of the loop goes.\<close>

lemma enforce_turn_cases:
  assumes "enforce_turn V C r now st = Inr st'"
  obtains (idle) "st' = st" "heard1 (ee_parser V) r = {}"
  | (dns) frame p where "r = ReadFrame frame False" "packet_Parse frame = Inr p" "IsUDP p" "pk_SrcPort p = 53"
      "dns_turn V C (pk_Payload p) now st = Some st'"
      "heard1 (ee_parser V) r = {a. dns_Parse (ee_parser V) (pk_Payload p) = Some (a, None) \<and> an_Name a \<noteq> []}"
  | (other) frame outgoing p where "r = ReadFrame frame outgoing" "packet_Parse frame = Inr p"
      "st' = cgroup_turn V C now (after_report V C outgoing p now st)" "heard1 (ee_parser V) r = {}"
proof (cases r)
  case (ReadFrame frame outgoing)
  show thesis
  proof (cases "packet_Parse frame")
    case (Inl e)
    with ReadFrame assms show thesis by (intro idle) (auto simp: enforce_turn_def)
  next
    case (Inr p)
    show thesis
    proof (cases "\<not> outgoing \<and> IsUDP p \<and> pk_SrcPort p = 53")
      case True
      then have "dns_turn V C (pk_Payload p) now st = Some st'"
        using assms ReadFrame Inr by (simp add: enforce_turn_def split: option.splits)
      then show thesis using True ReadFrame Inr by (intro dns[of frame p]) auto
    next
      case False
      then have "st' = cgroup_turn V C now (after_report V C outgoing p now st)"
        using assms ReadFrame Inr
        by (simp only: enforce_turn_def read_result.case sum.case if_not_P[OF False] if_False after_report_def
            Let_def sum.inject)
      then show thesis using False ReadFrame Inr by (intro other[of frame outgoing p]) auto
    qed
  qed
qed (use assms idle in \<open>auto simp: enforce_turn_def\<close>)

section \<open>Runs\<close>

lemma enforce_loop_snoc:
  "enforce_loop C (ts @ [(V, r, now)]) st =
     (case enforce_loop C ts st of Inl e \<Rightarrow> Inl e | Inr st' \<Rightarrow> enforce_turn V C r now st')"
  by (auto simp: enforce_loop_def fold_res_append split: sum.splits)

lemma cgroup_turn_ok:
  assumes "config_of p C" and "nft_lawful (ee_nft V) (ee_ord V) view" and "daemon_ok C st"
  shows "daemon_ok C (cgroup_turn V C now st) \<and> untouched st (cgroup_turn V C now st)"
proof (cases "reloads V C now st")
  case False
  then show ?thesis using cgroup_turn_idle[OF False] assms(3) by (auto simp: daemon_ok_def untouched_def)
next
  case True
  then have "\<not> ec_dryRun C" using assms(3) by (auto simp: reloads_def daemon_ok_def)
  from True show ?thesis
  proof (rule cgroup_turn_reload[OF assms(1,2)])
    fix fresh k
    assume a: "Apply (ee_nft V) (ec_plan C) (es_kernel st) = (Inr fresh, k)"
      "untouched st (cgroup_turn V C now st)" "es_handle (cgroup_turn V C now st) = Some fresh"
      "ca_MinTTL (es_dns (cgroup_turn V C now st)) = ca_MinTTL (es_dns st)"
    then show ?thesis
      using Apply_loaded[OF assms(1) a(1)] assms(3) \<open>\<not> ec_dryRun C\<close> by (auto simp: daemon_ok_def untouched_def)
  qed
qed

lemma enforce_turn_ok:
  assumes "config_of p C" and "nft_lawful (ee_nft V) (ee_ord V) view" and "daemon_ok C st"
    and "enforce_turn V C r now st = Inr st'"
  shows "daemon_ok C st' \<and> prefix (es_log st) (es_log st')"
  using assms(4)
proof (cases rule: enforce_turn_cases)
  case idle
  then show ?thesis using assms(3) by simp
next
  case dns
  then show ?thesis using dns_turn_outcome[OF assms(1-3)] by (auto simp: untouched_def)
next
  case (other frame outgoing p)
  let ?st = "after_report V C outgoing p now st"
  have "daemon_ok C st' \<and> untouched ?st st'"
    unfolding other by (rule cgroup_turn_ok[OF assms(1,2) after_report_keeps(4)[OF assms(3)]])
  then show ?thesis
    using after_report_keeps(3)[of st V C outgoing p now]
    by (auto simp: untouched_def intro: prefix_order.trans)
qed

lemma enforce_start_cases:
  assumes "config_of p C" and "nft_lawful (ee_nft V) (ee_ord V) view"
    and "enforce_start V C path now k = Inr st"
  obtains (dry) "ec_dryRun C" "daemon_ok C st" "es_kernel st = k" "es_handle st = None"
  | (loaded) h k1 where "\<not> ec_dryRun C" "daemon_ok C st" "Apply (ee_nft V) (ec_plan C) k = (Inr h, k1)"
      "es_handle st = Some h" "\<And>i ip. \<not> holds (view k1) i ip"
      "gains (flush_ok (ee_nft V)) (ec_set C) (seeds C V)
         (view k1) (view (es_kernel st))"
proof (cases "ec_dryRun C")
  case True
  then show thesis
    using assms(3)
    by (intro dry) (auto simp: enforce_start_def Let_def daemon_ok_def say_def cache_New_def)
next
  case False
  obtain r k1 where a: "Apply (ee_nft V) (ec_plan C) k = (r, k1)" by fastforce
  then obtain h where r: "r = Inr h" using assms(3) False
    by (cases r) (auto simp: enforce_start_def Let_def)
  define st1 where "st1 = say ((''egresswall: enforcing '' @ path @ '' ('' @ itoa (length (pn_Atoms (ec_plan C))) @ '' rules, ''
                       @ itoa (length (pn_Sets (ec_plan C))) @ '' address sets)'') # warnMissing (Missing h))
      \<lparr>es_handle = None, es_dns = cache_New learnMinTTL, es_seen = (\<lambda>_. None), es_lastSweep = now,
       es_lastCgroupCheck = now, es_kernel = k1, es_log = [], es_alerts = []\<rparr>"
  have st: "st = seed_state V C h st1"
    using assms(3) False a r by (simp add: enforce_start_def Let_def st1_def)
  have i: "es_kernel st1 = k1" "es_alerts st1 = []" "ca_MinTTL (es_dns st1) = learnMinTTL"
    by (simp_all add: st1_def cache_New_def)
  note l = Apply_loaded[OF assms(1) a[unfolded r]]
  note o = seed_state_outcome[OF assms(2) l(4), of st1, folded st]
  have "daemon_ok C st" using False i o l by (auto simp: daemon_ok_def untouched_def)
  moreover have "\<not> holds (view k1) i ip" for i ip
    using Apply_view[OF _ a[unfolded r]] assms(2) by (auto simp: nft_lawful_def)
  ultimately show thesis using False a r o i by (intro loaded[of h k1]) simp_all
qed

lemma enforce_run_ok:
  assumes "config_of p C" and "lawful_run view ts" and "daemon_ok C st0"
    and "enforce_loop C ts st0 = Inr st"
  shows "daemon_ok C st"
  using assms(2,4)
proof (induction ts arbitrary: st rule: rev_induct)
  case Nil
  then show ?case using assms(3) by (auto simp: enforce_loop_def)
next
  case (snoc x ts)
  obtain V r t where x: "x = (V, r, t)" by (cases x)
  from snoc.prems obtain st1 where "enforce_loop C ts st0 = Inr st1" "enforce_turn V C r t st1 = Inr st"
    by (auto simp: x enforce_loop_snoc split: sum.splits)
  with snoc enforce_turn_ok[OF assms(1)] show ?case unfolding x run_simps by blast
qed

lemma enforce_turn_InlD: "enforce_turn V C r now st = Inl (e, st') \<Longrightarrow> st' = st"
  by (auto simp: enforce_turn_def Let_def split: read_result.splits sum.splits option.splits if_splits)

text \<open>A run that a failed read ends leaves the state of the turns before it.\<close>

lemma enforce_loop_InlD:
  assumes "enforce_loop C ts st0 = Inl (e, st)"
  obtains pre where "prefix pre ts" and "enforce_loop C pre st0 = Inr st"
proof -
  obtain pre x post t where p: "ts = pre @ x # post" "enforce_loop C pre st0 = Inr t"
    "(\<lambda>(V, r, now). enforce_turn V C r now) x t = Inl (e, st)"
    using fold_res_InlD[of "\<lambda>(V, r, now). enforce_turn V C r now" ts st0 "(e, st)"] assms
    by (auto simp: enforce_loop_def)
  then have "st = t" using enforce_turn_InlD by (cases x) auto
  then show thesis using that[of pre] p by (simp add: prefix_def)
qed

lemma lawful_run_prefix: "lawful_run view ts \<Longrightarrow> prefix pre ts \<Longrightarrow> lawful_run view pre"
  by (auto simp: lawful_run_def dest: set_mono_prefix)

section \<open>The sets and the answers\<close>

text \<open>Every address in a set comes from an answer of \<open>A\<close>.\<close>

definition justified :: "policy_set \<Rightarrow> answer set \<Rightarrow> set_view \<Rightarrow> bool" where
  "justified s A v \<longleftrightarrow> (\<forall>i ip. holds v i ip \<longrightarrow> (\<exists>a \<in> A. answers s a i ip))"

lemma justified_gains:
  "justified s A v \<Longrightarrow> gains b s B v v' \<Longrightarrow> justified s (A \<union> B) v'"
  unfolding justified_def gains_def by blast

lemma justified_mono: "justified s A v \<Longrightarrow> A \<subseteq> B \<Longrightarrow> justified s B v"
  unfolding justified_def by blast

lemma enforce_turn_justified:
  assumes "config_of p C" and "nft_lawful (ee_nft V) (ee_ord V) view" and "daemon_ok C st"
    and "\<not> ec_dryRun C" and "enforce_turn V C r now st = Inr st'"
    and "justified (ec_set C) A (view (es_kernel st))"
  shows "justified (ec_set C) (A \<union> (seeds C V \<union> heard1 (ee_parser V) r))
     (view (es_kernel st'))"
  using assms(5)
proof (cases rule: enforce_turn_cases)
  case idle
  then show ?thesis using assms(6) by (auto intro: justified_mono)
next
  case (dns frame p)
  obtain h where "es_handle st = Some h" using assms(3,4) by (auto simp: daemon_ok_def)
  then have "gains (flush_ok (ee_nft V)) (ec_set C) (heard1 (ee_parser V) r) (view (es_kernel st)) (view (es_kernel st'))"
    using dns_turn_outcome[OF assms(1-3) dns(5)] unfolding dns(6) by simp
  from justified_gains[OF assms(6) this] show ?thesis by (rule justified_mono) blast
next
  case (other frame outgoing p)
  let ?st = "after_report V C outgoing p now st"
  show ?thesis
  proof (cases "reloads V C now ?st")
    case False
    then show ?thesis
      using cgroup_turn_idle[OF False] assms(6)
      by (simp add: other(3,4) after_report_keeps) (auto intro: justified_mono)
  next
    case True
    from True show ?thesis
    proof (rule cgroup_turn_reload[OF assms(1,2)])
      fix k assume e: "\<And>i ip. \<not> holds (view k) i ip"
        and g: "gains (flush_ok (ee_nft V)) (ec_set C) (seeds C V)
         (view k) (view (es_kernel (cgroup_turn V C now ?st)))"
      have "justified (ec_set C) {} (view k)" using e by (simp add: justified_def)
      from justified_gains[OF this g] show ?thesis
        unfolding other(3) by (rule justified_mono) blast
    qed
  qed
qed

lemma enforce_run_justified:
  assumes "config_of p C" and "lawful_run view ts" and "daemon_ok C st0" and "\<not> ec_dryRun C"
    and "justified (ec_set C) A (view (es_kernel st0))" and "enforce_loop C ts st0 = Inr st"
  shows "justified (ec_set C) (A \<union> run_seeds C ts \<union> heard ts) (view (es_kernel st))"
  using assms(2,6)
proof (induction ts arbitrary: st rule: rev_induct)
  case Nil
  then show ?case using assms(5) by (simp add: enforce_loop_def)
next
  case (snoc x ts)
  obtain V r t where x: "x = (V, r, t)" by (cases x)
  from snoc.prems obtain st1 where s: "enforce_loop C ts st0 = Inr st1" "enforce_turn V C r t st1 = Inr st"
    by (auto simp: x enforce_loop_snoc split: sum.splits)
  have l: "lawful_run view ts" "nft_lawful (ee_nft V) (ee_ord V) view" using snoc.prems(1) by (simp_all add: x)
  show ?case
    unfolding x run_simps
    by (rule justified_mono[OF enforce_turn_justified[OF assms(1) l(2) enforce_run_ok[OF assms(1) l(1) assms(3) s(1)]
            assms(4) s(2) snoc.IH[OF l(1) s(1)]]]) blast
qed

lemma enforce_start_justified:
  assumes "config_of p C" and "nft_lawful (ee_nft V) (ee_ord V) view" and "\<not> ec_dryRun C"
    and "enforce_start V C path now k = Inr st0"
  shows "justified (ec_set C) (seeds C V) (view (es_kernel st0))"
proof (cases rule: enforce_start_cases[OF assms(1,2,4), case_names dry loaded])
  case (loaded h k1)
  then have "justified (ec_set C) {} (view k1)" by (simp add: justified_def)
  from justified_gains[OF this loaded(6)] show ?thesis by simp
qed (use assms(3) in simp)

text \<open>With no cgroup missing the table is never loaded again, and nothing heard is lost.\<close>

lemma no_reload: "es_handle st = Some h \<Longrightarrow> Missing h = [] \<Longrightarrow> \<not> reloads V C now st"
  by (simp add: reloads_def appeared_def)

lemma enforce_turn_gains:
  assumes "config_of p C" and "nft_lawful (ee_nft V) (ee_ord V) view" and "daemon_ok C st"
    and "es_handle st = Some h" and "Missing h = []" and "enforce_turn V C r now st = Inr st'"
  shows "es_handle st' = Some h
    \<and> gains (flush_ok (ee_nft V)) (ec_set C) (heard1 (ee_parser V) r) (view (es_kernel st)) (view (es_kernel st'))"
  using assms(6)
proof (cases rule: enforce_turn_cases)
  case idle
  then show ?thesis using assms(4) by (simp add: gains_refl)
next
  case (dns frame p)
  then show ?thesis
    using dns_turn_outcome[OF assms(1-3) dns(5)] assms(4) by simp
next
  case (other frame outgoing p)
  let ?st = "after_report V C outgoing p now st"
  have "\<not> reloads V C now ?st"
    using assms(4,5) by (intro no_reload[where h = h]) (simp_all add: after_report_keeps)
  then show ?thesis
    using cgroup_turn_idle[of V C now ?st] assms(4) by (simp add: other(3,4) after_report_keeps gains_refl)
qed

lemma enforce_run_gains:
  assumes "config_of p C" and "lawful_run view ts" and "\<forall>(V, r, now) \<in> set ts. flush_ok (ee_nft V)"
    and "daemon_ok C st0" and "es_handle st0 = Some h" and "Missing h = []" and "enforce_loop C ts st0 = Inr st"
  shows "es_handle st = Some h \<and> gains True (ec_set C) (heard ts) (view (es_kernel st0)) (view (es_kernel st))"
  using assms(2,3,7)
proof (induction ts arbitrary: st rule: rev_induct)
  case Nil
  then show ?case using assms(5) by (simp add: enforce_loop_def gains_refl)
next
  case (snoc x ts)
  obtain V r t where x: "x = (V, r, t)" by (cases x)
  from snoc.prems obtain st1 where s: "enforce_loop C ts st0 = Inr st1" "enforce_turn V C r t st1 = Inr st"
    by (auto simp: x enforce_loop_snoc split: sum.splits)
  have l: "lawful_run view ts" "nft_lawful (ee_nft V) (ee_ord V) view" using snoc.prems(1) by (simp_all add: x)
  have f: "flush_ok (ee_nft V)" using snoc.prems(2) by (simp add: x)
  have i: "es_handle st1 = Some h \<and> gains True (ec_set C) (heard ts) (view (es_kernel st0)) (view (es_kernel st1))"
    using snoc.IH[OF l(1) _ s(1)] snoc.prems(2) by simp
  note g = enforce_turn_gains[OF assms(1) l(2) enforce_run_ok[OF assms(1) l(1) assms(4) s(1)] i[THEN conjunct1] assms(6) s(2)]
  show ?case
    using g gains_trans[OF i[THEN conjunct2], of "heard1 (ee_parser V) r"] f by (simp add: x)
qed

lemma enforce_run_exact:
  assumes "config_of p C" and "nft_lawful (ee_nft V) (ee_ord V) view" and "lawful_run view ts"
    and "flush_ok (ee_nft V)" and "\<forall>(V, r, now) \<in> set ts. flush_ok (ee_nft V)"
    and "enforce_start V C path now k = Inr st0" and "es_handle st0 = Some h" and "Missing h = []"
    and "enforce_loop C ts st0 = Inr st"
  shows "holds (view (es_kernel st)) i ip \<longleftrightarrow> (\<exists>a \<in> seeds C V \<union> heard ts. answers (ec_set C) a i ip)"
proof (cases rule: enforce_start_cases[OF assms(1,2,6), case_names dry loaded])
  case dry
  then show ?thesis using assms(7) by simp
next
  case (loaded h' k1)
  have "gains True (ec_set C) (seeds C V) (view k1) (view (es_kernel st0))"
    using loaded(6) assms(4) by simp
  from gains_trans[OF this enforce_run_gains[OF assms(1,3,5) loaded(2) assms(7-9), THEN conjunct2]]
  show ?thesis using loaded(5) unfolding gains_def by blast
qed

section \<open>Reports\<close>

definition report_key :: "packet \<Rightarrow> string" where
  "report_key p =
     Addr_String (pk_Dst p) @ '':'' @ itoa (unat (pk_DstPort p)) @ ''/'' @ (if IsUDP p then ''udp'' else ''tcp'')"

definition throttled :: "'k enforce_state \<Rightarrow> string \<Rightarrow> time \<Rightarrow> bool" where
  "throttled st key now = (case es_seen st key of None \<Rightarrow> False | Some at \<Rightarrow> now - at < 10 * Second)"

lemma report_dest_Proto: "d_Proto (report_dest owner dns p now) = (if IsUDP p then ''udp'' else ''tcp'')"
  by (simp add: report_dest_def Let_def)

lemma report_throttled: "throttled st (report_key p) now \<Longrightarrow> report C owner p now st = st"
  by (simp add: report_def throttled_def report_key_def report_dest_Proto Let_def)

lemma report_fresh:
  assumes "\<not> throttled st (report_key p) now"
  shows "report C owner p now st =
    (let d = report_dest owner (es_dns st) p now; dec = Evaluate (ec_set C) d in
     st\<lparr>es_seen := (es_seen st)(report_key p \<mapsto> now),
        es_log := es_log st @ (if dc_Verdict dec = Allow \<and> \<not> ec_verbose C then [] else [report_line C d dec]),
        es_alerts := es_alerts st @
          (if dc_Verdict dec = Deny \<and> ec_dryRun C \<and> ec_sink C then
             [\<lparr>ae_At = now, ae_Rule = dc_Rule dec, ae_Host = d_Domain d, ae_IP = pk_Dst p,
               ae_Port = pk_DstPort p, ae_Proto = d_Proto d, ae_Cgroup = d_Cgroup d\<rparr>] else [])\<rparr>)"
  using assms
  by (simp add: report_def throttled_def report_key_def report_dest_Proto Let_def say_def)

lemma report_seen:
  "es_seen (report C owner p now st) =
     (if throttled st (report_key p) now then es_seen st else (es_seen st)(report_key p \<mapsto> now))"
  by (simp add: report_throttled report_fresh Let_def)

lemma seed_state_seen [simp]:
  "es_seen (seed_state V C h st) = es_seen st" "es_alerts (seed_state V C h st) = es_alerts st"
  by (simp_all add: seed_state_def Let_def split: prod.splits)

lemma cgroup_turn_seen [simp]:
  "es_seen (cgroup_turn V C now st) = es_seen st" "es_alerts (cgroup_turn V C now st) = es_alerts st"
  by (auto simp: cgroup_turn_def Let_def split: option.splits prod.splits sum.splits)

lemma dns_turn_seen:
  "dns_turn V C payload now st = Some st' \<Longrightarrow> es_seen st' = es_seen st \<and> es_alerts st' = es_alerts st"
  by (auto simp: dns_turn_def Let_def split: option.splits prod.splits if_splits)

lemma enforce_turn_seen:
  assumes "enforce_turn V C r now st = Inr st'" and "es_seen st key = Some t0" and "now < t0 + 10 * Second"
  shows "es_seen st' key = Some t0"
  using assms(1)
proof (cases rule: enforce_turn_cases)
  case (other frame outgoing p)
  have "es_seen (report C (ee_owner V) p now st) key = Some t0"
    using assms(2,3) by (auto simp: report_seen throttled_def)
  then show ?thesis using assms(2) by (simp add: other(3) after_report_def Let_def)
next
  case (dns frame p)
  then show ?thesis using dns_turn_seen[OF dns(5)] assms by simp
qed (use assms in simp)

lemma enforce_loop_seen:
  assumes "enforce_loop C ts st = Inr st'" and "es_seen st key = Some t0"
    and "\<forall>(V, r, now) \<in> set ts. now < t0 + 10 * Second"
  shows "es_seen st' key = Some t0"
  using assms(1,3)
proof (induction ts arbitrary: st' rule: rev_induct)
  case Nil
  then show ?case using assms(2) by (simp add: enforce_loop_def)
next
  case (snoc x ts)
  obtain W r t where x: "x = (W, r, t)" by (cases x)
  from snoc.prems obtain st1 where "enforce_loop C ts st = Inr st1" "enforce_turn W C r t st1 = Inr st'"
    by (auto simp: x enforce_loop_snoc split: sum.splits)
  with snoc.IH snoc.prems enforce_turn_seen show ?case by (fastforce simp: x)
qed

section \<open>Dry runs\<close>

lemma dns_turn_dry:
  "dns_turn V C payload now st = Some st' \<Longrightarrow> es_handle st = None \<Longrightarrow>
     es_handle st' = None \<and> es_kernel st' = es_kernel st"
  by (auto simp: dns_turn_def Let_def split: option.splits prod.splits if_splits)

lemma cgroup_turn_dry: "es_handle st = None \<Longrightarrow> cgroup_turn V C now st = st"
  by (simp add: cgroup_turn_def)

lemma enforce_turn_dry:
  assumes "enforce_turn V C r now st = Inr st'" and "es_handle st = None"
  shows "es_handle st' = None \<and> es_kernel st' = es_kernel st"
  using assms(1)
proof (cases rule: enforce_turn_cases)
  case (other frame outgoing p)
  then show ?thesis using assms(2) by (simp add: cgroup_turn_dry after_report_keeps)
next
  case (dns frame p)
  then show ?thesis using dns_turn_dry[OF dns(5)] assms by simp
qed (use assms in simp)

text \<open>An alert of the main loop is a refusal of the policy.\<close>

definition alert_denied :: "policy_set \<Rightarrow> alert_event \<Rightarrow> bool" where
  "alert_denied s e \<longleftrightarrow>
     (let dec = Evaluate s \<lparr>d_Domain = ae_Host e, d_IP = ae_IP e, d_Port = ae_Port e, d_Proto = ae_Proto e,
                            d_Cgroup = ae_Cgroup e\<rparr> in
      dc_Verdict dec = Deny \<and> dc_Rule dec = ae_Rule e)"

lemma report_alerts_denied:
  assumes "\<forall>e \<in> set (es_alerts st). alert_denied (ec_set C) e"
  shows "\<forall>e \<in> set (es_alerts (report C owner p now st)). alert_denied (ec_set C) e"
proof (cases "throttled st (report_key p) now")
  case False
  define d where "d = report_dest owner (es_dns st) p now"
  have "\<lparr>d_Domain = d_Domain d, d_IP = pk_Dst p, d_Port = pk_DstPort p, d_Proto = d_Proto d, d_Cgroup = d_Cgroup d\<rparr> = d"
    by (simp add: d_def report_dest_def Let_def)
  then show ?thesis
    using assms unfolding report_fresh[OF False] d_def[symmetric] Let_def by (auto simp: alert_denied_def)
next
  case True
  then show ?thesis using assms report_throttled[OF True] by simp
qed

lemma enforce_turn_alerts:
  assumes "enforce_turn V C r now st = Inr st'" and "\<forall>e \<in> set (es_alerts st). alert_denied (ec_set C) e"
  shows "\<forall>e \<in> set (es_alerts st'). alert_denied (ec_set C) e"
  using assms(1)
proof (cases rule: enforce_turn_cases)
  case (other frame outgoing p)
  then show ?thesis
    using assms(2) report_alerts_denied[OF assms(2)] by (simp add: after_report_def Let_def)
next
  case (dns frame p)
  then show ?thesis using dns_turn_seen[OF dns(5)] assms by simp
qed (use assms in simp)

lemma enforce_dry_run:
  assumes "ec_dryRun C" and "enforce_start V C path now k = Inr st0" and "enforce_loop C ts st0 = Inr st"
  shows "es_handle st = None \<and> es_kernel st = k \<and> (\<forall>e \<in> set (es_alerts st). alert_denied (ec_set C) e)"
  using assms(3)
proof (induction ts arbitrary: st rule: rev_induct)
  case Nil
  then show ?case using assms(1,2) by (auto simp: enforce_loop_def enforce_start_def Let_def)
next
  case (snoc x ts)
  obtain W r t where x: "x = (W, r, t)" by (cases x)
  from snoc.prems obtain st1 where s: "enforce_loop C ts st0 = Inr st1" "enforce_turn W C r t st1 = Inr st"
    by (auto simp: x enforce_loop_snoc split: sum.splits)
  show ?case
    using snoc.IH[OF s(1)] enforce_turn_dry[OF s(2)] enforce_turn_alerts[OF s(2)] by simp
qed

section \<open>Timeouts\<close>

lemma Record_expires:
  assumes "distinct (map da_IP (an_Addrs a))" and "ad \<in> set (an_Addrs a)" and "\<not> Is4In6 (da_IP ad)"
  shows "cache_Lookup (cache_Record c a now) (da_IP ad) t =
    (if now + max (ca_MinTTL c) (da_TTL ad) < t then None else Some (an_Name a))"
proof -
  let ?es = "answer_entries (ca_MinTTL c) a now"
  have m: "(da_IP ad, an_Name a, now + max (ca_MinTTL c) (da_TTL ad)) \<in> set (rev ?es)"
    using assms(2) by (auto simp: answer_entries_def)
  have d: "distinct (map fst (rev ?es))"
    using assms(1) by (simp add: answer_entries_def comp_def rev_map[symmetric])
  have "find (\<lambda>(k, n, e). k = x) es = Some (x, y)" if "(x, y) \<in> set es" "distinct (map fst es)"
    for x and y :: "string \<times> time" and es
    using that by (induction es) (force simp: split: prod.splits)+
  from this[OF m d] show ?thesis
    by (simp add: cache_Record_puts dns_cache.lookup_puts Unmap_id[OF assms(3)])
qed

section \<open>A kernel that keeps sets\<close>

text \<open>
  A reference kernel to try the definitions on: no table, or the pairs of set name and key in it. It
  takes every batch.
\<close>

type_synonym ref_kernel = "(string \<times> bytes) list option"

definition ref_elements :: "ref_kernel \<Rightarrow> (string \<times> bytes) list" where
  "ref_elements k = (case k of None \<Rightarrow> [] | Some es \<Rightarrow> es)"

fun ref_op :: "op \<Rightarrow> ref_kernel \<Rightarrow> ref_kernel" where
  "ref_op (OpDelTable t) k = None"
| "ref_op (OpAddTable t) k = Some (ref_elements k)"
| "ref_op (OpAddSet s els) k = Some (ref_elements k @ map (\<lambda>e. (ns_Name s, el_Key e)) els)"
| "ref_op (OpSetAddElements n els) k = Some (ref_elements k @ map (\<lambda>e. (n, el_Key e)) els)"
| "ref_op (OpAddChain c hook pol) k = k"
| "ref_op (OpAddRule c xs) k = k"

definition ref_view :: "ref_kernel \<Rightarrow> set_view" where
  "ref_view k n key \<longleftrightarrow> (n, key) \<in> set (ref_elements k)"

definition ref_env :: "(string \<Rightarrow> unit stat_result) \<Rightarrow> (unit, ref_kernel) nft_env" where
  "ref_env stat =
     \<lparr>ev_New = None, ev_ListTables = (\<lambda>k. Inr (case k of None \<Rightarrow> [] | Some _ \<Rightarrow> [TableName])),
      ev_AddSet = (\<lambda>_. None), ev_SetAddElements = (\<lambda>_ _. None),
      ev_Flush = (\<lambda>ops k. Inr (fold ref_op ops k)), ev_Stat = stat, ev_BigEndian = False\<rparr>"

lemma ref_op_view: "ref_view (ref_op x k) = set_effect x (ref_view k)"
  by (cases x) (auto simp: ref_view_def ref_elements_def fun_eq_iff image_iff split: option.splits)

lemma ref_ops_view: "ref_view (fold ref_op ops k) = fold set_effect ops (ref_view k)"
  by (induction ops arbitrary: k) (simp_all add: ref_op_view)

lemma ref_view_None: "ref_view None = (\<lambda>_ _. False)"
  by (simp add: ref_view_def ref_elements_def fun_eq_iff)

lemma ref_lawful: "nft_lawful (ref_env stat) (\<lambda>ns. ns) ref_view"
proof -
  have "ref_view k = (\<lambda>_ _. False)"
    if "ev_ListTables (ref_env stat) k = Inr ts" "TableName \<notin> set ts" for k ts
    using that by (cases k) (auto simp: ref_env_def ref_view_None)
  then show ?thesis by (auto simp: nft_lawful_def kernel_sets_def ref_env_def ref_ops_view)
qed

lemma ref_flush_ok: "flush_ok (ref_env stat)"
  by (simp add: flush_ok_def ref_env_def)

definition example_world ::
  "bool \<Rightarrow> (unit, ref_kernel, unit, (rr_type \<times> u32 \<times> bytes) list) enforce_env" where
  "example_world up =
     \<lparr>ee_nft = ref_env (\<lambda>p. if up \<and> p = ''/sys/fs/cgroup/a.slice'' then StatIno 5 else StatNotExist), ee_ord = (\<lambda>ns. ns),
      ee_show = (\<lambda>_. ''refused''),
      ee_parser = list_parser ''a.ok.io'' [(TypeA, 60, [5, 6, 7, 8])], ee_owner = (\<lambda>_ _ _. []),
      ee_resolve = (\<lambda>name. (if name = ''ok.io'' then Inr [Addr4 0x05060709] else Inl ''no such host'', 0))\<rparr>"

definition example_config :: "bool \<Rightarrow> enforce_config" where
  "example_config dry = enforce_config_of example_set False dry False True"

text \<open>A response from a name server, and the first packet of a connection to 1.2.3.4:80.\<close>

definition dns_frame :: bytes where
  "dns_frame = [0x45, 0, 0, 29, 0, 0, 0x40, 0, 64, 17, 0, 0, 1, 1, 1, 1, 10, 0, 0, 2,
                0, 53, 0x9c, 0x40, 0, 9, 0, 0, 7]"

definition syn_frame :: bytes where
  "syn_frame = [0x45, 0, 0, 40, 0, 0, 0x40, 0, 64, 6, 0, 0, 10, 0, 0, 2, 1, 2, 3, 4,
                0xc3, 0x50, 0, 80, 0, 0, 0, 1, 0, 0, 0, 0, 0x50, 0x02, 0, 0, 0, 0, 0, 0]"

definition example_turns :: "bool \<Rightarrow> (unit, ref_kernel, unit, (rr_type \<times> u32 \<times> bytes) list, unit) turn list" where
  "example_turns up =
     [(example_world up, ReadFrame dns_frame False, 1), (example_world up, ReadTimeout, 2),
      (example_world up, ReadFrame syn_frame True, 3)]"

lemma example_config_of: "config_of example_policy (example_config dry)"
  using example_compiles by (auto simp: config_of_def example_config_def)

lemma example_lawful: "nft_lawful (ee_nft (example_world up)) (ee_ord (example_world up)) ref_view"
  using ref_lawful by (simp add: example_world_def)

lemma example_lawful_run: "lawful_run ref_view (example_turns up)"
  using example_lawful by (auto simp: lawful_run_def example_turns_def)

text \<open>A run of the loop goes on as long as no read fails and the parser of DNS messages makes progress.\<close>

lemma enforce_turn_returns:
  assumes "\<forall>e. r \<noteq> ReadError e" and "dns_progress (ee_parser V) m"
  shows "\<exists>st'. enforce_turn V C r now st = Inr st'"
proof -
  have "dns_Parse (ee_parser V) payload \<noteq> None" for payload
    using answer_loop_returns[OF assms(2)] by (auto simp: dns_Parse_def Let_def split: sum.splits)
  then have "dns_turn V C payload now st \<noteq> None" for payload
    by (auto simp: dns_turn_def Let_def split: option.splits prod.splits)
  then have dt: "\<exists>st'. dns_turn V C payload now st = Some st'" for payload by blast
  show ?thesis
  proof (cases r)
    case (ReadFrame frame outgoing)
    show ?thesis
    proof (cases "packet_Parse frame")
      case (Inr p)
      obtain st' where "dns_turn V C (pk_Payload p) now st = Some st'" using dt by blast
      then show ?thesis
        by (cases "\<not> outgoing \<and> IsUDP p \<and> pk_SrcPort p = 53")
           (simp_all add: enforce_turn_def ReadFrame Inr Let_def)
    qed (simp add: enforce_turn_def ReadFrame)
  qed (use assms(1) in \<open>simp_all add: enforce_turn_def\<close>)
qed

lemma enforce_loop_returns:
  assumes "\<forall>(V, r, now) \<in> set ts. (\<forall>e. r \<noteq> ReadError e) \<and> (\<exists>m. dns_progress (ee_parser V) m)"
  shows "\<exists>st'. enforce_loop C ts st = Inr st'"
  using assms
proof (induction ts arbitrary: st)
  case Nil
  then show ?case by (simp add: enforce_loop_def)
next
  case (Cons x ts)
  obtain V r now where x: "x = (V, r, now)" by (cases x)
  obtain m where "\<forall>e. r \<noteq> ReadError e" "dns_progress (ee_parser V) m" using Cons.prems by (auto simp: x)
  from enforce_turn_returns[OF this] obtain st1 where st1: "enforce_turn V C r now st = Inr st1" by blast
  obtain st' where "enforce_loop C ts st1 = Inr st'"
    using Cons.IH[of st1] Cons.prems by (meson list.set_intros(2))
  with st1 show ?case by (simp add: enforce_loop_def x)
qed

lemma example_run:
  obtains st0 st where "enforce_start (example_world up) (example_config dry) ''p'' 0 None = Inr st0"
    and "enforce_loop (example_config dry) (example_turns up') st0 = Inr st"
proof -
  have "list_all (\<lambda>(up, dry). \<not> isl (enforce_start (example_world up) (example_config dry) ''p'' 0 None))
      [(True, True), (True, False), (False, True), (False, False)]"
    by code_simp
  then obtain st0 where st0: "enforce_start (example_world up) (example_config dry) ''p'' 0 None = Inr st0"
    by (cases up; cases dry) (auto simp: not_isl_ex)
  have "dns_progress (ee_parser (example_world up')) length"
    using list_parser_progress by (simp add: example_world_def)
  then obtain st where "enforce_loop (example_config dry) (example_turns up') st0 = Inr st"
    using enforce_loop_returns[of "example_turns up'" "example_config dry" st0]
    by (auto simp: example_turns_def)
  with st0 show thesis by (rule that)
qed

section \<open>Properties\<close>

lemma feed_never_NoSet:
  assumes "table_ready s h"
  shows "fst (AddAddrs E ord h (feed_adds (DomainRules s name) addrs) k) \<noteq> Some (NoSet n)"
proof -
  let ?adds = "feed_adds (DomainRules s name) addrs"
  have "\<forall>a \<in> set ?adds. hd_sets h (ad_Set a) \<noteq> None"
    using assms by (auto simp: set_feed_adds table_ready_def)
  then have g: "group_adds h ?adds (\<lambda>_. []) = Inr (\<lambda>m. adds_for ?adds m)"
    by (simp add: group_adds_known)
  have "fst (add_groups E g ns h') \<noteq> Some (NoSet n)" for g ns h'
    by (induction ns arbitrary: h') (auto split: option.splits)
  from this[of "\<lambda>m. adds_for ?adds m" "ord (remdups (map ad_Set ?adds))" h] show ?thesis
    by (auto simp: AddAddrs_def g split: prod.splits option.splits sum.splits)
qed

text \<open>
  C9: in every state the daemon reaches, the cache keeps names for at least \<open>learnMinTTL\<close>, there is a
  handle exactly when the run is not a dry run, its queue is empty, it knows exactly the sets of the
  plan, its missing cgroups are cgroups of the plan, and the main loop has raised an alert only in a
  dry run with a sink; so feeding a DNS answer never names a set the table does not have.
\<close>

theorem daemon_state_ok:
  assumes "config_of p C" and "nft_lawful (ee_nft V) (ee_ord V) view" and "lawful_run view ts"
    and "enforce_start V C path now k = Inr st0" and "enforce_loop C ts st0 = Inr st"
  shows "daemon_ok C st
    \<and> (\<forall>h. es_handle st = Some h \<longrightarrow>
         fst (AddAddrs E ord h (feed_adds (DomainRules (ec_set C) name) addrs) k') \<noteq> Some (NoSet n))"
proof -
  have "daemon_ok C st0" using enforce_start_cases[OF assms(1,2,4)] by blast
  then have ok: "daemon_ok C st" by (rule enforce_run_ok[OF assms(1,3) _ assms(5)])
  show ?thesis
    by (intro conjI allI impI ok feed_never_NoSet daemon_ok_ready[OF assms(1) ok])
qed

text \<open>
  C8: whatever the daemon has been through, reloads included, an address is in the set of a rule only
  if the rule covers a name that a DNS answer the daemon saw, or its own resolver at a load, gave
  that address.
\<close>

theorem sets_justified:
  assumes "config_of p C" and "nft_lawful (ee_nft V) (ee_ord V) view" and "lawful_run view ts"
    and "\<not> ec_dryRun C" and "enforce_start V C path now k = Inr st0" and "enforce_loop C ts st0 = Inr st"
    and "holds (view (es_kernel st)) i ip"
  shows "\<exists>a \<in> seeds C V \<union> run_seeds C ts \<union> heard ts. answers (ec_set C) a i ip"
proof -
  have "daemon_ok C st0" using enforce_start_cases[OF assms(1,2,5)] by blast
  from enforce_run_justified[OF assms(1,3) this assms(4) enforce_start_justified[OF assms(1,2,4,5)] assms(6)] assms(7)
  show ?thesis by (simp add: justified_def)
qed


text \<open>
  C24: a reload for a cgroup that has appeared forgets every address learned from DNS answers: after
  it, an address the resolver did not give for an exact name is in no set, while the cache goes on
  attributing its name to it.
\<close>

theorem reload_forgets:
  assumes "config_of p C" and "nft_lawful (ee_nft V) (ee_ord V) view" and "reloads V C now st"
    and "\<forall>a \<in> seeds C V. \<forall>ad \<in> set (an_Addrs a). AsSlice (Unmap (da_IP ad)) \<noteq> AsSlice (Unmap ip)"
  shows "\<not> holds (view (es_kernel (cgroup_turn V C now st))) i ip
    \<and> cache_Lookup (es_dns (cgroup_turn V C now st)) ip t = cache_Lookup (es_dns st) ip t"
proof -
  have n: "\<forall>a \<in> seeds C V. \<forall>ad \<in> set (an_Addrs a). da_IP ad \<noteq> Unmap ip"
    using assms(4) by (metis Unmap_idem)
  have na: "\<not> (\<exists>a \<in> seeds C V. answers (ec_set C) a i ip)" using assms(4) by (auto simp: answers_def)
  from assms(3) show ?thesis
  proof (rule cgroup_turn_reload[OF assms(1,2)])
    fix k assume "\<And>i ip. \<not> holds (view k) i ip"
      "\<And>ip t. \<forall>a \<in> seeds C V. \<forall>ad \<in> set (an_Addrs a). da_IP ad \<noteq> Unmap ip \<Longrightarrow>
        cache_Lookup (es_dns (cgroup_turn V C now st)) ip t = cache_Lookup (es_dns st) ip t"
      "gains (flush_ok (ee_nft V)) (ec_set C) (seeds C V) (view k) (view (es_kernel (cgroup_turn V C now st)))"
    then show ?thesis using n na unfolding gains_def by blast
  qed
qed

text \<open>
  C27: the elements of an answer stay in the sets exactly as long as the cache attributes the answer's
  name to the address: the timeout of each is the cache's stretched TTL.
\<close>

theorem feed_expires_with_cache:
  assumes "x \<in> set (feed_adds rules (an_Addrs a))" and "distinct (map da_IP (an_Addrs a))"
    and "\<not> Is4In6 (ad_IP x)" and "ca_MinTTL c = learnMinTTL"
  shows "cache_Lookup (cache_Record c a now) (ad_IP x) t =
    (if now + ad_TTL x < t then None else Some (an_Name a))"
proof -
  obtain ad where ad: "ad \<in> set (an_Addrs a)" "ad_IP x = da_IP ad"
    "ad_TTL x = (if da_TTL ad < learnMinTTL then learnMinTTL else da_TTL ad)"
    using assms(1) by (auto simp: set_feed_adds)
  then have "ad_TTL x = max (ca_MinTTL c) (da_TTL ad)" by (simp add: assms(4) max_def)
  with Record_expires[OF assms(2) ad(1), of c now t] assms(3) ad(2) show ?thesis by simp
qed

text \<open>
  C26: a destination is reported at most once in ten seconds, however many packets it takes in the
  meantime and whatever else goes on; the report itself is a line whenever the verdict is a refusal
  or the run is verbose.
\<close>

theorem report_once:
  assumes "\<not> throttled st (report_key p) t0"
    and "enforce_loop C ts (report C owner p t0 st) = Inr st'"
    and "\<forall>(V, r, now) \<in> set ts. now < t0 + 10 * Second"
    and "report_key q = report_key p" and "t < t0 + 10 * Second"
  shows "report C owner' q t st' = st'
    \<and> es_log (report C owner p t0 st) = es_log st @
        (let d = report_dest owner (es_dns st) p t0; dec = Evaluate (ec_set C) d in
         if dc_Verdict dec = Allow \<and> \<not> ec_verbose C then [] else [report_line C d dec])"
proof
  have "es_seen (report C owner p t0 st) (report_key p) = Some t0" by (simp add: report_seen assms(1))
  from enforce_loop_seen[OF assms(2) this assms(3)] have "throttled st' (report_key q) t"
    using assms(4,5) by (simp add: throttled_def)
  then show "report C owner' q t st' = st'" by (rule report_throttled)
qed (simp add: report_fresh[OF assms(1)] Let_def)

text \<open>
  C23: a dry run leaves the kernel as it found it, from the start to the removal of the table, and
  every alert it sends is of a destination the policy refuses, under the rule that refuses it.
\<close>

theorem dry_run_harmless:
  assumes "ec_dryRun C" and "enforce_start V C path now k = Inr st0" and "enforce_loop C ts st0 = Inr st"
  shows "es_kernel (enforce_stop W st) = k \<and> (\<forall>e \<in> set (es_alerts st). alert_denied (ec_set C) e)"
  using enforce_dry_run[OF assms] by (simp add: enforce_stop_def)

text \<open>
  C22: however an enforcing run ends, stopped or by a read that failed, its removal of the table is the whole of the last batch: when the
  kernel takes it every set is gone and the log says so, and otherwise the kernel is left as it was
  and the log says that.
\<close>

theorem stop_unfilters:
  assumes "config_of p C" and "nft_lawful (ee_nft V) (ee_ord V) view" and "lawful_run view ts"
    and "\<not> ec_dryRun C" and "enforce_start V C path now k = Inr st0"
    and "enforce_loop C ts st0 = Inr st \<or> enforce_loop C ts st0 = Inl (e, st)"
    and "nft_lawful (ee_nft W) (ee_ord W) view"
  shows "case ev_Flush (ee_nft W) [OpDelTable TableName] (es_kernel st) of
      Inl e \<Rightarrow> es_kernel (enforce_stop W st) = es_kernel st
        \<and> es_log (enforce_stop W st) = es_log st @ [''egresswall: removing table: '' @ ee_show W (FlushFailed e)]
    | Inr k' \<Rightarrow> es_kernel (enforce_stop W st) = k' \<and> view k' = (\<lambda>_ _. False)
        \<and> es_log (enforce_stop W st) = es_log st @ [''egresswall: table removed, host is unfiltered again'']"
proof -
  have "daemon_ok C st0" using enforce_start_cases[OF assms(1,2,5)] by blast
  moreover obtain pre where "prefix pre ts" "enforce_loop C pre st0 = Inr st"
    using assms(6) by (metis enforce_loop_InlD prefix_order.refl)
  ultimately have "daemon_ok C st" using enforce_run_ok[OF assms(1)] lawful_run_prefix[OF assms(3)] by blast
  then obtain h where h: "es_handle st = Some h" "hd_queue h = []"
    using assms(4) by (auto simp: daemon_ok_def)
  show ?thesis
  proof (cases "ev_Flush (ee_nft W) [OpDelTable TableName] (es_kernel st)")
    case (Inr k')
    then have "view k' = (\<lambda>_ _. False)" using assms(7) by (auto simp: nft_lawful_def kernel_sets_def)
    with h Inr show ?thesis by (simp add: enforce_stop_def Close_def)
  qed (simp add: enforce_stop_def Close_def h)
qed

lemma example_not_dry: "\<not> ec_dryRun (example_config False)" "ec_set (example_config dry) = example_set"
  "ec_dryRun (example_config True)"
  by (simp_all add: example_config_def enforce_config_of_def)

lemma example_flush_ok: "flush_ok (ee_nft (example_world up))"
  "\<forall>(V, r, now) \<in> set (example_turns up). flush_ok (ee_nft V)"
  using ref_flush_ok by (auto simp: example_world_def example_turns_def)

lemma example_start_missing:
  "list_all (\<lambda>up. case enforce_start (example_world up) (example_config False) ''p'' 0 None of
     Inl _ \<Rightarrow> False | Inr st0 \<Rightarrow>
       (case es_handle st0 of None \<Rightarrow> False | Some h \<Rightarrow> Missing h = (if up then [] else [''a.slice'']))
       \<and> es_lastCgroupCheck st0 = 0)
   [True, False]"
  by code_simp

lemma example_missing:
  assumes "enforce_start (example_world up) (example_config False) ''p'' 0 None = Inr st0"
  obtains h where "es_handle st0 = Some h" "Missing h = (if up then [] else [''a.slice''])"
    "es_lastCgroupCheck st0 = 0"
  using example_start_missing assms by (cases up) (auto split: option.splits)

lemma example_heard:
  "heard (example_turns up) = {\<lparr>an_Name = ''a.ok.io'', an_Addrs = [\<lparr>da_IP = Addr4 0x05060708, da_TTL = Minute\<rparr>]\<rparr>}"
proof -
  have p: "case packet_Parse dns_frame of Inl _ \<Rightarrow> False
      | Inr p \<Rightarrow> IsUDP p \<and> pk_SrcPort p = 53 \<and> pk_Payload p = [7]"
    by code_simp
  have d: "dns_Parse (list_parser ''a.ok.io'' [(TypeA, 60, [5, 6, 7, 8])]) [7] =
      Some (\<lparr>an_Name = ''a.ok.io'', an_Addrs = [\<lparr>da_IP = Addr4 0x05060708, da_TTL = Minute\<rparr>]\<rparr>, None)"
    by code_simp
  show ?thesis
    using p by (auto simp: heard_def example_turns_def example_world_def d split: sum.splits)
qed

lemma example_seeds:
  "seeds (example_config dry) (example_world up) = {seed_answer ''ok.io'' [Addr4 0x05060709]}"
proof -
  have "exact_names example_set = [''ok.io'']" by code_simp
  then show ?thesis
    by (auto simp: seeds_def resolved_def example_not_dry example_world_def)
qed

lemma daemon_state_ok_witness:
  "\<exists>st0 st. enforce_start (example_world False) (example_config False) ''p'' 0 None = Inr st0
     \<and> enforce_loop (example_config False) (example_turns True) st0 = Inr st
     \<and> daemon_ok (example_config False) st"
proof (rule example_run[where up = False and dry = False and up' = True])
  fix st0 st assume s: "enforce_start (example_world False) (example_config False) ''p'' 0 None = Inr st0"
    and l: "enforce_loop (example_config False) (example_turns True) st0 = Inr st"
  have "daemon_ok (example_config False) st"
    by (rule daemon_state_ok[OF example_config_of example_lawful example_lawful_run s l, THEN conjunct1])
  then show ?thesis using s l by blast
qed

lemma sets_justified_witness:
  "\<exists>st0 st. enforce_start (example_world False) (example_config False) ''p'' 0 None = Inr st0
     \<and> enforce_loop (example_config False) (example_turns False) st0 = Inr st
     \<and> (\<forall>i. \<not> holds (ref_view (es_kernel st)) i (Addr4 0x01020304))"
proof (rule example_run[where up = False and dry = False and up' = False])
  fix st0 st assume s: "enforce_start (example_world False) (example_config False) ''p'' 0 None = Inr st0"
    and l: "enforce_loop (example_config False) (example_turns False) st0 = Inr st"
  have r: "run_seeds (example_config False) (example_turns False) = {seed_answer ''ok.io'' [Addr4 0x05060709]}"
    by (auto simp: run_seeds_def example_turns_def example_seeds)
  have "AsSlice (Addr4 0x05060709) \<noteq> AsSlice (Addr4 0x01020304)"
    "AsSlice (Addr4 0x05060708) \<noteq> AsSlice (Addr4 0x01020304)" by code_simp+
  then have "\<not> holds (ref_view (es_kernel st)) i (Addr4 0x01020304)" for i
    using sets_justified[OF example_config_of example_lawful example_lawful_run example_not_dry(1) s l,
        where i = i and ip = "Addr4 0x01020304"]
    by (auto simp: r example_seeds example_heard answers_def seed_answer_def)
  then show ?thesis using s l by blast
qed


lemma example_apply:
  "\<exists>fresh k'. Apply (ee_nft (example_world True)) (ec_plan (example_config False)) k = (Inr fresh, k')"
proof -
  let ?E = "ee_nft (example_world True)" and ?p = "ec_plan (example_config False)"
  have l: "list_all (\<lambda>k. \<not> isl (Apply_batch ?E ?p k)) [None, Some []]" by code_simp
  have e: "Apply_batch ?E ?p (Some es) = Apply_batch ?E ?p (Some [])" for es
    by (simp add: Apply_batch_def deleteTable_def example_world_def ref_env_def)
  have "\<not> isl (Apply_batch ?E ?p k)"
  proof (cases k)
    case (Some es)
    then show ?thesis using l e[of es] by simp
  qed (use l in simp)
  then show ?thesis by (auto simp: not_isl_ex Apply_def example_world_def ref_env_def)
qed

lemma reload_forgets_witness:
  "\<exists>st :: ref_kernel enforce_state. reloads (example_world True) (example_config False) (6 * Second) st
     \<and> \<not> holds (ref_view (es_kernel (cgroup_turn (example_world True) (example_config False) (6 * Second) st)))
           1 (Addr4 0x05060708)
     \<and> cache_Lookup (es_dns (cgroup_turn (example_world True) (example_config False) (6 * Second) st))
           (Addr4 0x05060708) 0 = Some ''a.ok.io''"
proof (rule example_run[where up = False and dry = False and up' = False])
  fix st0 assume s: "enforce_start (example_world False) (example_config False) ''p'' 0 None = Inr st0"
  obtain h where h: "es_handle st0 = Some h" "Missing h = [''a.slice'']" "es_lastCgroupCheck st0 = 0"
    using example_missing[OF s] by auto
  let ?st = "st0\<lparr>es_dns := cache_put (es_dns st0) (Addr4 0x05060708) ''a.ok.io'' Minute\<rparr>"
  have r: "reloads (example_world True) (example_config False) (6 * Second) ?st"
    using h example_apply[of "es_kernel st0"]
    by (auto simp: reloads_def appeared_def CgroupExists_def cgroupRoot_def example_world_def ref_env_def Second_def)
  have "AsSlice (Addr4 0x05060709) \<noteq> AsSlice (Addr4 0x05060708)" by code_simp
  then have n: "\<forall>a \<in> seeds (example_config False) (example_world True). \<forall>ad \<in> set (an_Addrs a).
      AsSlice (Unmap (da_IP ad)) \<noteq> AsSlice (Unmap (Addr4 0x05060708))"
    by (simp add: example_seeds seed_answer_def)
  show ?thesis
    using r reload_forgets[OF example_config_of example_lawful r n, where i = 1 and t = 0]
    by (intro exI[of _ ?st]) (simp add: dns_cache.lookup_put Minute_def Second_def)
qed

lemma feed_expires_with_cache_witness:
  "cache_Lookup (cache_Record (cache_New learnMinTTL)
      \<lparr>an_Name = ''a.io'', an_Addrs = [\<lparr>da_IP = Addr4 7, da_TTL = Second\<rparr>]\<rparr> 0) (Addr4 7) (5 * Minute) = Some ''a.io''"
proof -
  let ?a = "\<lparr>an_Name = ''a.io'', an_Addrs = [\<lparr>da_IP = Addr4 7, da_TTL = Second\<rparr>]\<rparr>"
  let ?x = "\<lparr>ad_Set = SetFor 3 (Addr4 7), ad_IP = Addr4 7, ad_TTL = learnMinTTL\<rparr>"
  have "?x \<in> set (feed_adds [3] (an_Addrs ?a))"
    by (simp add: feed_adds_def learnMinTTL_def Minute_def Second_def)
  from feed_expires_with_cache[OF this, where c = "cache_New learnMinTTL" and now = 0 and t = "5 * Minute"]
  show ?thesis by (simp add: cache_New_def learnMinTTL_def)
qed

lemma report_once_witness:
  "\<exists>p. packet_Parse syn_frame = Inr p
     \<and> (let st = \<lparr>es_handle = None, es_dns = cache_New 0, es_seen = (\<lambda>_. None), es_lastSweep = 0,
            es_lastCgroupCheck = 0, es_kernel = (), es_log = [], es_alerts = []\<rparr>;
          st' = report (example_config True) (\<lambda>_ _ _. []) p 1 st in
        report (example_config True) (\<lambda>_ _ _. []) p (5 * Second) st' = st' \<and> es_log st' \<noteq> [])"
proof -
  let ?st = "\<lparr>es_handle = None, es_dns = cache_New 0, es_seen = (\<lambda>_. None), es_lastSweep = 0,
            es_lastCgroupCheck = 0, es_kernel = (), es_log = [], es_alerts = []\<rparr>"
  have "case packet_Parse syn_frame of Inl _ \<Rightarrow> False | Inr p \<Rightarrow>
      dc_Verdict (Evaluate example_set (report_dest (\<lambda>_ _ _. []) (cache_New 0) p 1)) = Deny" by code_simp
  then obtain p where p: "packet_Parse syn_frame = Inr p"
    "dc_Verdict (Evaluate example_set (report_dest (\<lambda>_ _ _. []) (cache_New 0) p 1)) = Deny"
    by (auto split: sum.splits)
  have "report (example_config True) (\<lambda>_ _ _. []) p (5 * Second) (report (example_config True) (\<lambda>_ _ _. []) p 1 ?st) =
      report (example_config True) (\<lambda>_ _ _. []) p 1 ?st
    \<and> es_log (report (example_config True) (\<lambda>_ _ _. []) p 1 ?st) = [] @
        (let d = report_dest (\<lambda>_ _ _. []) (cache_New 0) p 1; dec = Evaluate (ec_set (example_config True)) d in
         if dc_Verdict dec = Allow \<and> \<not> ec_verbose (example_config True) then [] else [report_line (example_config True) d dec])"
    using report_once[where C = "example_config True" and p = p and q = p and ?t0.0 = 1 and t = "5 * Second"
        and owner = "\<lambda>_ _ _. []" and owner' = "\<lambda>_ _ _. []" and st = ?st
        and ts = "[(V :: (unit, unit, unit, unit) enforce_env, ReadTimeout :: unit read_result, 2)]"
        and st' = "report (example_config True) (\<lambda>_ _ _. []) p 1 ?st" for V]
    by (simp add: throttled_def enforce_loop_def enforce_turn_def Second_def)
  then show ?thesis using p by (simp add: example_not_dry Let_def)
qed

lemma dry_run_harmless_witness:
  "\<exists>st0 st. enforce_start (example_world True) (example_config True) ''p'' 0 None = Inr st0
     \<and> enforce_loop (example_config True) (example_turns True) st0 = Inr st
     \<and> es_kernel (enforce_stop (example_world True) st) = None"
proof (rule example_run[where up = True and dry = True and up' = True])
  fix st0 st assume s: "enforce_start (example_world True) (example_config True) ''p'' 0 None = Inr st0"
    and l: "enforce_loop (example_config True) (example_turns True) st0 = Inr st"
  show ?thesis using s l dry_run_harmless[OF example_not_dry(3) s l] by blast
qed

lemma stop_unfilters_witness:
  "\<exists>st0 st. enforce_start (example_world True) (example_config False) ''p'' 0 None = Inr st0
     \<and> enforce_loop (example_config False) (example_turns True) st0 = Inr st
     \<and> ref_view (es_kernel (enforce_stop (example_world False) st)) = (\<lambda>_ _. False)"
proof (rule example_run[where up = True and dry = False and up' = True])
  fix st0 st assume s: "enforce_start (example_world True) (example_config False) ''p'' 0 None = Inr st0"
    and l: "enforce_loop (example_config False) (example_turns True) st0 = Inr st"
  have "ev_Flush (ee_nft (example_world False)) [OpDelTable TableName] k = Inr None" for k
    by (simp add: example_world_def ref_env_def)
  then have "ref_view (es_kernel (enforce_stop (example_world False) st)) = (\<lambda>_ _. False)"
    using stop_unfilters[OF example_config_of example_lawful example_lawful_run example_not_dry(1) s disjI1[OF l],
        where W = "example_world False", OF example_lawful]
    by simp
  then show ?thesis using s l by blast
qed

end
