(* ===== verification/Cmd.thy ===== *)
theory Cmd
  imports Enforce Learn_Write
begin

text \<open>
  \<^verbatim>\<open>cmd/egresswall/main.go\<close> and \<^verbatim>\<open>learn.go\<close>: the command line, \<^verbatim>\<open>check\<close>, \<^verbatim>\<open>validate\<close> and the run of
  \<^verbatim>\<open>learn\<close>. Reading a file, decoding YAML and the texts of errors are arguments. What a command
  prints and the status it exits with are its result.
\<close>

section \<open>The parser of flags\<close>

text \<open>
  \<^verbatim>\<open>flag.FlagSet.Parse\<close> with \<^verbatim>\<open>ExitOnError\<close>: a set of flags says of each name whether it is a
  string, a boolean or one with a syntax of its own. The result is an exit status, or the values
  given, the latest first, and the remaining arguments.
\<close>

datatype flag_kind = StringFlag | BoolFlag | CheckedFlag "string \<Rightarrow> bool"

definition bool_words :: "string list" where
  "bool_words = [''1'', ''t'', ''T'', ''TRUE'', ''true'', ''True'', ''0'', ''f'', ''F'', ''FALSE'', ''false'', ''False'']"

type_synonym flag_values = "(string \<times> string) list"

text \<open>One argument: not a flag, the terminator, or a flag with the text after its equals sign.\<close>

datatype flag_arg = NoFlag | Terminator | BadFlag | FlagArg string "string option"

definition flag_name_value :: "string \<Rightarrow> flag_arg" where
  "flag_name_value name =
     (if name = [] \<or> hd name = CHR ''-'' \<or> hd name = CHR ''='' then BadFlag
      else case str_Cut name ''='' of
             None \<Rightarrow> FlagArg name None
           | Some (n, v) \<Rightarrow> FlagArg n (Some v))"

definition flag_arg_of :: "string \<Rightarrow> flag_arg" where
  "flag_arg_of s =
     (if length s < 2 \<or> hd s \<noteq> CHR ''-'' then NoFlag
      else if s = ''--'' then Terminator
      else flag_name_value (drop (if s ! 1 = CHR ''-'' then 2 else 1) s))"

function parse_flags ::
  "(string \<Rightarrow> flag_kind option) \<Rightarrow> string list \<Rightarrow> flag_values \<Rightarrow> nat + (flag_values \<times> string list)" where
  "parse_flags fs [] vs = Inr (vs, [])"
| "parse_flags fs (s # args) vs =
     (case flag_arg_of s of
        NoFlag \<Rightarrow> Inr (vs, s # args)
      | Terminator \<Rightarrow> Inr (vs, args)
      | BadFlag \<Rightarrow> Inl 2
      | FlagArg name value \<Rightarrow>
          (case fs name of
             None \<Rightarrow> if name = ''help'' \<or> name = ''h'' then Inl 0 else Inl 2
           | Some BoolFlag \<Rightarrow>
               (case value of
                  None \<Rightarrow> parse_flags fs args ((name, ''true'') # vs)
                | Some v \<Rightarrow> if v \<in> set bool_words then parse_flags fs args ((name, v) # vs) else Inl 2)
           | Some kind \<Rightarrow>
               (let ok = (case kind of CheckedFlag P \<Rightarrow> P | _ \<Rightarrow> (\<lambda>_. True)) in
                case value of
                  Some v \<Rightarrow> if ok v then parse_flags fs args ((name, v) # vs) else Inl 2
                | None \<Rightarrow>
                    (case args of
                       [] \<Rightarrow> Inl 2
                     | v # args' \<Rightarrow> if ok v then parse_flags fs args' ((name, v) # vs) else Inl 2))))"
  by pat_completeness auto
termination by (relation "measure (\<lambda>(fs, args, vs). length args)") auto

definition flag_value :: "string \<Rightarrow> string \<Rightarrow> flag_values \<Rightarrow> string" where
  "flag_value name def vs = (case map_of vs name of None \<Rightarrow> def | Some v \<Rightarrow> v)"

section \<open>Destinations on the command line\<close>

text \<open>\<^verbatim>\<open>net.SplitHostPort\<close>; the callers only ask whether it failed.\<close>

definition SplitHostPort :: "string \<Rightarrow> (string \<times> string) option" where
  "SplitHostPort s =
     (case LastIndexByte s (CHR '':'') of
        None \<Rightarrow> None
      | Some i \<Rightarrow>
          if s \<noteq> [] \<and> hd s = CHR ''['' then
            (case str_Index s '']'' of
               None \<Rightarrow> None
             | Some end \<Rightarrow>
                 if end + 1 \<noteq> i then None
                 else if CHR ''['' \<in> set (drop 1 s) \<or> CHR '']'' \<in> set (drop (end + 1) s) then None
                 else Some (take (end - 1) (drop 1 s), drop (i + 1) s))
          else if CHR '':'' \<in> set (take i s) then None
          else if CHR ''['' \<in> set s \<or> CHR '']'' \<in> set s then None
          else Some (take i s, drop (i + 1) s))"

datatype parse_dest_error = WantHostPort string | BadPort string | BadIP string

definition parseDest :: "string \<Rightarrow> string \<Rightarrow> string \<Rightarrow> parse_dest_error + dest" where
  "parseDest hostport ip proto =
     (case SplitHostPort hostport of
        None \<Rightarrow> Inl (WantHostPort hostport)
      | Some (host, portStr) \<Rightarrow>
          (case ParseUint portStr 10 16 of
             None \<Rightarrow> Inl (BadPort hostport)
           | Some port \<Rightarrow>
               if port = 0 then Inl (BadPort hostport)
               else
                 let d = (case ParseAddr host of
                            Some a \<Rightarrow> \<lparr>d_Domain = [], d_IP = a, d_Port = of_nat port, d_Proto = proto, d_Cgroup = []\<rparr>
                          | None \<Rightarrow> \<lparr>d_Domain = host, d_IP = NoAddr, d_Port = of_nat port, d_Proto = proto, d_Cgroup = []\<rparr>) in
                 if ip \<noteq> [] then
                   (case ParseAddr ip of None \<Rightarrow> Inl (BadIP ip) | Some a \<Rightarrow> Inr (d\<lparr>d_IP := a\<rparr>))
                 else Inr d))"

definition parse_dest_text :: "parse_dest_error \<Rightarrow> string" where
  "parse_dest_text e =
     (case e of
        WantHostPort s \<Rightarrow> ''want host:port, got '' @ Quote s
      | BadPort s \<Rightarrow> ''bad port in '' @ Quote s
      | BadIP s \<Rightarrow> ''bad -ip '' @ Quote s)"

section \<open>The commands check and validate\<close>

datatype ('i, 'y) load_error = ReadFileFailed 'i | ParseFailed "'y + compile_error"

definition policy_Load ::
  "(string \<Rightarrow> 'i + string) \<Rightarrow> (string \<Rightarrow> 'y + policy) \<Rightarrow> string \<Rightarrow> ('i, 'y) load_error + policy_set" where
  "policy_Load readFile yaml path =
     (case readFile path of
        Inl e \<Rightarrow> Inl (ReadFileFailed e)
      | Inr raw \<Rightarrow> (case policy_Parse yaml raw of Inl e \<Rightarrow> Inl (ParseFailed e) | Inr s \<Rightarrow> Inr s))"

record outcome =
  oc_stdout :: string
  oc_stderr :: string
  oc_exit :: nat

text \<open>
  \<open>oc_stderr\<close> is what the program prints there itself, not what the flag package prints when it exits.
  What a command leaves to \<^verbatim>\<open>main\<close>: an exit of its own, or an error that may be nil, with
  what it printed.
\<close>

datatype run_end = Exited nat | Returned "string option"

definition usage_text :: string where
  "usage_text =
     ''usage: egresswall <command> [flags]'' @ NL @ NL
     @ ''  check     ask the policy about one destination, e.g. check registry.npmjs.org:443'' @ NL
     @ ''  validate  parse a policy file and report every problem in it'' @ NL
     @ ''  learn     watch outbound traffic and write a policy (linux, root)'' @ NL
     @ ''  enforce   load the policy into nftables and keep its address sets fed (linux, root)'' @ NL
     @ ''  version'' @ NL @ NL"

record ('i, 'y) cmd_env =
  ce_readFile :: "string \<Rightarrow> 'i + string"
  ce_yaml :: "string \<Rightarrow> 'y + policy"
  ce_loadText :: "('i, 'y) load_error \<Rightarrow> string"

definition validate_flags :: "string \<Rightarrow> flag_kind option" where
  "validate_flags = [''policy'' \<mapsto> StringFlag]"

definition check_flags :: "string \<Rightarrow> flag_kind option" where
  "check_flags = [''policy'' \<mapsto> StringFlag, ''proto'' \<mapsto> StringFlag, ''ip'' \<mapsto> StringFlag]"

definition runValidate :: "('i, 'y) cmd_env \<Rightarrow> string list \<Rightarrow> string \<times> run_end" where
  "runValidate E args =
     (case parse_flags validate_flags args [] of
        Inl code \<Rightarrow> ([], Exited code)
      | Inr (vs, _) \<Rightarrow>
          (case policy_Load (ce_readFile E) (ce_yaml E) (flag_value ''policy'' ''egresswall.yaml'' vs) of
             Inl e \<Rightarrow> ([], Returned (Some (ce_loadText E e)))
           | Inr _ \<Rightarrow> (''ok'' @ NL, Returned None)))"

definition check_line :: "string \<Rightarrow> decision \<Rightarrow> string" where
  "check_line arg d =
     Verdict_String (dc_Verdict d) @ ''  '' @ arg @ ''  '' @ dc_Reason d
       @ (if dc_Rule d \<noteq> [] then ''  (rule '' @ dc_Rule d @ '')'' else []) @ NL"

definition runCheck :: "('i, 'y) cmd_env \<Rightarrow> string list \<Rightarrow> string \<times> run_end" where
  "runCheck E args =
     (case parse_flags check_flags args [] of
        Inl code \<Rightarrow> ([], Exited code)
      | Inr (vs, [arg]) \<Rightarrow>
          (case policy_Load (ce_readFile E) (ce_yaml E) (flag_value ''policy'' ''egresswall.yaml'' vs) of
             Inl e \<Rightarrow> ([], Returned (Some (ce_loadText E e)))
           | Inr s \<Rightarrow>
               (case parseDest arg (flag_value ''ip'' [] vs) (flag_value ''proto'' ''tcp'' vs) of
                  Inl e \<Rightarrow> ([], Returned (Some (parse_dest_text e)))
                | Inr d \<Rightarrow>
                    (let dec = Evaluate s d in
                     (check_line arg dec, if dc_Verdict dec = Deny then Exited 1 else Returned None))))
      | Inr (vs, _) \<Rightarrow> ([], Returned (Some ''check wants exactly one host:port'')))"

definition version :: string where "version = ''0.3.0''"

text \<open>\<^verbatim>\<open>main\<close>, with the commands learn and enforce as arguments; \<open>args\<close> is \<^verbatim>\<open>os.Args\<close>.\<close>

definition finish :: "string \<times> run_end \<Rightarrow> outcome" where
  "finish r =
     (case r of
        (out, Exited code) \<Rightarrow> \<lparr>oc_stdout = out, oc_stderr = [], oc_exit = code\<rparr>
      | (out, Returned None) \<Rightarrow> \<lparr>oc_stdout = out, oc_stderr = [], oc_exit = 0\<rparr>
      | (out, Returned (Some e)) \<Rightarrow> \<lparr>oc_stdout = out, oc_stderr = ''egresswall: '' @ e @ NL, oc_exit = 1\<rparr>)"

definition main ::
  "('i, 'y) cmd_env \<Rightarrow> (string list \<Rightarrow> string \<times> run_end) \<Rightarrow> (string list \<Rightarrow> string \<times> run_end) \<Rightarrow> string list \<Rightarrow> outcome" where
  "main E learn_cmd enforce_cmd args =
     (case args of
        _ # cmd # rest \<Rightarrow>
          (if cmd = ''check'' then finish (runCheck E rest)
           else if cmd = ''validate'' then finish (runValidate E rest)
           else if cmd = ''learn'' then finish (learn_cmd rest)
           else if cmd = ''enforce'' then finish (enforce_cmd rest)
           else if cmd = ''version'' then finish (''egresswall '' @ version @ NL, Returned None)
           else if cmd = ''-h'' \<or> cmd = ''--help'' \<or> cmd = ''help'' then
             \<lparr>oc_stdout = [], oc_stderr = usage_text, oc_exit = 0\<rparr>
           else \<lparr>oc_stdout = [], oc_stderr = ''egresswall: unknown command '' @ Quote cmd @ NL @ usage_text, oc_exit = 2\<rparr>)
      | _ \<Rightarrow> \<lparr>oc_stdout = [], oc_stderr = usage_text, oc_exit = 2\<rparr>)"

section \<open>The run of learn\<close>

record learn_state =
  ls_obs :: observer
  ls_lastSweep :: time
  ls_log :: "string list"

text \<open>The callback of a new destination, and the line it prints for an entry.\<close>

definition new_line :: "((string \<Rightarrow> int option) \<Rightarrow> string list) \<Rightarrow> learn_entry \<Rightarrow> string" where
  "new_line ord e =
     (let from = fold (\<lambda>cg from. if cg \<noteq> [] then ''  from '' @ cg else from) (ord (le_Origins e)) [] in
      ''new  '' @ le_Host e @ '':'' @ itoa (unat (le_Port e)) @ '' '' @ le_Proto e @ from)"

definition learn_start :: "bool \<Rightarrow> string \<Rightarrow> time \<Rightarrow> learn_state" where
  "learn_start quiet out started =
     \<lparr>ls_obs = NewObserver (cache_New learnMinTTL), ls_lastSweep = started,
      ls_log = [''egresswall: learning, writing to '' @ out @ '' on stop'']\<rparr>"

datatype 'r learn_error = LearnRead 'r | LearnObserver observer_error

definition learn_packet ::
  "('e, 'p) dns_parser \<Rightarrow> owner \<Rightarrow> ((string \<Rightarrow> int option) \<Rightarrow> string list) \<Rightarrow> bool \<Rightarrow> packet \<Rightarrow> bool \<Rightarrow> time \<Rightarrow> learn_state \<Rightarrow>
     'r learn_error + learn_state" where
  "learn_packet P own ord quiet p outgoing now st =
     (case obs_Packet P own p outgoing now (ls_obs st) of
        Inl e \<Rightarrow> Inl (LearnObserver e)
      | Inr (ob, ev) \<Rightarrow>
          Inr (st\<lparr>ls_obs := ob,
                  ls_log := ls_log st @ (case ev of Some e \<Rightarrow> if quiet then [] else [new_line ord e] | None \<Rightarrow> [])\<rparr>))"

definition learn_sweep :: "time \<Rightarrow> learn_state \<Rightarrow> learn_state" where
  "learn_sweep now st =
     (if 30 * Second < now - ls_lastSweep st then
        (let ob = obs_Sweep now (ls_obs st) in
         st\<lparr>ls_obs := ob\<lparr>ob_DNS := cache_Purge (ob_DNS ob) now\<rparr>, ls_lastSweep := now\<rparr>)
      else st)"

definition learn_turn ::
  "('e, 'p) dns_parser \<Rightarrow> owner \<Rightarrow> ((string \<Rightarrow> int option) \<Rightarrow> string list) \<Rightarrow> bool \<Rightarrow> 'r read_result \<Rightarrow> time \<Rightarrow> learn_state \<Rightarrow>
     'r learn_error + learn_state" where
  "learn_turn P own ord quiet r now st =
     (case r of
        ReadTimeout \<Rightarrow> Inr st
      | ReadError e \<Rightarrow> Inl (LearnRead e)
      | ReadFrame frame outgoing \<Rightarrow>
          (case (case packet_Parse frame of
                   Inl _ \<Rightarrow> Inr st
                 | Inr p \<Rightarrow> learn_packet P own ord quiet p outgoing now st) of
             Inl e \<Rightarrow> Inl e
           | Inr st \<Rightarrow> Inr (learn_sweep now st)))"

text \<open>Each turn comes with the owner lookup and the order of the map iteration it finds.\<close>

type_synonym 'r learn_turn_in = "owner \<times> ((string \<Rightarrow> int option) \<Rightarrow> string list) \<times> 'r read_result \<times> time"

definition learn_loop ::
  "('e, 'p) dns_parser \<Rightarrow> bool \<Rightarrow> 'r learn_turn_in list \<Rightarrow> learn_state \<Rightarrow> 'r learn_error + learn_state" where
  "learn_loop P quiet = fold_res (\<lambda>(own, ord, r, now). learn_turn P own ord quiet r now)"

text \<open>
  The end of the run: the output is standard output or a file, which opening truncates. A file system
  is a map from paths to contents; \<open>open_error\<close> is the result of opening.
\<close>

datatype ('o, 'y, 'w) finish_error = OpenFailed 'o | PolicyFailed "('y, 'w) write_error"

definition append_file :: "string \<Rightarrow> string \<Rightarrow> (string \<Rightarrow> string option) \<Rightarrow> 'w option \<times> (string \<Rightarrow> string option)" where
  "append_file path b fs = (None, fs(path \<mapsto> (case fs path of None \<Rightarrow> [] | Some old \<Rightarrow> old) @ b))"

definition learn_finish ::
  "(string \<Rightarrow> 'y + policy) \<Rightarrow> ((string \<Rightarrow> int option) \<Rightarrow> string list) \<Rightarrow> 'o option \<Rightarrow> string \<Rightarrow> learn_entry list \<Rightarrow>
     time \<Rightarrow> time \<Rightarrow> time \<Rightarrow> (string \<Rightarrow> string option) \<Rightarrow>
     (('o, 'y, 'w) finish_error + string) \<times> (string \<Rightarrow> string option)" where
  "learn_finish yaml ord open_error out es started now ended fs =
     (let done = ''egresswall: '' @ itoa (length es) @ '' destinations after ''
                   @ seconds_text (round_second (ended - started)) @ '', policy written to '' @ out;
          write = (\<lambda>path fs. case WritePolicy yaml (append_file path) ord es started now fs of
                     (Some e, fs) \<Rightarrow> (Inl (PolicyFailed e), fs)
                   | (None, fs) \<Rightarrow> (Inr done, fs)) in
      if out = ''-'' then write ''/dev/stdout'' fs
      else
        case open_error of
          Some e \<Rightarrow> (Inl (OpenFailed e), fs)
        | None \<Rightarrow> write out (fs(out \<mapsto> [])))"

datatype ('c, 'r, 'o, 'y, 'w) learn_failure =
    LearnCapture 'c
  | LearnLoop "'r learn_error"
  | LearnFinish "('o, 'y, 'w) finish_error"

text \<open>
  \<^verbatim>\<open>runLearn\<close> after its flags: \<open>open_socket\<close> and \<open>open_error\<close> are the results of opening the socket and
  the file, \<open>keys\<close> and \<open>ord\<close> the orders the two maps are visited in. The result is the error or the
  last line it prints, and the files.
\<close>

definition runLearn ::
  "('e, 'p) dns_parser \<Rightarrow> (string \<Rightarrow> 'y + policy) \<Rightarrow> 'c option \<Rightarrow> 'o option \<Rightarrow> (observer \<Rightarrow> flow_key list) \<Rightarrow>
     ((string \<Rightarrow> int option) \<Rightarrow> string list) \<Rightarrow> string \<Rightarrow> bool \<Rightarrow> time \<Rightarrow> 'r learn_turn_in list \<Rightarrow> time \<Rightarrow> time \<Rightarrow>
     (string \<Rightarrow> string option) \<Rightarrow> (('c, 'r, 'o, 'y, 'w) learn_failure + string) \<times> (string \<Rightarrow> string option)" where
  "runLearn P yaml open_socket open_error keys ord out quiet started ts now ended fs =
     (case open_socket of
        Some e \<Rightarrow> (Inl (LearnCapture e), fs)
      | None \<Rightarrow>
          (case learn_loop P quiet ts (learn_start quiet out started) of
             Inl e \<Rightarrow> (Inl (LearnLoop e), fs)
           | Inr st \<Rightarrow>
               (case learn_finish yaml ord open_error out (obs_Entries (keys (ls_obs st)) (ls_obs st)) started now ended fs of
                  (Inl e, fs) \<Rightarrow> (Inl (LearnFinish e), fs)
                | (Inr line, fs) \<Rightarrow> (Inr line, fs))))"

section \<open>Addresses written and read\<close>

lemma dec_val_digit: "d < 10 \<Longrightarrow> dec_val (char_of (48 + d)) = Some d"
  by (simp add: dec_val_def)

lemma parse4_itoa:
  "n \<le> 255 \<Longrightarrow> parse4_loop (itoa n @ cs) 0 0 fs = parse4_loop cs n (length (itoa n)) fs"
proof (induction n arbitrary: cs rule: itoa.induct)
  case (1 n)
  have i: "itoa n = (if n < 10 then [] else itoa (n div 10)) @ [char_of (48 + n mod 10)]"
    by (rule itoa.simps)
  show ?case
  proof (cases "n < 10")
    case True
    then show ?thesis using dec_val_digit[of n] by (simp add: i)
  next
    case False
    have "parse4_loop (itoa (n div 10) @ char_of (48 + n mod 10) # cs) 0 0 fs =
        parse4_loop (char_of (48 + n mod 10) # cs) (n div 10) (length (itoa (n div 10))) fs"
      using 1 False by simp
    also have "\<dots> = parse4_loop cs n (length (itoa (n div 10)) + 1) fs"
    proof -
      have "n div 10 \<noteq> 0" using False by (simp add: div_eq_0_iff)
      then show ?thesis using False 1(2) dec_val_digit[of "n mod 10"] by (simp add: div_mult_mod_eq)
    qed
    finally show ?thesis using False by (simp add: i)
  qed
qed

lemma parse4_dot:
  assumes "n \<le> 255" and "cs \<noteq> []" and "length fs < 3"
  shows "parse4_loop (itoa n @ CHR ''.'' # cs) 0 0 fs = parse4_loop cs 0 0 (fs @ [of_nat n])"
proof -
  have "dec_val (CHR ''.'') = None" by code_simp
  then show ?thesis using assms by (simp add: parse4_itoa)
qed

lemma unat_byte: "unat (b :: byte) \<le> 255"
proof -
  have "unat b < 2 ^ LENGTH(8)" by (rule unsigned_less)
  then show ?thesis by simp
qed

lemma String4_parts:
  obtains a b c d where "word_bytes 4 w = [a, b, c, d]"
    and "String4 w = itoa (unat a) @ CHR ''.'' # itoa (unat b) @ CHR ''.'' # itoa (unat c) @ CHR ''.'' # itoa (unat d)"
proof -
  have "length (word_bytes 4 w) = 4" by simp
  then obtain a b c d where "word_bytes 4 w = [a, b, c, d]"
    by (auto simp: length_Suc_conv eval_nat_numeral)
  then show thesis by (intro that) (simp_all add: String4_def)
qed

lemma ParseAddr_String4: "ParseAddr (String4 w) = Some (Addr4 w)"
proof (rule String4_parts[of w])
  fix a b c d assume p: "word_bytes 4 w = [a, b, c, d]"
    and s: "String4 w = itoa (unat a) @ CHR ''.'' # itoa (unat b) @ CHR ''.'' # itoa (unat c) @ CHR ''.'' # itoa (unat d)"
  have "parse4_loop (itoa (unat d)) 0 0 [a, b, c] = Some [a, b, c, d]"
    using parse4_itoa[of "unat d" "[]" "[a, b, c]"] unat_byte[of d] by simp
  then have "parse4_loop (String4 w) 0 0 [] = Some [a, b, c, d]"
    using unat_byte by (simp add: s parse4_dot)
  moreover have "AddrFrom4 [a, b, c, d] = Addr4 w"
    using be_word_AsSlice4[of w] by (simp add: AddrFrom4_def p)
  moreover have "find addr_mark (String4 w) = Some (CHR ''.'')"
  proof -
    have "\<not> addr_mark x" if "x \<in> set (itoa n)" for x n
      using itoa_no_char[OF that] by (auto simp: addr_mark_def)
    then have "find addr_mark (itoa n) = None" for n by (auto simp: find_None_iff)
    then show ?thesis by (simp add: s find_append addr_mark_def)
  qed
  ultimately show ?thesis by (simp add: ParseAddr_def parseIPv4_def)
qed

lemma String4_free:
  assumes "c \<noteq> CHR ''.''" and "(of_char c :: nat) < 48 \<or> 57 < (of_char c :: nat)"
  shows "c \<notin> set (String4 w)"
proof -
  have "c \<notin> set (itoa n)" for n using itoa_no_char[of c n] assms(2) by blast
  then show ?thesis by (rule_tac String4_parts[of w]) (simp add: assms(1))
qed

lemma String4_inj:
  assumes "String4 v = String4 w"
  shows "v = w"
proof -
  have "Some (Addr4 v) = Some (Addr4 w)"
    by (rule trans[OF ParseAddr_String4[of v, symmetric, unfolded assms] ParseAddr_String4])
  then show ?thesis by simp
qed

lemma parse_cidr_String4: "parse_cidr (String4 w) = Some (PrefixFrom (Addr4 w) 32)"
proof -
  have "CHR ''/'' \<notin> set (String4 w)" by (rule String4_free) simp_all
  then have "ParsePrefix (String4 w) = None" by (simp add: ParsePrefix_def LastIndexByte_def)
  then show ?thesis by (simp add: parse_cidr_def ParseAddr_String4)
qed

section \<open>Host and port\<close>

lemma LastIndexByte_app: "c \<notin> set t \<Longrightarrow> LastIndexByte (s @ c # t) c = Some (length s)"
proof -
  assume "c \<notin> set t"
  then have "takeWhile (\<lambda>x. x \<noteq> c) (rev t @ c # rev s) = rev t" by (intro takeWhile_no) simp
  then show ?thesis by (simp add: LastIndexByte_def)
qed

lemma SplitHostPort_name:
  assumes "CHR '':'' \<notin> set host" and "CHR ''['' \<notin> set host" and "CHR '']'' \<notin> set host"
    and "CHR '':'' \<notin> set port" and "CHR ''['' \<notin> set port" and "CHR '']'' \<notin> set port"
  shows "SplitHostPort (host @ CHR '':'' # port) = Some (host, port)"
proof -
  have "hd (host @ CHR '':'' # port) \<noteq> CHR ''[''" using assms(2) by (cases host) auto
  then show ?thesis using assms by (simp add: SplitHostPort_def LastIndexByte_app)
qed

lemma SplitHostPort_brackets:
  assumes "CHR ''['' \<notin> set host" and "CHR '']'' \<notin> set host"
    and "CHR '':'' \<notin> set port" and "CHR ''['' \<notin> set port" and "CHR '']'' \<notin> set port"
  shows "SplitHostPort (CHR ''['' # host @ CHR '']'' # CHR '':'' # port) = Some (host, port)"
proof -
  let ?s = "CHR ''['' # host @ CHR '']'' # CHR '':'' # port"
  have l: "LastIndexByte ?s (CHR '':'') = Some (length host + 2)"
    using LastIndexByte_app[OF assms(3), of "CHR ''['' # host @ [CHR '']'']"] by simp
  have "takeWhile (\<lambda>x. x \<noteq> CHR '']'') ?s = CHR ''['' # host"
    using takeWhile_no[OF assms(2), of "CHR '':'' # port"] by simp
  then have e: "str_Index ?s '']'' = Some (length host + 1)" by (simp add: str_Index_char)
  show ?thesis using assms by (simp add: SplitHostPort_def l e del: str_Index.simps)
qed

lemma itoa_free: "c \<in> {CHR '':'', CHR ''['', CHR '']''} \<Longrightarrow> c \<notin> set (itoa n)"
  using itoa_no_char[of c n] by auto

lemma parseDest_split:
  assumes "SplitHostPort hp = Some (host, itoa port)" and "0 < port" and "port < 65536"
  shows "parseDest hp [] proto = Inr
    (case ParseAddr host of
       Some a \<Rightarrow> \<lparr>d_Domain = [], d_IP = a, d_Port = of_nat port, d_Proto = proto, d_Cgroup = []\<rparr>
     | None \<Rightarrow> \<lparr>d_Domain = host, d_IP = NoAddr, d_Port = of_nat port, d_Proto = proto, d_Cgroup = []\<rparr>)"
  using assms(2,3) by (simp add: parseDest_def assms(1) ParseUint_itoa Let_def split: option.splits)

section \<open>What learn has seen\<close>

text \<open>The flows of a run: those of its outgoing packets, each seen with the state before it.\<close>

definition turn_flow :: "owner \<Rightarrow> 'r read_result \<Rightarrow> time \<Rightarrow> learn_state \<Rightarrow> flow_rec list" where
  "turn_flow own r now st =
     (case r of
        ReadFrame frame outgoing \<Rightarrow>
          (case packet_Parse frame of
             Inl _ \<Rightarrow> [] | Inr p \<Rightarrow> step_flow own (ObPacket p outgoing now) (ls_obs st))
      | _ \<Rightarrow> [])"

fun learn_flows :: "('e, 'p) dns_parser \<Rightarrow> bool \<Rightarrow> 'r learn_turn_in list \<Rightarrow> learn_state \<Rightarrow> flow_rec list" where
  "learn_flows P quiet [] st = []"
| "learn_flows P quiet ((own, ord, r, now) # ts) st =
     turn_flow own r now st
     @ (case learn_turn P own ord quiet r now st of Inl _ \<Rightarrow> [] | Inr st' \<Rightarrow> learn_flows P quiet ts st')"

lemma learn_sweep_summarises: "summarises L (ls_obs st) \<Longrightarrow> summarises L (ls_obs (learn_sweep now st))"
  by (simp add: learn_sweep_def Let_def summarises_def obs_Sweep_def)

lemma learn_turn_summarises:
  assumes "summarises L (ls_obs st)" and "learn_turn P own ord quiet r now st = Inr st'"
  shows "summarises (L @ turn_flow own r now st) (ls_obs st')"
proof (cases r)
  case (ReadFrame frame outgoing)
  show ?thesis
  proof (cases "packet_Parse frame")
    case (Inl e)
    then show ?thesis
      using assms learn_sweep_summarises[OF assms(1)] by (auto simp: learn_turn_def turn_flow_def ReadFrame)
  next
    case (Inr p)
    with assms(2) obtain ob ev where o: "obs_Packet P own p outgoing now (ls_obs st) = Inr (ob, ev)"
      and st': "ls_obs st' = ls_obs (learn_sweep now (st\<lparr>ls_obs := ob,
                  ls_log := ls_log st @ (case ev of Some e \<Rightarrow> if quiet then [] else [new_line ord e] | None \<Rightarrow> [])\<rparr>))"
      by (auto simp: learn_turn_def ReadFrame learn_packet_def split: sum.splits)
    have "summarises (L @ step_flow own (ObPacket p outgoing now) (ls_obs st)) ob"
      using step_summarises[OF assms(1), where P = P and own = own and x = "ObPacket p outgoing now"] o by simp
    then show ?thesis
      unfolding st' by (intro learn_sweep_summarises) (simp add: turn_flow_def ReadFrame Inr)
  qed
qed (use assms in \<open>auto simp: learn_turn_def turn_flow_def\<close>)

lemma learn_loop_summarises:
  "summarises L (ls_obs st) \<Longrightarrow> learn_loop P quiet ts st = Inr st' \<Longrightarrow>
     summarises (L @ learn_flows P quiet ts st) (ls_obs st')"
proof (induction P quiet ts st arbitrary: L rule: learn_flows.induct)
  case (1 P quiet st)
  then show ?case by (simp add: learn_loop_def)
next
  case (2 P quiet own ord r now ts st)
  from 2(3) obtain st1 where s: "learn_turn P own ord quiet r now st = Inr st1" "learn_loop P quiet ts st1 = Inr st'"
    by (auto simp: learn_loop_def split: sum.splits)
  from 2(1)[OF s(1) learn_turn_summarises[OF 2(2) s(1)] s(2)] show ?case by (simp add: s(1))
qed

text \<open>A flow's host is its name, or the address in text, and its protocol one of the two.\<close>

definition flow_wf :: "flow_rec \<Rightarrow> bool" where
  "flow_wf f \<longleftrightarrow> (\<not> fr_domain f \<longrightarrow> fk_host (fr_key f) = Addr_String (fr_ip f))
     \<and> fk_proto (fr_key f) \<in> {''tcp'', ''udp''} \<and> Unmap (fr_ip f) = fr_ip f"

lemma step_flow_wf: "f \<in> set (step_flow own x ob) \<Longrightarrow> flow_wf f"
proof (cases x)
  case (ObPacket p outgoing now)
  assume f: "f \<in> set (step_flow own x ob)"
  then have "outgoing" by (cases outgoing) (simp_all add: ObPacket)
  obtain pr ob' where o: "packet_out p now ob = (pr, ob')" by fastforce
  then have "pr \<in> {None, Some ''tcp'', Some ''udp''}"
    by (auto simp: packet_out_def Let_def split: if_splits option.splits)
  then show ?thesis
    using f \<open>outgoing\<close> o
    by (auto simp: ObPacket flow_wf_def flow_rec_of_def Let_def split: option.splits)
qed simp_all

lemma turn_flow_wf: "f \<in> set (turn_flow own r now st) \<Longrightarrow> flow_wf f"
  using step_flow_wf by (auto simp: turn_flow_def split: read_result.splits sum.splits)

lemma learn_flows_wf: "f \<in> set (learn_flows P quiet ts st) \<Longrightarrow> flow_wf f"
proof (induction P quiet ts st rule: learn_flows.induct)
  case (2 P quiet own ord r now ts st)
  then show ?case
    using turn_flow_wf[of f own r now st] by (cases "learn_turn P own ord quiet r now st") auto
qed simp

lemma learn_start_summarises: "summarises [] (ls_obs (learn_start quiet out started))"
  using NewObserver_summarises by (simp add: learn_start_def)

section \<open>What learn writes\<close>

lemma WritePolicy_done:
  assumes "WritePolicy yaml (append_file path) ord es started now fs = (None, fs')"
    and "yaml (policy_text ord es started now) = Inr (learned_policy ord es)"
  obtains s where "Compile (learned_policy ord es) = Inr s"
    and "fs' path = Some ((case fs path of None \<Rightarrow> [] | Some old \<Rightarrow> old) @ policy_text ord es started now)"
  using assms
  by (auto simp: WritePolicy_def policy_Parse_def append_file_def Let_def split: sum.splits)

lemma learn_finish_done:
  assumes "learn_finish yaml ord None out es started now ended fs =
      (Inr msg :: ('o, 'y, 'w) finish_error + string, fs')" and "out \<noteq> ''-''"
    and "yaml (policy_text ord es started now) = Inr (learned_policy ord es)"
  obtains s where "Compile (learned_policy ord es) = Inr s" and "fs' out = Some (policy_text ord es started now)"
proof -
  have "WritePolicy yaml (append_file out :: string \<Rightarrow> _ \<Rightarrow> 'w option \<times> _) ord es started now (fs(out \<mapsto> [])) = (None, fs')"
    using assms(1,2) by (auto simp: learn_finish_def Let_def split: prod.splits option.splits)
  from WritePolicy_done[OF this assms(3)] show thesis using that by auto
qed

lemma runLearn_done:
  assumes "learn_loop P quiet ts (learn_start quiet out started) = Inr st"
    and "runLearn P yaml open_socket open_error keys ord out quiet started ts now ended fs =
      (Inr msg :: ('c, 'r, 'o, 'y, 'w) learn_failure + string, fs')"
    and "out \<noteq> ''-''"
    and "yaml (policy_text ord (obs_Entries (keys (ls_obs st)) (ls_obs st)) started now) =
      Inr (learned_policy ord (obs_Entries (keys (ls_obs st)) (ls_obs st)))"
  obtains s where "Compile (learned_policy ord (obs_Entries (keys (ls_obs st)) (ls_obs st))) = Inr s"
    and "fs' out = Some (policy_text ord (obs_Entries (keys (ls_obs st)) (ls_obs st)) started now)"
proof -
  have "learn_finish yaml ord open_error out (obs_Entries (keys (ls_obs st)) (ls_obs st)) started now ended fs =
      (Inr msg :: ('o, 'y, 'w) finish_error + string, fs')"
    using assms(1,2) by (auto simp: runLearn_def split: option.splits sum.splits prod.splits)
  moreover from this have "open_error = None"
    using assms(3) by (cases open_error) (auto simp: learn_finish_def Let_def)
  ultimately have fin: "learn_finish yaml ord None out (obs_Entries (keys (ls_obs st)) (ls_obs st)) started now ended fs =
      (Inr msg :: ('o, 'y, 'w) finish_error + string, fs')" by simp
  show ?thesis by (rule learn_finish_done[OF fin assms(3,4)]) (rule that)
qed

lemma flow_allowed:
  assumes "summarises L ob" and "distinct ks" and "set ks = dom (ob_entries ob)" and "\<forall>g \<in> set L. flow_wf g"
    and "Compile (learned_policy ord (obs_Entries ks ob)) = Inr s" and "f \<in> set L"
    and "\<forall>g \<in> set L. fk_host (fr_key g) = fk_host (fr_key f) \<longrightarrow> fr_domain g = fr_domain f"
    and "fr_ip f \<noteq> metadataIP"
    and "if fr_domain f then NormalizeDomain (fk_host (fr_key f)) \<noteq> [] else Is4 (fr_ip f)"
  shows "dc_Verdict (Evaluate s
    \<lparr>d_Domain = (if fr_domain f then fk_host (fr_key f) else []), d_IP = fr_ip f, d_Port = fk_port (fr_key f),
     d_Proto = fk_proto (fr_key f), d_Cgroup = cg\<rparr>) = Allow"
proof -
  let ?es = "obs_Entries ks ob" and ?k = "fr_key f"
  have m: "set ?es = log_view L ` fr_key ` set L"
    using arg_cong[OF Entries_of_log(3)[OF assms(1,3,2)], of set_mset] assms(3) summarises_dom[OF assms(1)]
    by (simp add: image_image)
  have dv: "le_Domain (log_view L k) = fr_domain f" if "k \<in> fr_key ` set L" "fk_host k = fk_host ?k" for k
  proof -
    have "flows_to k L \<noteq> []" using that(1) by (auto simp: flows_to_Nil_iff)
    then have "hd (flows_to k L) \<in> set L" "fr_key (hd (flows_to k L)) = k"
      using hd_in_set[of "flows_to k L"] by (auto simp: flows_to_def)
    then show ?thesis using assms(7) that(2) by (simp add: log_view_def Let_def)
  qed
  let ?e = "log_view L ?k"
  have e: "?e \<in> set ?es" using m assms(6) by auto
  have sel: "le_Host ?e = fk_host ?k" "le_Port ?e = fk_port ?k" "le_Proto ?e = fk_proto ?k"
    by (simp_all add: log_view_def Let_def)
  have ed: "le_Domain ?e = fr_domain f" using dv[of ?k] assms(6) by simp
  have nm: "\<not> is_metadata ?e"
  proof
    assume "is_metadata ?e"
    then have n: "\<not> fr_domain f" "fk_host ?k = Addr_String metadataIP" by (simp_all add: is_metadata_def ed sel)
    then have "Addr_String (fr_ip f) = Addr_String metadataIP" "Is4 (fr_ip f)"
      using assms(4,6,9) by (auto simp: flow_wf_def)
    then show False using assms(8) String4_inj by (cases "fr_ip f") (auto simp: metadataIP_def)
  qed
  have "?e \<in> set (of_host (le_Host ?e) ?es)" using e nm by (simp add: of_host_def)
  then have "hd (of_host (le_Host ?e) ?es) \<in> set (of_host (le_Host ?e) ?es)" by (intro hd_in_set) auto
  then obtain k where "hd (of_host (le_Host ?e) ?es) = log_view L k" "k \<in> fr_key ` set L" "fk_host k = fk_host ?k"
    using m by (auto simp: of_host_def sel log_view_def Let_def)
  then have ln: "learned_as_name ?es (le_Host ?e) = fr_domain f" using dv by (simp add: learned_as_name_def)
  have pr: "\<forall>x \<in> set ?es. le_Proto x = ''tcp'' \<or> le_Proto x = ''udp''"
    using m assms(4) by (auto simp: log_view_def Let_def flow_wf_def)
  let ?d = "\<lparr>d_Domain = (if fr_domain f then fk_host (fr_key f) else []), d_IP = fr_ip f,
      d_Port = fk_port (fr_key f), d_Proto = fk_proto (fr_key f), d_Cgroup = cg\<rparr>"
  show ?thesis
  proof (rule learned_allowed[where d = ?d, OF assms(5) pr e nm])
    show "if learned_as_name ?es (le_Host ?e) then d_Domain ?d = le_Host ?e \<and> NormalizeDomain (le_Host ?e) \<noteq> []
      else IsValid (d_IP ?d) \<and> \<not> hasZone (Unmap (d_IP ?d))
        \<and> parse_cidr (le_Host ?e) = Some (PrefixFrom (Unmap (d_IP ?d)) (BitLen (Unmap (d_IP ?d))))"
    proof (cases "fr_domain f")
      case False
      then obtain w where w: "fr_ip f = Addr4 w" using assms(9) by (cases "fr_ip f") auto
      then have "fk_host ?k = String4 w" using assms(4,6) False by (auto simp: flow_wf_def)
      then show ?thesis using ln False w by (simp add: sel parse_cidr_String4)
    qed (use ln assms(9) in \<open>simp add: sel\<close>)
  qed (use assms(4,6,8) in \<open>auto simp: sel flow_wf_def\<close>)
qed

section \<open>Properties\<close>


text \<open>
  C34: \<open>check host:port\<close> prints the decision of the policy about that name, or that address when the
  host is one, on that port with tcp, and exits with 0 exactly when it is allowed and with 1 when it
  is refused; a bracketed IPv6 address is taken out of its brackets.
\<close>

theorem check_answers:
  assumes "policy_Load (ce_readFile E) (ce_yaml E) ''egresswall.yaml'' = Inr s"
    and "0 < port" and "port < 65536" and "CHR ''['' \<notin> set host" and "CHR '']'' \<notin> set host"
    and "arg = host @ CHR '':'' # itoa port \<and> CHR '':'' \<notin> set host \<and> host \<noteq> [] \<and> hd host \<noteq> CHR ''-''
       \<or> arg = CHR ''['' # host @ CHR '']'' # CHR '':'' # itoa port"
  shows "main E L N [prog, ''check'', arg] =
    (let dec = Evaluate s (case ParseAddr host of
         Some a \<Rightarrow> \<lparr>d_Domain = [], d_IP = a, d_Port = of_nat port, d_Proto = ''tcp'', d_Cgroup = []\<rparr>
       | None \<Rightarrow> \<lparr>d_Domain = host, d_IP = NoAddr, d_Port = of_nat port, d_Proto = ''tcp'', d_Cgroup = []\<rparr>) in
     \<lparr>oc_stdout = check_line arg dec, oc_stderr = [], oc_exit = (if dc_Verdict dec = Allow then 0 else 1)\<rparr>)"
proof -
  have i: "CHR '':'' \<notin> set (itoa port)" "CHR ''['' \<notin> set (itoa port)" "CHR '']'' \<notin> set (itoa port)"
    by (rule itoa_free; simp)+
  have "SplitHostPort arg = Some (host, itoa port)"
    using assms(4-6) i SplitHostPort_name SplitHostPort_brackets by metis
  note d = parseDest_split[OF this assms(2,3), of "''tcp''"]
  have "flag_arg_of arg = NoFlag"
  proof -
    have "hd arg \<noteq> CHR ''-''" using assms(6) by (auto simp: hd_append)
    then show ?thesis by (simp add: flag_arg_of_def)
  qed
  then have "parse_flags check_flags [arg] [] = Inr ([], [arg])" by simp
  moreover have "v = Deny \<longleftrightarrow> v \<noteq> Allow" for v :: verdict by (cases v) simp_all
  ultimately show ?thesis
    using assms(1) d
    by (simp add: main_def runCheck_def flag_value_def finish_def Let_def)
qed

text \<open>
  A policy that cannot be written costs the one that was there: the output file is opened, and so
  emptied, before the rendered policy is tried, and stays empty when that fails.
\<close>

theorem failed_write_truncates:
  assumes "out \<noteq> ''-''"
    and "policy_Parse yaml (policy_text ord es started now) = Inl err"
  shows "learn_finish yaml ord None out es started now ended fs =
    (Inl (PolicyFailed (RenderedDoesNotLoad err)), fs(out \<mapsto> []))"
  using assms by (simp add: learn_finish_def WritePolicy_def Let_def)

text \<open>
  The line printed for a new destination never names the cgroup it comes from, whatever the
  owner lookup says: the entry handed to the callback has no origins yet.
\<close>

theorem new_line_no_origin:
  assumes "ord (\<lambda>_. None) = []" and "obs_Packet P own p outgoing now ob = Inr (ob', Some e)"
  shows "new_line ord e = ''new  '' @ le_Host e @ '':'' @ itoa (unat (le_Port e)) @ '' '' @ le_Proto e"
proof -
  have "le_Origins e = (\<lambda>_. None)" if "obs_record ip port proto origin now ob = Inr (ob', Some e)" for ip port proto origin ob
    using that
    by (auto simp: obs_record_def new_entry_def Let_def split: option.splits prod.splits if_splits)
  then have "le_Origins e = (\<lambda>_. None)"
    using assms(2) by (auto simp: obs_Packet_def split: if_splits sum.splits option.splits prod.splits)
  then show ?thesis by (simp add: new_line_def assms(1))
qed

text \<open>A response from a name server for ok.io, and the first packet of a connection to what it says.\<close>

definition learn_turns :: "unit learn_turn_in list" where
  "learn_turns =
     [(None, (\<lambda>_. []), ReadFrame [0x45, 0, 0, 29, 0, 0, 0x40, 0, 64, 17, 0, 0, 1, 1, 1, 1, 10, 0, 0, 2,
         0, 53, 0x9c, 0x40, 0, 9, 0, 0, 7] False, 1),
      (None, (\<lambda>_. []), ReadTimeout, 2),
      (None, (\<lambda>_. []), ReadFrame [0x45, 0, 0, 40, 0, 0, 0x40, 0, 64, 6, 0, 0, 10, 0, 0, 2, 5, 6, 7, 8,
         0xc3, 0x50, 1, 0xbb, 0, 0, 0, 1, 0, 0, 0, 0, 0x50, 0x02, 0, 0, 0, 0, 0, 0] True, 3)]"

definition learn_parser :: "(unit, (rr_type \<times> u32 \<times> bytes) list) dns_parser" where
  "learn_parser = list_parser ''ok.io'' [(TypeA, 60, [5, 6, 7, 8])]"

definition learn_key :: flow_key where
  "learn_key = \<lparr>fk_host = ''ok.io'', fk_port = 443, fk_proto = ''tcp''\<rparr>"

definition learn_flow :: flow_rec where
  "learn_flow = \<lparr>fr_key = learn_key, fr_domain = True, fr_ip = Addr4 0x05060708, fr_origin = [], fr_time = 3\<rparr>"

lemma learn_example_flows:
  "learn_flows learn_parser True learn_turns (learn_start True ''p'' 0) = [learn_flow]"
  by code_simp

lemma learn_example_loop:
  "\<not> isl (learn_loop learn_parser True learn_turns (learn_start True ''p'' 0))"
  by code_simp

lemma learn_example_compiles:
  "\<not> isl (Compile (learned_policy (\<lambda>_. []) [log_view [learn_flow] learn_key]))"
  by code_simp


definition check_env :: "(unit, unit) cmd_env" where
  "check_env = \<lparr>ce_readFile = Inr, ce_yaml = (\<lambda>_. Inr example_policy), ce_loadText = (\<lambda>_. [])\<rparr>"

lemma check_answers_witness:
  "oc_exit (main check_env (\<lambda>_. ([], Exited 9)) (\<lambda>_. ([], Exited 9)) [''egresswall'', ''check'', ''api.ok.io:443'']) = 0"
proof -
  have l: "policy_Load (ce_readFile check_env) (ce_yaml check_env) ''egresswall.yaml'' = Inr example_set"
    by (simp add: policy_Load_def policy_Parse_def check_env_def example_compiles)
  have p: "ParseAddr ''api.ok.io'' = None" "itoa 443 = ''443''" by code_simp+
  have v: "dc_Verdict (Evaluate example_set
      \<lparr>d_Domain = ''api.ok.io'', d_IP = NoAddr, d_Port = 443, d_Proto = ''tcp'', d_Cgroup = []\<rparr>) = Allow"
    by code_simp
  show ?thesis
    by (subst check_answers[OF l, where port = 443 and host = "''api.ok.io''"]) (simp_all add: p v Let_def)
qed

lemma failed_write_truncates_witness:
  "snd (learn_finish (\<lambda>_. Inl () :: unit + policy) (\<lambda>_. []) (None :: unit option) ''p'' [] 0 0 0 [''p'' \<mapsto> ''old''] ::
     ((unit, unit, unit) finish_error + string) \<times> _) ''p'' = Some []"
  by (subst failed_write_truncates[where err = "Inl ()"]) (simp_all add: policy_Parse_def)

lemma new_line_no_origin_witness:
  "\<exists>ob' e. obs_Packet learn_parser (Some (\<lambda>_ _ _. ''a.slice''))
       \<lparr>pk_Src = Addr4 1, pk_Dst = Addr4 0x05060708, pk_Proto = ProtoTCP, pk_SrcPort = 50000, pk_DstPort = 443,
        pk_SYN = True, pk_ACK = False, pk_Payload = []\<rparr> True 0 (NewObserver (cache_New 0)) = Inr (ob', Some e)
     \<and> new_line (\<lambda>m. if m = (\<lambda>_. None) then [] else [''a.slice'']) e =
         ''new  '' @ le_Host e @ '':'' @ itoa (unat (le_Port e)) @ '' '' @ le_Proto e"
proof -
  let ?p = "\<lparr>pk_Src = Addr4 1, pk_Dst = Addr4 0x05060708, pk_Proto = ProtoTCP, pk_SrcPort = 50000, pk_DstPort = 443,
        pk_SYN = True, pk_ACK = False, pk_Payload = []\<rparr>"
  have "case obs_Packet learn_parser (Some (\<lambda>_ _ _. ''a.slice'')) ?p True 0 (NewObserver (cache_New 0)) of
      Inl _ \<Rightarrow> False | Inr (ob', ev) \<Rightarrow> ev \<noteq> None" by code_simp
  then obtain ob' e where e: "obs_Packet learn_parser (Some (\<lambda>_ _ _. ''a.slice'')) ?p True 0 (NewObserver (cache_New 0)) = Inr (ob', Some e)"
    by (auto split: sum.splits)
  show ?thesis using e new_line_no_origin[OF _ e, of "\<lambda>m. if m = (\<lambda>_. None) then [] else [''a.slice'']"] by auto
qed

end
