(* ===== verification/Capture.thy ===== *)
theory Capture
  imports Packet Kmsg
begin

text \<open>
  \<^verbatim>\<open>internal/capture/capture_linux.go\<close> and \<^verbatim>\<open>internal/kmsg/tail_linux.go\<close>: the two places where frames
  and log records enter the program. The results of the system calls are the inputs, the calls made
  are part of the result; \<open>'x\<close> is whatever other error the kernel may give.
\<close>

section \<open>The raw socket\<close>

text \<open>\<^verbatim>\<open>EWOULDBLOCK\<close> is \<^verbatim>\<open>EAGAIN\<close>.\<close>

datatype 'x errno = EPERM | EACCES | EAGAIN | EINTR | OtherErrno 'x

datatype 'x open_error = NeedsRoot "'x errno" | SocketFailed "'x errno" | BindFailed "'x errno" | RcvTimeoutFailed "'x errno"

datatype sys_call = SysSocket u16 | SysBind int u16 | SysRcvTimeout int duration | SysClose int

record source =
  sr_fd :: int

definition htons :: "u16 \<Rightarrow> u16" where
  "htons v = push_bit 8 v OR drop_bit 8 v"

definition ETH_P_ALL :: u16 where "ETH_P_ALL = 3"

text \<open>
  \<^verbatim>\<open>Open\<close>: the arguments are the results of \<^verbatim>\<open>socket\<close>, \<^verbatim>\<open>bind\<close> and \<^verbatim>\<open>setsockopt\<close>, should they be
  called.
\<close>

definition capture_Open ::
  "'x errno + int \<Rightarrow> 'x errno option \<Rightarrow> 'x errno option \<Rightarrow> ('x open_error + source) \<times> sys_call list" where
  "capture_Open sock bnd tmo =
     (let c1 = SysSocket (htons ETH_P_ALL) in
      case sock of
        Inl e \<Rightarrow> (Inl (if e = EPERM \<or> e = EACCES then NeedsRoot e else SocketFailed e), [c1])
      | Inr fd \<Rightarrow>
          (let c2 = SysBind fd (htons ETH_P_ALL) in
           case bnd of
             Some e \<Rightarrow> (Inl (BindFailed e), [c1, c2, SysClose fd])
           | None \<Rightarrow>
               (let c3 = SysRcvTimeout fd Second in
                case tmo of
                  Some e \<Rightarrow> (Inl (RcvTimeoutFailed e), [c1, c2, c3, SysClose fd])
                | None \<Rightarrow> (Inr \<lparr>sr_fd = fd\<rparr>, [c1, c2, c3]))))"

text \<open>
  What \<^verbatim>\<open>recvfrom\<close> returns: an error, or a frame (already cut to the buffer) with the packet type of a
  link-layer sender address, when the sender address is one.
\<close>

datatype 'x recv = RecvError "'x errno" | Received bytes "byte option"

definition PACKET_OUTGOING :: byte where "PACKET_OUTGOING = 4"

datatype 'x capture_result = CaptureTimeout | CaptureFailed "'x errno" | CaptureFrame bytes bool

text \<open>\<^verbatim>\<open>Read\<close> over the results to come; \<open>None\<close> is a call that is still waiting after the last of them.\<close>

fun capture_Read :: "'x recv list \<Rightarrow> ('x capture_result \<times> 'x recv list) option" where
  "capture_Read [] = None"
| "capture_Read (RecvError e # rs) =
     (if e = EAGAIN then Some (CaptureTimeout, rs)
      else if e = EINTR then capture_Read rs
      else Some (CaptureFailed e, rs))"
| "capture_Read (Received frame None # rs) = capture_Read rs"
| "capture_Read (Received frame (Some pkttype) # rs) =
     Some (CaptureFrame frame (pkttype = PACKET_OUTGOING), rs)"

section \<open>The kernel log\<close>

text \<open>
  A read of \<^verbatim>\<open>/dev/kmsg\<close> gives one record, or an error, which may be a path error with a text, and
  then the loop asks whether the context has ended.
\<close>

datatype 'x kmsg_error = PathError string | NoPathError 'x

datatype 'x kmsg_read = KmsgRecord string | KmsgFailed "'x kmsg_error" bool

datatype 'x tail_end = TailStopped | TailOpenFailed 'x | TailSeekFailed 'x | TailReadFailed "'x kmsg_error"

text \<open>The loop of \<^verbatim>\<open>Tail\<close>: the events it hands to its callback, and how it ends if it does.\<close>

fun tail_loop :: "'x kmsg_read list \<Rightarrow> kmsg_event list \<times> 'x tail_end option" where
  "tail_loop [] = ([], None)"
| "tail_loop (KmsgRecord s # rs) =
     (let (evs, end) = tail_loop rs in
      (case ParseLine s of None \<Rightarrow> evs | Some ev \<Rightarrow> ev # evs, end))"
| "tail_loop (KmsgFailed e stopped # rs) =
     (if stopped then ([], Some TailStopped)
      else if e = PathError ''broken pipe'' then tail_loop rs
      else ([], Some (TailReadFailed e)))"

definition Tail :: "'x option \<Rightarrow> 'x option \<Rightarrow> 'x kmsg_read list \<Rightarrow> kmsg_event list \<times> 'x tail_end option" where
  "Tail open_error seek_error rs =
     (case open_error of
        Some e \<Rightarrow> ([], Some (TailOpenFailed e))
      | None \<Rightarrow> (case seek_error of Some e \<Rightarrow> ([], Some (TailSeekFailed e)) | None \<Rightarrow> tail_loop rs))"

section \<open>Properties\<close>

text \<open>
  \<open>Open\<close> closes the socket exactly on the paths that got one and then failed, so none is leaked and
  none that is handed out is closed.
\<close>

theorem Open_no_leak:
  "case capture_Open sock bnd tmo of
     (Inl e, calls) \<Rightarrow> (\<forall>fd. sock = Inr fd \<longleftrightarrow> SysClose fd \<in> set calls)
   | (Inr src, calls) \<Rightarrow> sock = Inr (sr_fd src) \<and> bnd = None \<and> tmo = None \<and> (\<forall>fd. SysClose fd \<notin> set calls)"
  by (auto simp: capture_Open_def Let_def split: sum.splits option.splits)

definition skipped :: "'x recv \<Rightarrow> bool" where
  "skipped r = (case r of RecvError e \<Rightarrow> e = EINTR | Received frame pkttype \<Rightarrow> pkttype = None)"

text \<open>\<open>Read\<close> returns the first result that is neither an interruption nor a foreign address, and uses no more.\<close>

theorem Read_first:
  "capture_Read rs =
     (case dropWhile skipped rs of
        [] \<Rightarrow> None
      | RecvError e # rest \<Rightarrow> Some (if e = EAGAIN then CaptureTimeout else CaptureFailed e, rest)
      | Received frame pkttype # rest \<Rightarrow> Some (CaptureFrame frame (pkttype = Some PACKET_OUTGOING), rest))"
  by (induction rs rule: capture_Read.induct) (simp_all add: skipped_def)

definition fatal :: "'x kmsg_read \<Rightarrow> bool" where
  "fatal r = (case r of KmsgRecord s \<Rightarrow> False | KmsgFailed e stopped \<Rightarrow> stopped \<or> e \<noteq> PathError ''broken pipe'')"

definition record_event :: "'x kmsg_read \<Rightarrow> kmsg_event list" where
  "record_event r =
     (case r of KmsgRecord s \<Rightarrow> (case ParseLine s of None \<Rightarrow> [] | Some ev \<Rightarrow> [ev]) | KmsgFailed e stopped \<Rightarrow> [])"

lemma tail_loop_events:
  "fst (tail_loop rs) = concat (map record_event (takeWhile (\<lambda>r. \<not> fatal r) rs))
   \<and> (snd (tail_loop rs) = None \<longleftrightarrow> (\<forall>r \<in> set rs. \<not> fatal r))"
  by (induction rs rule: tail_loop.induct)
     (auto simp: fatal_def record_event_def split: option.splits prod.splits)

text \<open>
  The tail of the kernel log hands on exactly the refusals among the records it reads, in order,
  until the context ends or a read fails for good; falling behind, which the kernel reports as a
  broken pipe, neither ends it nor loses a record it did read.
\<close>

theorem Tail_events:
  "Tail None None rs =
     (concat (map record_event (takeWhile (\<lambda>r. \<not> fatal r) rs)), snd (tail_loop rs))
   \<and> (snd (Tail None None rs) = None \<longleftrightarrow> (\<forall>r \<in> set rs. \<not> fatal r))"
  using tail_loop_events[of rs] by (auto simp: Tail_def prod_eq_iff)

end
