(* ===== verification/Spec2Isabelle.thy ===== *)
theory Spec2Isabelle
  imports Nft_Kernel Learn_Write Enforce Daemon Cmd Capture
begin

text \<open>
  A verification library for egresswall, an egress firewall for a Linux host: it learns where the
  host talks, writes a policy, and then refuses everything else with nftables. The Go sources are
  under \<^verbatim>\<open>src/\<close>.

  \<^bold>\<open>How the program works.\<close> A policy file is compiled into two lists of rules, deny before allow
  (\<^verbatim>\<open>internal/policy\<close>). From it \<^verbatim>\<open>internal/nft\<close> builds a plan of atoms, one per rule, address family,
  prefix and port range, and loads it as one netlink batch; a rule with domains matches addresses by
  two timeout sets per rule that the daemon fills. The daemon (\<^verbatim>\<open>cmd/egresswall/enforce.go\<close>) sniffs DNS
  responses (\<^verbatim>\<open>internal/capture\<close>, \<^verbatim>\<open>internal/packet\<close>, \<^verbatim>\<open>internal/dnswatch\<close>), puts their addresses into
  the sets of the rules that cover the name, reports connections, reads the refusals back from the
  kernel log (\<^verbatim>\<open>internal/kmsg\<close>) and posts them to a webhook (\<^verbatim>\<open>internal/alert\<close>). \<^verbatim>\<open>learn\<close> watches the
  same packets, names their owners (\<^verbatim>\<open>internal/procs\<close>) and writes a policy (\<^verbatim>\<open>internal/learn\<close>).

  \<^bold>\<open>The theories, in the order they build on each other.\<close>

  \<^item> \<open>Prelude\<close>: word types, times, the fold \<open>fold_res\<close> that stands for a loop with error returns, and
    the interface \<open>first_match\<close> of a rule list, which the evaluator, the plan and the kernel's chains
    share; \<open>Go_Strings\<close> and \<open>Netip\<close>: the parts of \<^verbatim>\<open>strings\<close>, \<^verbatim>\<open>strconv\<close> and \<^verbatim>\<open>net/netip\<close> the program uses,
    byte strings as lists of characters, addresses as 32- and 128-bit words.
  \<^item> \<open>Policy\<close> (\<^verbatim>\<open>policy.go\<close>): \<open>Compile\<close>, \<open>Evaluate\<close>, \<open>DomainRules\<close>. \<open>Evaluate\<close> is proved equal to a
    declarative reading of the policy file, and \<open>Compile\<close> to report every broken rule.
  \<^item> \<open>Nft_Plan\<close> (\<^verbatim>\<open>plan.go\<close>): \<open>Build\<close> and the text of a plan. The atoms decide every packet as \<open>Evaluate\<close>
    decides its destination.
  \<^item> \<open>Nft_Apply\<close> (\<^verbatim>\<open>apply_linux.go\<close>): the expressions of each rule, the batch, \<open>AddAddrs\<close>, \<open>Close\<close>,
    \<open>Remove\<close>. \<open>Nft_Kernel\<close> interprets the batch over any machine that has the documented behaviour of
    the expressions, and proves that the chains decide as \<open>Evaluate\<close> does.
  \<^item> \<open>Dnswatch\<close> (\<^verbatim>\<open>cache.go\<close>): answers and the address cache, a refinement of the history of answers.
  \<^item> \<open>Packet\<close> (\<^verbatim>\<open>packet.go\<close>): every slice is bounds-checked in the model and none is out of range;
    frames read back as the fields they were made of.
  \<^item> \<open>Kmsg\<close> (\<^verbatim>\<open>kmsg.go\<close>) and \<open>Capture\<close> (\<^verbatim>\<open>capture_linux.go\<close>, \<^verbatim>\<open>tail_linux.go\<close>): log records and the two
    loops around system calls, whose results are inputs.
  \<^item> \<open>Learn\<close> and \<open>Learn_Write\<close> (\<^verbatim>\<open>learn.go\<close>, \<^verbatim>\<open>write.go\<close>): the observer is a summary of a log of flows;
    the written policy allows exactly what was seen, merged by host.
  \<^item> \<open>Alert\<close> (\<^verbatim>\<open>alert.go\<close>, \<^verbatim>\<open>webhook.go\<close>): the webhook as a step relation of sender, goroutine, clock and
    server; events are accounted for, sending never blocks, closing ends.
  \<^item> \<open>Procs\<close> (\<^verbatim>\<open>procs.go\<close>, \<^verbatim>\<open>lookup_linux.go\<close>): socket tables and the search for an owner.
  \<^item> \<open>Enforce\<close> (\<^verbatim>\<open>enforce.go\<close>): the daemon's state, one definition per branch of its loop, its start
    and its end. \<open>Daemon\<close>: what every run of it keeps, what the kernel's sets hold after it, what a
    reload does, the throttling of reports, dry runs.
  \<^item> \<open>Cmd\<close> (\<^verbatim>\<open>main.go\<close>, \<^verbatim>\<open>cmd/egresswall/learn.go\<close>): the command line, \<^verbatim>\<open>check\<close>, \<^verbatim>\<open>validate\<close> and a run of
    \<^verbatim>\<open>learn\<close> from its first frame to the file it leaves.
  \<^item> This theory: properties that span components, from DNS answers to the verdict of the kernel, from
    a refusal in the kernel to its report, and from what a dry run says to what the kernel does.

  \<^bold>\<open>How the state corresponds.\<close> Go structs are records with the fields of the source, maps are partial
  maps, an error return is a left injection, a panic a left injection of its own. An order the
  language leaves open (map iteration) is an argument, as are the results of system calls. Each turn
  of the daemon's loop gets its own environment, so the file system, the resolver and the iteration
  order may change between turns. Times are integers in nanoseconds.

  \<^bold>\<open>Fuel and bounds.\<close> No definition has fuel. The loop over a DNS answer section is a partial function
  whose result is \<open>None\<close> if it does not return; it returns for every parser that makes progress. The
  loops of the daemon, of \<^verbatim>\<open>learn\<close> and of the two readers recurse over the list of what they read. The
  webhook's runs are sequences of steps, and a bound on the steps after closing is proved.

  \<^bold>\<open>What is assumed.\<close> The nftables library and the kernel (\<open>nft_env\<close>, \<open>nft_machine\<close>, \<open>kernel_sets\<close>), the
  DNS message parser (\<open>dns_parser\<close>), the YAML decoder, the resolver, \<^verbatim>\<open>/proc\<close>, HTTP and the clock are
  arguments, with their documented behaviour as hypotheses where a theorem needs it; each such
  theorem has a witness with a concrete environment.

  \<^bold>\<open>Not modelled.\<close> The expiry of set elements inside the kernel (their timeouts are in the model, and
  proved to agree with the cache's, but the abstract sets of \<open>Daemon\<close> do not count down); the
  interleaving of the daemon's two goroutines, of which each is modelled on its own, and the mutexes,
  each operation being atomic; signals and contexts, which only end the lists of reads; the parsing
  of durations and the flags of \<^verbatim>\<open>learn\<close> and \<^verbatim>\<open>enforce\<close>, which arrive parsed; letter case and
  printability outside ASCII; the stubs for other systems than Linux, which only return errors.
\<close>

section \<open>From DNS answers to verdicts\<close>

text \<open>
  The answers \<open>A\<close> attribute the name \<open>nm\<close> to the address: every answer that holds the address has that
  name, and there is one unless the name is empty.
\<close>

definition attributed :: "answer set \<Rightarrow> addr \<Rightarrow> string \<Rightarrow> bool" where
  "attributed A ip nm \<longleftrightarrow>
     (\<forall>a \<in> A. (\<exists>ad \<in> set (an_Addrs a). AsSlice (Unmap (da_IP ad)) = AsSlice (Unmap ip)) \<longrightarrow> an_Name a = nm)
     \<and> (nm \<noteq> [] \<longrightarrow>
          (\<exists>a \<in> A. an_Name a = nm \<and> (\<exists>ad \<in> set (an_Addrs a). AsSlice (Unmap (da_IP ad)) = AsSlice (Unmap ip))))"

lemma DomainRules_Nil:
  assumes "Compile p = Inr s"
  shows "DomainRules s [] = []"
proof -
  have "\<not> covers_name (ps_rules s ! i) []" if "i < length (ps_rules s)" for i
    using Compile_wf[OF assms] that nth_mem[OF that]
    by (auto simp: rule_wf_def covers_name_def list_all_iff list_ex_iff HasSuffix_iff HasPrefix_iff)
  moreover have "NormalizeDomain [] = []" by code_simp
  ultimately show ?thesis by (simp add: DomainRules_def domain_rules_from_filter filter_empty_conv)
qed

lemma attributed_answers:
  assumes "Compile p = Inr s" and "attributed A ip nm"
  shows "(\<exists>a \<in> A. answers s a i ip) \<longleftrightarrow> i \<in> set (DomainRules s nm)"
proof
  assume "\<exists>a \<in> A. answers s a i ip"
  then show "i \<in> set (DomainRules s nm)" using assms(2) by (auto simp: answers_def attributed_def)
next
  assume i: "i \<in> set (DomainRules s nm)"
  then have "nm \<noteq> []" using DomainRules_Nil[OF assms(1)] by auto
  then show "\<exists>a \<in> A. answers s a i ip" using assms(2) i by (fastforce simp: answers_def attributed_def)
qed

text \<open>The kernel of the packet has the contents of the daemon's sets.\<close>

definition shares_sets :: "kpacket \<Rightarrow> set_view \<Rightarrow> bool" where
  "shares_sets k v \<longleftrightarrow> (\<forall>n key. \<not> HasPrefix n ''__set'' \<longrightarrow> (kp_sets k n key \<longleftrightarrow> v n key))"

lemma sets_agree_attributed:
  assumes "Compile p = Inr s" and "kflow E k f" and "\<not> Is4In6 (fl_dst f)" and "shares_sets k v"
    and "\<And>i. holds v i (fl_dst f) \<longleftrightarrow> (\<exists>a \<in> A. answers s a i (fl_dst f))"
    and "attributed A (fl_dst f) (fl_name f)"
  shows "sets_agree s f"
  unfolding sets_agree_def
proof (intro allI impI)
  fix i
  have "fl_sets f (SetFor i (fl_dst f)) (fl_dst f) \<longleftrightarrow> kp_sets k (SetFor i (fl_dst f)) (AsSlice (fl_dst f))"
    using assms(2) by (simp add: kflow_def)
  also have "\<dots> \<longleftrightarrow> holds v i (fl_dst f)"
    using assms(4) SetFor_not_anonymous by (simp add: shares_sets_def holds_def Unmap_id[OF assms(3)])
  also have "\<dots> \<longleftrightarrow> i \<in> set (DomainRules s (fl_name f))"
    using assms(5) attributed_answers[OF assms(1,6)] by simp
  finally show "fl_sets f (SetFor i (fl_dst f)) (fl_dst f) \<longleftrightarrow> i \<in> set (DomainRules s (fl_name f))" .
qed

lemma start_batch:
  assumes "\<not> ec_dryRun C" and "enforce_start V C path now k = Inr st0"
  obtains b where "Apply_batch (ee_nft V) (ec_plan C) k = Inr b"
  using assms
  by (auto simp: enforce_start_def Apply_def Let_def split: sum.splits)



text \<open>
  C25: a dry run cries wolf on the local link. A multicast or link-local destination that the policy
  refuses is let through by the chain an enforcing run would have loaded, yet the dry run reports
  that it would be denied.
\<close>

theorem dry_run_overreports:
  assumes "Compile p = Inr (ec_set C)" and "Apply_batch E ((Build (ec_set C))\<lparr>pn_Forward := fw\<rparr>) k0 = Inr b"
    and "nft_machine (ev_BigEndian E) sem" and "kflow E k f" and "batch_fits k f b"
    and "length (kp_oif k) = 16" and "\<not> Is4In6 (fl_dst f)"
    and "fl_l4 f = ''tcp'' \<or> fl_l4 f = ''udp''"
    and "TrimChar (fl_cgroup f) (CHR ''/'') = fl_cgroup f" and "sets_agree (ec_set C) f"
    and "local_link f" and "ec_dryRun C" and "report_dest owner (es_dns st) q now = dest_of f"
    and "dc_Verdict (Evaluate (ec_set C) (dest_of f)) = Deny" and "\<not> throttled st (report_key q) now"
  shows "chain_fate sem ChainName (Build (ec_set C)) (hd_queue b) k = (Allow, None)
    \<and> (\<exists>rest. es_log (report C owner q now st) = es_log st @ [''would deny'' @ rest])"
  using output_fate[OF assms(1-10)] assms(11-14)
  by (simp add: report_fresh[OF assms(15)] Let_def report_line_def)

section \<open>Examples\<close>

lemma plain_kflow:
  assumes "fl_dst f = Addr4 w" and "kp_nfproto k = 2" and "20 \<le> length (kp_net k)"
    and "take 4 (drop 16 (kp_net k)) = word_bytes 4 w"
    and "fl_l4 f = ''tcp'' \<and> kp_l4 k = 6 \<or> fl_l4 f = ''udp'' \<and> kp_l4 k = 17"
    and "4 \<le> length (kp_trans k)" and "take 2 (drop 2 (kp_trans k)) = be16 (fl_port f)"
    and "\<And>n. kp_sets k n (word_bytes 4 w) \<longleftrightarrow> fl_sets f n (Addr4 w)"
    and "\<And>path i. ev_Stat E (cgroupRoot @ ''/'' @ path) = StatIno i \<Longrightarrow>
       path = ''a.slice'' \<and> (kp_ancestor k 1 = Some i \<longleftrightarrow> cgroup_hits ''a.slice'' (fl_cgroup f))"
  shows "kflow E k f"
proof -
  have "CgroupLevel ''a.slice'' = 1" by code_simp
  then show ?thesis unfolding kflow_def using assms by auto
qed

lemma no_cgroup_hits: "\<not> cgroup_hits ''a.slice'' []"
  by code_simp

lemma example_stats:
  "ev_Stat example_env (cgroupRoot @ CHR ''/'' # path) = StatIno i \<Longrightarrow> path = ''a.slice'' \<and> i = 5"
  "ev_Stat (ee_nft (example_world True)) (cgroupRoot @ CHR ''/'' # path) = StatIno i \<Longrightarrow> path = ''a.slice'' \<and> i = 5"
  by (auto simp: example_env_def example_world_def ref_env_def cgroupRoot_def split: if_splits)

lemma example_world_batch:
  "case Apply_batch (ee_nft (example_world True)) (ec_plan (example_config False)) None of
     Inl _ \<Rightarrow> False | Inr h \<Rightarrow> no_constant_sets (hd_queue h) \<and> hd_missing h = {}"
  by code_simp


text \<open>A packet from a socket in a.slice to 9.1.1.1:443, and one to 224.0.0.251:5353.\<close>

definition denied_packet :: kpacket where
  "denied_packet = example_packet\<lparr>
     kp_net := [0x45, 0, 0, 40, 0, 0, 0x40, 0, 64, 6, 0, 0, 10, 0, 0, 2, 9, 1, 1, 1],
     kp_ancestor := (\<lambda>n. if n = 1 then Some 5 else None), kp_sets := (\<lambda>_ _. False)\<rparr>"

definition denied_flow :: flow where
  "denied_flow = \<lparr>fl_dst = Addr4 0x09010101, fl_l4 = ''tcp'', fl_port = 443, fl_cgroup = ''a.slice'',
     fl_name = [], fl_sets = (\<lambda>_ _. False)\<rparr>"

definition mdns_packet :: kpacket where
  "mdns_packet = example_packet\<lparr>kp_l4 := 17,
     kp_net := [0x45, 0, 0, 40, 0, 0, 0x40, 0, 64, 17, 0, 0, 10, 0, 0, 2, 0xe0, 0, 0, 0xfb],
     kp_trans := [0x14, 0xe9, 0x14, 0xe9], kp_sets := (\<lambda>_ _. False)\<rparr>"

definition mdns_flow :: flow where
  "mdns_flow = \<lparr>fl_dst = Addr4 0xe00000fb, fl_l4 = ''udp'', fl_port = 5353, fl_cgroup = [],
     fl_name = [], fl_sets = (\<lambda>_ _. False)\<rparr>"

lemma nameless_agree: "fl_name f = [] \<Longrightarrow> fl_sets f = (\<lambda>_ _. False) \<Longrightarrow> sets_agree example_set f"
  using DomainRules_Nil[OF example_compiles] by (simp add: sets_agree_def)

lemma example_env_batch:
  obtains b where "Apply_batch example_env ((Build example_set)\<lparr>pn_Forward := True\<rparr>) [] = Inr b"
    and "no_constant_sets (hd_queue b)" and "hd_missing b = {}"
  using example_batch unfolding example_plan_def
  by (cases "Apply_batch example_env ((Build example_set)\<lparr>pn_Forward := True\<rparr>) []") auto


lemma dry_run_overreports_witness:
  "\<exists>b q st rest. Apply_batch example_env ((Build example_set)\<lparr>pn_Forward := True\<rparr>) [] = Inr b
     \<and> chain_fate (ref_machine False) ChainName (Build example_set) (hd_queue b) mdns_packet = (Allow, None)
     \<and> es_log (report (example_config True) (\<lambda>_ _ _. []) q 1 (st :: unit enforce_state)) = [''would deny'' @ rest]"
proof (rule example_env_batch)
  fix b assume b: "Apply_batch example_env ((Build example_set)\<lparr>pn_Forward := True\<rparr>) [] = Inr b"
    "no_constant_sets (hd_queue b)" "hd_missing b = {}"
  have w: "word_bytes 4 (0xe00000fb :: u32) = [0xe0, 0, 0, 0xfb]" "be16 5353 = [0x14, 0xe9]" by code_simp+
  have kf: "kflow example_env mdns_packet mdns_flow"
    by (rule plain_kflow[of _ "0xe00000fb"])
       (use w no_cgroup_hits in \<open>auto simp: mdns_packet_def example_packet_def mdns_flow_def dest!: example_stats(1)\<close>)
  have big: "nft_machine (ev_BigEndian example_env) (ref_machine False)"
    using ref_machine_ok by (simp add: example_env_def)
  have bf: "batch_fits mdns_packet mdns_flow b" using b no_constant_sets_loaded by (simp add: batch_fits_def)
  have ll: "local_link mdns_flow" unfolding local_link_def mdns_flow_def by code_simp
  have ev: "dc_Verdict (Evaluate example_set (dest_of mdns_flow)) = Deny"
    unfolding dest_of_def mdns_flow_def by code_simp
  let ?q = "\<lparr>pk_Src = Addr4 0x0a000002, pk_Dst = Addr4 0xe00000fb, pk_Proto = ProtoUDP, pk_SrcPort = 5353,
      pk_DstPort = 5353, pk_SYN = False, pk_ACK = False, pk_Payload = []\<rparr>"
  let ?st = "\<lparr>es_handle = None, es_dns = cache_New 0, es_seen = (\<lambda>_. None), es_lastSweep = 0,
      es_lastCgroupCheck = 0, es_kernel = (), es_log = [], es_alerts = []\<rparr>"
  have "chain_fate (ref_machine False) ChainName (Build (ec_set (example_config True))) (hd_queue b) mdns_packet = (Allow, None)
    \<and> (\<exists>rest. es_log (report (example_config True) (\<lambda>_ _ _. []) ?q 1 ?st) = es_log ?st @ [''would deny'' @ rest])"
  proof (rule dry_run_overreports[OF _ _ big kf bf])
    show "Compile example_policy = Inr (ec_set (example_config True))" by (simp add: example_compiles example_not_dry)
    show "Apply_batch example_env ((Build (ec_set (example_config True)))\<lparr>pn_Forward := True\<rparr>) [] = Inr b"
      using b(1) by (simp add: example_not_dry)
    show "dc_Verdict (Evaluate (ec_set (example_config True)) (dest_of mdns_flow)) = Deny"
      using ev by (simp add: example_not_dry)
    show "report_dest (\<lambda>_ _ _. []) (es_dns ?st) ?q 1 = dest_of mdns_flow"
      by (simp add: report_dest_def cache_Lookup_def cache_New_def dest_of_def mdns_flow_def IsUDP_def ProtoUDP_def ProtoTCP_def)
  qed (use ll in \<open>simp_all add: mdns_packet_def example_packet_def mdns_flow_def TrimChar_id nameless_agree
        example_not_dry throttled_def\<close>)
  then show ?thesis using b(1) by (fastforce simp: example_not_dry)
qed

end
